(* ===== verification/Prelude.thy ===== *)
theory Prelude
  imports Main "HOL-Library.Word" "HOL-Library.Monad_Syntax" "HOL-Library.Multiset"
begin

text \<open>
  Shared vocabulary of the development: the C integer types as words, the
  wrap-around of \<open>size_t\<close>, memory copies on byte buffers, big-endian byte
  sequences, and the generic loops over fallible state-passing operations that
  the components use.

  Conventions. \<open>None\<close> of an outer \<open>option\<close> is always the end of the process: a
  failed \<open>assert\<close> or an access the C standard leaves undefined (a null or
  dangling pointer, a read outside an array). An error code that the C function
  returns to its caller is a value inside. Allocation never fails, since
  \<open>XMALLOC\<close>, \<open>XCALLOC\<close> and \<open>XREALLOC\<close> of \<open>lib/memory.c\<close> exit the process instead
  of returning a null pointer.
\<close>

unbundle bit_operations_syntax

type_synonym u8 = "8 word"
type_synonym u16 = "16 word"
type_synonym u32 = "32 word"
type_synonym u64 = "64 word"

text \<open>The autonomous system number, \<open>as_t\<close> of \<open>bgpd/bgpd.h\<close>.\<close>

type_synonym as_t = u32

named_theorems wf_intros \<open>preservation of well-formedness\<close>
named_theorems codec_simps \<open>byte-level encodings\<close>

subsection \<open>The unsigned 64-bit size type\<close>

text \<open>
  Sizes and offsets are natural numbers below \<open>2 ^ 64\<close>; sums and differences that
  the C code forms are written with the wrap-around of \<open>size_t\<close>.
\<close>

definition szmod :: nat where
  "szmod = 2 ^ 64"

definition szadd :: "nat \<Rightarrow> nat \<Rightarrow> nat" where
  "szadd a b = (a + b) mod szmod"

definition szsub :: "nat \<Rightarrow> nat \<Rightarrow> nat" where
  "szsub a b = (a + (szmod - b mod szmod)) mod szmod"

lemma szmod_pos [simp]: "0 < szmod"
  by (simp add: szmod_def)

lemma szadd_exact: "a + b < szmod \<Longrightarrow> szadd a b = a + b"
  by (simp add: szadd_def)

lemma szsub_exact: "b \<le> a \<Longrightarrow> a < szmod \<Longrightarrow> szsub a b = a - b"
proof -
  assume "b \<le> a" and "a < szmod"
  then have "a + (szmod - b mod szmod) = (a - b) + szmod" by simp
  then have "szsub a b = ((a - b) + szmod) mod szmod" by (simp add: szsub_def)
  also have "\<dots> = a - b" using \<open>a < szmod\<close> by simp
  finally show ?thesis .
qed

subsection \<open>Buffers\<close>

text \<open>\<open>memcpy (buf + off, src, length src)\<close> on a buffer given as the list of its bytes.\<close>

definition memcpy_at :: "'a list \<Rightarrow> nat \<Rightarrow> 'a list \<Rightarrow> 'a list" where
  "memcpy_at buf off src = take off buf @ src @ drop (off + length src) buf"

lemma length_memcpy_at [simp]:
  "off + length src \<le> length buf \<Longrightarrow> length (memcpy_at buf off src) = length buf"
  by (simp add: memcpy_at_def)

lemma take_memcpy_at [simp]:
  "n \<le> off \<Longrightarrow> off \<le> length buf \<Longrightarrow> take n (memcpy_at buf off src) = take n buf"
  by (simp add: memcpy_at_def)

lemma take_memcpy_at_end [simp]:
  "off \<le> length buf \<Longrightarrow> take (off + length src) (memcpy_at buf off src) = take off buf @ src"
  by (simp add: memcpy_at_def)

lemma memcpy_at_Nil [simp]: "memcpy_at buf off [] = buf"
  by (simp add: memcpy_at_def)

lemma memcpy_at_single: "off < length buf \<Longrightarrow> memcpy_at buf off [b] = buf[off := b]"
  by (simp add: memcpy_at_def upd_conv_take_nth_drop)

text \<open>The bytes in \<open>[from, to)\<close> of a buffer.\<close>

definition span :: "'a list \<Rightarrow> nat \<Rightarrow> nat \<Rightarrow> 'a list" where
  "span buf from to = drop from (take to buf)"

lemma length_span [simp]: "to \<le> length buf \<Longrightarrow> length (span buf from to) = to - from"
  by (simp add: span_def)

lemma span_empty [simp]: "span buf n n = []"
  by (simp add: span_def)

lemma span_append:
  "from \<le> mid \<Longrightarrow> mid \<le> to \<Longrightarrow> to \<le> length buf \<Longrightarrow>
     span buf from mid @ span buf mid to = span buf from to"
proof -
  assume a: "from \<le> mid" "mid \<le> to" "to \<le> length buf"
  have "take to buf = take mid buf @ drop mid (take to buf)"
    using a by (metis append_take_drop_id min.absorb1 take_take)
  then show ?thesis
    using a unfolding span_def
    by (metis (no_types, lifting) append_take_drop_id drop_append drop_take le_trans length_take
        min.absorb2 diff_is_0_eq drop_0)
qed

lemma span_memcpy_at_end:
  "from \<le> off \<Longrightarrow> off \<le> length buf \<Longrightarrow>
     span (memcpy_at buf off src) from (off + length src) = span buf from off @ src"
  by (simp add: span_def)

lemma span_nth: "from + i < to \<Longrightarrow> to \<le> length buf \<Longrightarrow> span buf from to ! i = buf ! (from + i)"
  by (simp add: span_def)

lemma span_take: "from + n \<le> to \<Longrightarrow> take n (span buf from to) = span buf from (from + n)"
  by (simp add: span_def take_drop add.commute min.absorb1)

lemma span_drop: "drop n (span buf from to) = span buf (from + n) to"
  by (simp add: span_def add.commute)

subsection \<open>Big-endian byte sequences\<close>

definition be16 :: "u16 \<Rightarrow> u8 list" where
  "be16 w = [ucast (drop_bit 8 w), ucast w]"

definition be32 :: "u32 \<Rightarrow> u8 list" where
  "be32 l = [ucast (drop_bit 24 l), ucast (drop_bit 16 l), ucast (drop_bit 8 l), ucast l]"

definition be64 :: "u64 \<Rightarrow> u8 list" where
  "be64 q = [ucast (drop_bit 56 q), ucast (drop_bit 48 q), ucast (drop_bit 40 q),
             ucast (drop_bit 32 q), ucast (drop_bit 24 q), ucast (drop_bit 16 q),
             ucast (drop_bit 8 q), ucast q]"

definition of_be16 :: "u8 list \<Rightarrow> u16" where
  "of_be16 b = push_bit 8 (ucast (b ! 0)) OR ucast (b ! 1)"

definition of_be32 :: "u8 list \<Rightarrow> u32" where
  "of_be32 b = push_bit 24 (ucast (b ! 0)) OR push_bit 16 (ucast (b ! 1))
               OR push_bit 8 (ucast (b ! 2)) OR ucast (b ! 3)"

definition of_be64 :: "u8 list \<Rightarrow> u64" where
  "of_be64 b = push_bit 56 (ucast (b ! 0)) OR push_bit 48 (ucast (b ! 1))
               OR push_bit 40 (ucast (b ! 2)) OR push_bit 32 (ucast (b ! 3))
               OR push_bit 24 (ucast (b ! 4)) OR push_bit 16 (ucast (b ! 5))
               OR push_bit 8 (ucast (b ! 6)) OR ucast (b ! 7)"

lemma bit_byte_of:
  fixes w :: "'a::len word"
  assumes "k + 8 \<le> LENGTH('a)"
  shows "bit (push_bit k (ucast (ucast (drop_bit k w) :: u8) :: 'a word)) n
           \<longleftrightarrow> k \<le> n \<and> n < k + 8 \<and> bit w n"
proof (cases "k \<le> n")
  case True
  then obtain m where n: "n = k + m" using le_Suc_ex by blast
  show ?thesis using assms by (auto simp: n bit_simps)
next
  case False
  then show ?thesis by (simp add: bit_push_bit_iff)
qed

lemma bit_low_byte:
  fixes w :: "'a::len word"
  shows "bit (ucast (ucast w :: u8) :: 'a word) n \<longleftrightarrow> n < 8 \<and> bit w n"
  by (auto simp: bit_simps dest: bit_imp_le_length)

lemma of_be16_be16 [simp, codec_simps]: "of_be16 (be16 w) = w"
  by (rule bit_eqI) (auto simp: of_be16_def be16_def bit_or_iff bit_byte_of bit_low_byte)

lemma of_be32_be32 [simp, codec_simps]: "of_be32 (be32 w) = w"
  by (rule bit_eqI) (auto simp: of_be32_def be32_def bit_or_iff bit_byte_of bit_low_byte)

lemma of_be64_be64 [simp, codec_simps]: "of_be64 (be64 w) = w"
  by (rule bit_eqI) (auto simp: of_be64_def be64_def bit_or_iff bit_byte_of bit_low_byte)

lemma length_be [simp]: "length (be16 w) = 2" "length (be32 l) = 4" "length (be64 q) = 8"
  by (simp_all add: be16_def be32_def be64_def)

lemma bit_u8_high: "8 \<le> n \<Longrightarrow> \<not> bit (b :: u8) n"
  by (auto dest: bit_imp_le_length)

lemma be16_of_be16: "length b = 2 \<Longrightarrow> be16 (of_be16 b) = b"
proof -
  assume "length b = 2"
  then obtain x y where b: "b = [x, y]" by (auto simp: numeral_2_eq_2 length_Suc_conv)
  show ?thesis unfolding b be16_def of_be16_def
    by (auto intro!: bit_eqI simp: bit_simps bit_u8_high)
qed

lemma be32_of_be32: "length b = 4 \<Longrightarrow> be32 (of_be32 b) = b"
proof -
  assume "length b = 4"
  then obtain x y z v where b: "b = [x, y, z, v]" by (auto simp: numeral_eq_Suc length_Suc_conv)
  show ?thesis unfolding b be32_def of_be32_def
    by (auto intro!: bit_eqI simp: bit_simps bit_u8_high)
qed

lemma be64_of_be64: "length b = 8 \<Longrightarrow> be64 (of_be64 b) = b"
proof -
  assume "length b = 8"
  then obtain b0 b1 b2 b3 b4 b5 b6 b7 where b: "b = [b0, b1, b2, b3, b4, b5, b6, b7]"
    by (auto simp: numeral_eq_Suc length_Suc_conv)
  show ?thesis unfolding b be64_def of_be64_def
    by (auto intro!: bit_eqI simp: bit_simps bit_u8_high)
qed

lemma of_be_take:
  "2 \<le> length b \<Longrightarrow> of_be16 (take 2 b) = of_be16 b"
  "4 \<le> length b \<Longrightarrow> of_be32 (take 4 b) = of_be32 b"
  "8 \<le> length b \<Longrightarrow> of_be64 (take 8 b) = of_be64 b"
  by (simp_all add: of_be16_def of_be32_def of_be64_def)

subsection \<open>Loops over fallible operations\<close>

text \<open>
  \<open>for (i = 0; i < n; i++) x[i] = get (s)\<close> and \<open>for (i = 0; i < n; i++) put (s, x[i])\<close>,
  for operations that may end the process.
\<close>

fun read_n :: "('s \<Rightarrow> ('a \<times> 's) option) \<Rightarrow> nat \<Rightarrow> 's \<Rightarrow> ('a list \<times> 's) option" where
  "read_n get 0 s = Some ([], s)"
| "read_n get (Suc n) s = do {
     (x, s') \<leftarrow> get s;
     (xs, s'') \<leftarrow> read_n get n s';
     Some (x # xs, s'') }"

fun write_all :: "('s \<Rightarrow> 'a \<Rightarrow> 's option) \<Rightarrow> 's \<Rightarrow> 'a list \<Rightarrow> 's option" where
  "write_all put s [] = Some s"
| "write_all put s (x # xs) = do { s' \<leftarrow> put s x; write_all put s' xs }"

subsection \<open>Decimal numerals\<close>

text \<open>The conversion \<open>%u\<close> of \<open>printf\<close>.\<close>

definition digit_char :: "nat \<Rightarrow> char" where
  "digit_char d = char_of (48 + d)"

lemma digit_char_simps [simp]:
  "digit_char 0 = CHR ''0''" "digit_char (Suc 0) = CHR ''1''" "digit_char 2 = CHR ''2''"
  "digit_char 3 = CHR ''3''" "digit_char 4 = CHR ''4''" "digit_char 5 = CHR ''5''"
  "digit_char 6 = CHR ''6''" "digit_char 7 = CHR ''7''" "digit_char 8 = CHR ''8''"
  "digit_char 9 = CHR ''9''"
  by (simp_all add: digit_char_def char_of_def bit_Suc_0_iff)

fun dec_string :: "nat \<Rightarrow> string" where
  "dec_string n = (if n < 10 then [digit_char n] else dec_string (n div 10) @ [digit_char (n mod 10)])"

declare dec_string.simps [simp del]

lemma dec_string_not_Nil [simp]: "dec_string n \<noteq> []"
  by (subst dec_string.simps) simp

lemma length_dec_string: "n < 10 ^ Suc k \<Longrightarrow> length (dec_string n) \<le> Suc k"
proof (induction k arbitrary: n)
  case 0
  then show ?case by (subst dec_string.simps) simp
next
  case (Suc k)
  then have "n div 10 < 10 ^ Suc k" by (simp add: less_mult_imp_div_less mult.commute)
  from Suc.IH [OF this] show ?case by (subst dec_string.simps) simp
qed

lemma length_dec_string_u32: "length (dec_string (unat (a :: u32))) \<le> 10"
proof -
  have "unat a < 2 ^ LENGTH(32)" by (rule unsigned_less)
  then have "unat a < 10 ^ Suc 9" by simp
  from length_dec_string [OF this] show ?thesis by simp
qed

text \<open>
  Reading a decimal numeral: the number of digits at the front of a string, the value
  they have after the digits of \<open>acc\<close>, and what follows them.
\<close>

definition digit_value :: "char \<Rightarrow> nat option" where
  "digit_value c = (let n = of_char c in if 48 \<le> n \<and> n \<le> (57 :: nat) then Some (n - 48) else None)"

fun read_digits :: "nat \<Rightarrow> string \<Rightarrow> nat \<times> nat \<times> string" where
  "read_digits acc [] = (0, acc, [])"
| "read_digits acc (c # cs) =
     (case digit_value c of
        None \<Rightarrow> (0, acc, c # cs)
      | Some d \<Rightarrow> (case read_digits (acc * 10 + d) cs of (n, v, rest) \<Rightarrow> (n + 1, v, rest)))"

definition is_digit :: "char \<Rightarrow> bool" where
  "is_digit c \<longleftrightarrow> digit_value c \<noteq> None"

lemma digit_value_digit_char [simp]: "d < 10 \<Longrightarrow> digit_value (digit_char d) = Some d"
  by (simp add: digit_value_def digit_char_def)

lemma dec_string_digits: "c \<in> set (dec_string n) \<Longrightarrow> is_digit c"
  by (induction n rule: dec_string.induct)
     (subst (asm) (2) dec_string.simps, auto simp: is_digit_def split: if_splits)

lemma read_digits_stop: "s = [] \<or> \<not> is_digit (hd s) \<Longrightarrow> read_digits acc s = (0, acc, s)"
  by (cases s) (auto simp: is_digit_def)

lemma read_digits_dec_string:
  assumes "rest = [] \<or> \<not> is_digit (hd rest)"
  shows "read_digits 0 (dec_string n @ rest) = (length (dec_string n), n, rest)"
proof -
  have "read_digits 0 (dec_string n @ s) =
      (case read_digits n s of (k, v, r) \<Rightarrow> (length (dec_string n) + k, v, r))" for s
  proof (induction n arbitrary: s rule: dec_string.induct)
    case (1 n)
    show ?case
    proof (cases "n < 10")
      case True
      then show ?thesis by (subst (1 2) dec_string.simps) (simp split: prod.splits)
    next
      case False
      then show ?thesis
        using "1.IH" [OF False, of "digit_char (n mod 10) # s"]
        by (subst (1 2) dec_string.simps) (simp split: prod.splits)
    qed
  qed
  from this [of rest] read_digits_stop [OF assms, of n] show ?thesis by simp
qed

end
