(* ===== verification/Byte_Stream.thy ===== *)
theory Byte_Stream
  imports Prelude
begin

text \<open>
  \<open>lib/stream.c\<close>: the byte buffer every packet is read from and written to. A
  \<open>struct stream\<close> is the record \<open>stream\<close>; its \<open>next\<close> pointer belongs to the FIFO
  of streams and is modelled there. Each operation returns \<open>None\<close> where one of the
  macros \<open>STREAM_VERIFY_SANE\<close> and \<open>STREAM_BOUND_WARN\<close> fails its assertion. The
  contents of freshly allocated memory are an argument \<open>junk\<close>.

  The contract of the component is \<open>stream_ok\<close>, the comment's
  \<open>getp \<le> endp \<le> size\<close>, and the view of a stream as the queue of its unread bytes
  (\<open>unread\<close>): a put appends to it, a get takes from its front. The locale
  \<open>stream_codec\<close> states that contract for one field type; its lemmas lift it to
  sequences of fields, and it is interpreted for the four integer widths.
\<close>

record stream =
  getp :: nat
  endp :: nat
  stream_size :: nat
  stream_data :: "u8 list"

definition STREAM_WRITEABLE :: "stream \<Rightarrow> nat" where
  "STREAM_WRITEABLE s = szsub (stream_size s) (endp s)"

definition STREAM_READABLE :: "stream \<Rightarrow> nat" where
  "STREAM_READABLE s = szsub (endp s) (getp s)"

definition GETP_VALID :: "stream \<Rightarrow> nat \<Rightarrow> bool" where
  "GETP_VALID s g \<longleftrightarrow> g \<le> endp s"

definition ENDP_VALID :: "stream \<Rightarrow> nat \<Rightarrow> bool" where
  "ENDP_VALID s e \<longleftrightarrow> e \<le> stream_size s"

text \<open>The assertion \<open>b\<close>: it ends the process when \<open>b\<close> is false.\<close>

definition assert_that :: "bool \<Rightarrow> unit option" where
  "assert_that b = (if b then Some () else None)"

definition STREAM_VERIFY_SANE :: "stream \<Rightarrow> unit option" where
  "STREAM_VERIFY_SANE s = assert_that (GETP_VALID s (getp s) \<and> ENDP_VALID s (endp s))"

definition CHECK_SIZE :: "stream \<Rightarrow> nat \<Rightarrow> nat" where
  "CHECK_SIZE s z =
     (if stream_size s < szadd (endp s) z then szsub (stream_size s) (endp s) else z)"

subsection \<open>Creation, copies and cursors\<close>

definition stream_new :: "(nat \<Rightarrow> u8) \<Rightarrow> nat \<Rightarrow> stream option" where
  "stream_new junk sz = do {
     assert_that (0 < sz);
     Some \<lparr>getp = 0, endp = 0, stream_size = sz, stream_data = map junk [0..<sz]\<rparr> }"

definition stream_copy :: "stream \<Rightarrow> stream \<Rightarrow> stream option" where
  "stream_copy new src = do {
     STREAM_VERIFY_SANE src;
     assert_that (endp src \<le> stream_size new);
     Some (new\<lparr>endp := endp src, getp := getp src,
               stream_data := memcpy_at (stream_data new) 0 (take (endp src) (stream_data src))\<rparr>) }"

definition stream_dup :: "(nat \<Rightarrow> u8) \<Rightarrow> stream \<Rightarrow> stream option" where
  "stream_dup junk s = do {
     STREAM_VERIFY_SANE s;
     new \<leftarrow> stream_new junk (endp s);
     stream_copy new s }"

definition stream_dupcat :: "(nat \<Rightarrow> u8) \<Rightarrow> stream \<Rightarrow> stream \<Rightarrow> nat \<Rightarrow> stream option" where
  "stream_dupcat junk s1 s2 offset = do {
     STREAM_VERIFY_SANE s1;
     STREAM_VERIFY_SANE s2;
     new \<leftarrow> stream_new junk (szadd (endp s1) (endp s2));
     assert_that (offset \<le> endp s1 \<and> endp s1 + endp s2 < szmod);
     let d1 = memcpy_at (stream_data new) 0 (take offset (stream_data s1));
     let d2 = memcpy_at d1 offset (take (endp s2) (stream_data s2));
     let d3 = memcpy_at d2 (offset + endp s2) (span (stream_data s1) offset (endp s1));
     Some (new\<lparr>stream_data := d3, endp := endp s1 + endp s2\<rparr>) }"

definition stream_resize :: "(nat \<Rightarrow> u8) \<Rightarrow> stream \<Rightarrow> nat \<Rightarrow> (nat \<times> stream) option" where
  "stream_resize junk s newsize = do {
     STREAM_VERIFY_SANE s;
     assert_that (0 < newsize);
     let data = take newsize (stream_data s) @ map junk [length (stream_data s)..<newsize];
     let e = (if newsize < endp s then newsize else endp s);
     let g = (if e < getp s then e else getp s);
     let s' = s\<lparr>stream_data := data, stream_size := newsize, endp := e, getp := g\<rparr>;
     STREAM_VERIFY_SANE s';
     Some (newsize, s') }"

definition stream_get_getp :: "stream \<Rightarrow> nat option" where
  "stream_get_getp s = do { STREAM_VERIFY_SANE s; Some (getp s) }"

definition stream_get_endp :: "stream \<Rightarrow> nat option" where
  "stream_get_endp s = do { STREAM_VERIFY_SANE s; Some (endp s) }"

definition stream_get_size :: "stream \<Rightarrow> nat option" where
  "stream_get_size s = do { STREAM_VERIFY_SANE s; Some (stream_size s) }"

definition stream_set_getp :: "stream \<Rightarrow> nat \<Rightarrow> stream option" where
  "stream_set_getp s pos = do {
     STREAM_VERIFY_SANE s;
     assert_that (GETP_VALID s pos);
     Some (s\<lparr>getp := pos\<rparr>) }"

definition stream_set_endp :: "stream \<Rightarrow> nat \<Rightarrow> stream option" where
  "stream_set_endp s pos = do {
     STREAM_VERIFY_SANE s;
     assert_that (ENDP_VALID s pos);
     assert_that (getp s \<le> pos);
     let s' = s\<lparr>endp := pos\<rparr>;
     STREAM_VERIFY_SANE s';
     Some s' }"

definition stream_forward_getp :: "stream \<Rightarrow> nat \<Rightarrow> stream option" where
  "stream_forward_getp s n = do {
     STREAM_VERIFY_SANE s;
     assert_that (GETP_VALID s (szadd (getp s) n));
     Some (s\<lparr>getp := szadd (getp s) n\<rparr>) }"

definition stream_forward_endp :: "stream \<Rightarrow> nat \<Rightarrow> stream option" where
  "stream_forward_endp s n = do {
     STREAM_VERIFY_SANE s;
     assert_that (ENDP_VALID s (szadd (endp s) n));
     Some (s\<lparr>endp := szadd (endp s) n\<rparr>) }"

definition stream_empty :: "stream \<Rightarrow> bool option" where
  "stream_empty s = do { STREAM_VERIFY_SANE s; Some (endp s = 0) }"

definition stream_reset :: "stream \<Rightarrow> stream option" where
  "stream_reset s = do { STREAM_VERIFY_SANE s; Some (s\<lparr>getp := 0, endp := 0\<rparr>) }"

text \<open>\<open>stream_pnt\<close> returns the read pointer; the model returns the memory behind it.\<close>

definition stream_pnt :: "stream \<Rightarrow> u8 list option" where
  "stream_pnt s = do { STREAM_VERIFY_SANE s; Some (drop (getp s) (stream_data s)) }"

subsection \<open>Reading\<close>

text \<open>
  The positional operations check \<open>pos + sizeof (\<dots>) \<le> endp\<close> on the wrapped sum, so
  a position at the top of the address range passes the check; the access outside
  the buffer that follows is the second assertion.
\<close>

definition stream_get :: "stream \<Rightarrow> nat \<Rightarrow> (u8 list \<times> stream) option" where
  "stream_get s n = do {
     STREAM_VERIFY_SANE s;
     assert_that (n \<le> STREAM_READABLE s);
     Some (span (stream_data s) (getp s) (getp s + n), s\<lparr>getp := getp s + n\<rparr>) }"

definition stream_getc :: "stream \<Rightarrow> (u8 \<times> stream) option" where
  "stream_getc s = do {
     STREAM_VERIFY_SANE s;
     assert_that (1 \<le> STREAM_READABLE s);
     Some (stream_data s ! getp s, s\<lparr>getp := getp s + 1\<rparr>) }"

definition stream_getc_from :: "stream \<Rightarrow> nat \<Rightarrow> u8 option" where
  "stream_getc_from s from = do {
     STREAM_VERIFY_SANE s;
     assert_that (GETP_VALID s (szadd from 1));
     assert_that (from + 1 \<le> length (stream_data s));
     Some (stream_data s ! from) }"

definition stream_getw :: "stream \<Rightarrow> (u16 \<times> stream) option" where
  "stream_getw s = do {
     STREAM_VERIFY_SANE s;
     assert_that (2 \<le> STREAM_READABLE s);
     Some (of_be16 (drop (getp s) (stream_data s)), s\<lparr>getp := getp s + 2\<rparr>) }"

definition stream_getw_from :: "stream \<Rightarrow> nat \<Rightarrow> u16 option" where
  "stream_getw_from s from = do {
     STREAM_VERIFY_SANE s;
     assert_that (GETP_VALID s (szadd from 2));
     assert_that (from + 2 \<le> length (stream_data s));
     Some (of_be16 (drop from (stream_data s))) }"

definition stream_getl :: "stream \<Rightarrow> (u32 \<times> stream) option" where
  "stream_getl s = do {
     STREAM_VERIFY_SANE s;
     assert_that (4 \<le> STREAM_READABLE s);
     Some (of_be32 (drop (getp s) (stream_data s)), s\<lparr>getp := getp s + 4\<rparr>) }"

definition stream_getl_from :: "stream \<Rightarrow> nat \<Rightarrow> u32 option" where
  "stream_getl_from s from = do {
     STREAM_VERIFY_SANE s;
     assert_that (GETP_VALID s (szadd from 4));
     assert_that (from + 4 \<le> length (stream_data s));
     Some (of_be32 (drop from (stream_data s))) }"

definition stream_getq :: "stream \<Rightarrow> (u64 \<times> stream) option" where
  "stream_getq s = do {
     STREAM_VERIFY_SANE s;
     assert_that (8 \<le> STREAM_READABLE s);
     Some (of_be64 (drop (getp s) (stream_data s)), s\<lparr>getp := getp s + 8\<rparr>) }"

definition stream_getq_from :: "stream \<Rightarrow> nat \<Rightarrow> u64 option" where
  "stream_getq_from s from = do {
     STREAM_VERIFY_SANE s;
     assert_that (GETP_VALID s (szadd from 8));
     assert_that (from + 8 \<le> length (stream_data s));
     Some (of_be64 (drop from (stream_data s))) }"

subsection \<open>Writing\<close>

text \<open>The common tail of the put operations: the bytes go in at \<open>endp\<close>.\<close>

definition stream_append :: "stream \<Rightarrow> u8 list \<Rightarrow> stream" where
  "stream_append s b =
     s\<lparr>stream_data := memcpy_at (stream_data s) (endp s) b, endp := endp s + length b\<rparr>"

text \<open>A source of fewer than \<open>size\<close> bytes is read out of bounds.\<close>

definition stream_put :: "stream \<Rightarrow> u8 list option \<Rightarrow> nat \<Rightarrow> stream option" where
  "stream_put s src sz = (let n = CHECK_SIZE s sz in do {
     STREAM_VERIFY_SANE s;
     assert_that (n \<le> STREAM_WRITEABLE s);
     case src of
       Some b \<Rightarrow> do { assert_that (n \<le> length b); Some (stream_append s (take n b)) }
     | None \<Rightarrow> Some (stream_append s (replicate n 0)) })"

definition stream_write :: "stream \<Rightarrow> u8 list \<Rightarrow> nat \<Rightarrow> (nat \<times> stream) option" where
  "stream_write s b sz = (let n = CHECK_SIZE s sz in do {
     STREAM_VERIFY_SANE s;
     assert_that (n \<le> STREAM_WRITEABLE s);
     assert_that (n \<le> length b);
     Some (n, stream_append s (take n b)) })"

definition stream_putc :: "stream \<Rightarrow> u8 \<Rightarrow> stream option" where
  "stream_putc s c = do {
     STREAM_VERIFY_SANE s;
     assert_that (1 \<le> STREAM_WRITEABLE s);
     Some (stream_append s [c]) }"

definition stream_putw :: "stream \<Rightarrow> u16 \<Rightarrow> stream option" where
  "stream_putw s w = do {
     STREAM_VERIFY_SANE s;
     assert_that (2 \<le> STREAM_WRITEABLE s);
     Some (stream_append s (be16 w)) }"

definition stream_putl :: "stream \<Rightarrow> u32 \<Rightarrow> stream option" where
  "stream_putl s l = do {
     STREAM_VERIFY_SANE s;
     assert_that (4 \<le> STREAM_WRITEABLE s);
     Some (stream_append s (be32 l)) }"

definition stream_putq :: "stream \<Rightarrow> u64 \<Rightarrow> stream option" where
  "stream_putq s q = do {
     STREAM_VERIFY_SANE s;
     assert_that (8 \<le> STREAM_WRITEABLE s);
     Some (stream_append s (be64 q)) }"

definition stream_putc_at :: "stream \<Rightarrow> nat \<Rightarrow> u8 \<Rightarrow> stream option" where
  "stream_putc_at s putp c = do {
     STREAM_VERIFY_SANE s;
     assert_that (GETP_VALID s (szadd putp 1));
     assert_that (putp + 1 \<le> length (stream_data s));
     Some (s\<lparr>stream_data := memcpy_at (stream_data s) putp [c]\<rparr>) }"

definition stream_putw_at :: "stream \<Rightarrow> nat \<Rightarrow> u16 \<Rightarrow> stream option" where
  "stream_putw_at s putp w = do {
     STREAM_VERIFY_SANE s;
     assert_that (GETP_VALID s (szadd putp 2));
     assert_that (putp + 2 \<le> length (stream_data s));
     Some (s\<lparr>stream_data := memcpy_at (stream_data s) putp (be16 w)\<rparr>) }"

definition stream_putl_at :: "stream \<Rightarrow> nat \<Rightarrow> u32 \<Rightarrow> stream option" where
  "stream_putl_at s putp l = do {
     STREAM_VERIFY_SANE s;
     assert_that (GETP_VALID s (szadd putp 4));
     assert_that (putp + 4 \<le> length (stream_data s));
     Some (s\<lparr>stream_data := memcpy_at (stream_data s) putp (be32 l)\<rparr>) }"

definition stream_putq_at :: "stream \<Rightarrow> nat \<Rightarrow> u64 \<Rightarrow> stream option" where
  "stream_putq_at s putp q = do {
     STREAM_VERIFY_SANE s;
     assert_that (GETP_VALID s (szadd putp 8));
     assert_that (putp + 8 \<le> length (stream_data s));
     Some (s\<lparr>stream_data := memcpy_at (stream_data s) putp (be64 q)\<rparr>) }"

subsection \<open>The contract\<close>

definition stream_ok :: "stream \<Rightarrow> bool" where
  "stream_ok s \<longleftrightarrow> getp s \<le> endp s \<and> endp s \<le> stream_size s
     \<and> length (stream_data s) = stream_size s \<and> stream_size s < szmod"

definition unread :: "stream \<Rightarrow> u8 list" where
  "unread s = span (stream_data s) (getp s) (endp s)"

definition room :: "stream \<Rightarrow> nat" where
  "room s = stream_size s - endp s"

lemma assert_that_Some [simp]: "assert_that b = Some u \<longleftrightarrow> b"
  by (simp add: assert_that_def)

lemma assert_that_bind [simp]: "assert_that b \<bind> f = (if b then f () else None)"
  by (simp add: assert_that_def)

lemma length_unread: "stream_ok s \<Longrightarrow> length (unread s) = endp s - getp s"
  by (simp add: stream_ok_def unread_def)

lemma stream_ok_readable: "stream_ok s \<Longrightarrow> STREAM_READABLE s = length (unread s)"
  by (simp add: length_unread STREAM_READABLE_def) (simp add: stream_ok_def szsub_exact)

lemma stream_ok_writeable: "stream_ok s \<Longrightarrow> STREAM_WRITEABLE s = room s"
  by (simp add: stream_ok_def STREAM_WRITEABLE_def room_def szsub_exact)

lemma stream_ok_sane: "stream_ok s \<Longrightarrow> STREAM_VERIFY_SANE s = Some ()"
  by (simp add: stream_ok_def STREAM_VERIFY_SANE_def GETP_VALID_def ENDP_VALID_def)

lemma sane_SomeD:
  "STREAM_VERIFY_SANE s = Some u \<Longrightarrow> getp s \<le> endp s \<and> endp s \<le> stream_size s"
  by (simp add: STREAM_VERIFY_SANE_def GETP_VALID_def ENDP_VALID_def)

lemmas stream_ok_simps = stream_ok_readable stream_ok_writeable stream_ok_sane

lemma unread_drop_data:
  "stream_ok s \<Longrightarrow> n \<le> length (unread s) \<Longrightarrow>
     take n (drop (getp s) (stream_data s)) = take n (unread s)"
  by (simp add: length_unread) (auto simp: stream_ok_def unread_def span_def drop_take min_def)

lemma stream_append_ok:
  assumes "stream_ok s" "length b \<le> room s"
  shows "stream_ok (stream_append s b)"
    and "unread (stream_append s b) = unread s @ b"
    and "room (stream_append s b) = room s - length b"
    and "getp (stream_append s b) = getp s"
    and "endp (stream_append s b) = endp s + length b"
  using assms
  by (auto simp: stream_ok_def stream_append_def room_def unread_def span_memcpy_at_end)

lemma stream_advance_ok:
  assumes "stream_ok s" "n \<le> length (unread s)"
  shows "stream_ok (s\<lparr>getp := getp s + n\<rparr>)"
    and "unread (s\<lparr>getp := getp s + n\<rparr>) = drop n (unread s)"
    and "room (s\<lparr>getp := getp s + n\<rparr>) = room s"
  using assms length_unread [OF assms(1)]
  by (auto simp: stream_ok_def unread_def room_def span_drop)

subsection \<open>Fields of one width\<close>

locale stream_codec =
  fixes get :: "stream \<Rightarrow> ('a \<times> stream) option"
    and put :: "stream \<Rightarrow> 'a \<Rightarrow> stream option"
    and enc :: "'a \<Rightarrow> u8 list"
    and width :: nat
  assumes enc_length: "length (enc x) = width"
    and enc_inject: "enc x = enc y \<Longrightarrow> x = y"
    and put_room: "stream_ok s \<Longrightarrow> width \<le> room s \<Longrightarrow> put s x = Some (stream_append s (enc x))"
    and put_full: "stream_ok s \<Longrightarrow> room s < width \<Longrightarrow> put s x = None"
    and get_full: "stream_ok s \<Longrightarrow> width \<le> length (unread s) \<Longrightarrow>
      \<exists>x. get s = Some (x, s\<lparr>getp := getp s + width\<rparr>) \<and> enc x = take width (unread s)"
    and get_short: "stream_ok s \<Longrightarrow> length (unread s) < width \<Longrightarrow> get s = None"
begin

lemma put_ok:
  assumes "stream_ok s" "width \<le> room s"
  shows "\<exists>s'. put s x = Some s' \<and> stream_ok s' \<and> unread s' = unread s @ enc x
           \<and> room s' = room s - width \<and> getp s' = getp s"
  using put_room [OF assms] stream_append_ok [OF assms(1), of "enc x"] assms(2)
  by (simp add: enc_length)

lemma get_ok:
  assumes "stream_ok s" "unread s = enc x @ r"
  shows "\<exists>s'. get s = Some (x, s') \<and> stream_ok s' \<and> unread s' = r \<and> room s' = room s"
proof -
  have w: "width \<le> length (unread s)" by (simp add: assms(2) enc_length)
  from get_full [OF assms(1) w] obtain y
    where y: "get s = Some (y, s\<lparr>getp := getp s + width\<rparr>)" "enc y = take width (unread s)"
    by blast
  have "enc y = enc x" using y(2) by (simp add: assms(2) enc_length)
  then have "y = x" by (rule enc_inject)
  with y(1) stream_advance_ok [OF assms(1) w] show ?thesis
    by (simp add: assms(2) enc_length)
qed

lemma read_n_full:
  "stream_ok s \<Longrightarrow> n * width \<le> length (unread s) \<Longrightarrow>
     \<exists>xs s'. read_n get n s = Some (xs, s') \<and> length xs = n
       \<and> concat (map enc xs) = take (n * width) (unread s)
       \<and> stream_ok s' \<and> unread s' = drop (n * width) (unread s) \<and> room s' = room s"
proof (induction n arbitrary: s)
  case 0
  then show ?case by simp
next
  case (Suc n)
  have w: "width \<le> length (unread s)" using Suc.prems(2) by simp
  obtain x where x: "get s = Some (x, s\<lparr>getp := getp s + width\<rparr>)" "enc x = take width (unread s)"
    using get_full [OF Suc.prems(1) w] by blast
  let ?s = "s\<lparr>getp := getp s + width\<rparr>"
  note adv = stream_advance_ok [OF Suc.prems(1) w]
  have "n * width \<le> length (unread ?s)" using Suc.prems(2) adv(2) by simp
  from Suc.IH [OF adv(1) this] obtain xs s'
    where IH: "read_n get n ?s = Some (xs, s')" "length xs = n"
      "concat (map enc xs) = take (n * width) (unread ?s)"
      "stream_ok s'" "unread s' = drop (n * width) (unread ?s)" "room s' = room ?s"
    by blast
  have "concat (map enc (x # xs)) = take (Suc n * width) (unread s)"
    using IH(3) x(2) adv(2) by (simp add: take_add)
  with IH x(1) adv show ?case by (simp add: add.commute)
qed

lemma read_n_short:
  "stream_ok s \<Longrightarrow> length (unread s) < n * width \<Longrightarrow> read_n get n s = None"
proof (induction n arbitrary: s)
  case 0
  then show ?case by simp
next
  case (Suc n)
  show ?case
  proof (cases "length (unread s) < width")
    case True
    then show ?thesis using get_short [OF Suc.prems(1)] by simp
  next
    case False
    then have w: "width \<le> length (unread s)" by simp
    obtain x where x: "get s = Some (x, s\<lparr>getp := getp s + width\<rparr>)"
      using get_full [OF Suc.prems(1) w] by blast
    note adv = stream_advance_ok [OF Suc.prems(1) w]
    have "length (unread (s\<lparr>getp := getp s + width\<rparr>)) < n * width"
      using Suc.prems(2) adv(2) w by simp
    then show ?thesis using Suc.IH [OF adv(1)] x by simp
  qed
qed

lemma read_n_enc:
  "stream_ok s \<Longrightarrow> unread s = concat (map enc xs) @ r \<Longrightarrow>
     \<exists>s'. read_n get (length xs) s = Some (xs, s') \<and> stream_ok s' \<and> unread s' = r \<and> room s' = room s"
proof (induction xs arbitrary: s)
  case Nil
  then show ?case by simp
next
  case (Cons x xs)
  from Cons.prems(2) have "unread s = enc x @ concat (map enc xs) @ r" by simp
  from get_ok [OF Cons.prems(1) this] obtain s1
    where s1: "get s = Some (x, s1)" "stream_ok s1" "unread s1 = concat (map enc xs) @ r"
      "room s1 = room s"
    by blast
  from Cons.IH [OF s1(2,3)] s1 show ?case by auto
qed

lemma write_all_ok:
  "stream_ok s \<Longrightarrow> length xs * width \<le> room s \<Longrightarrow>
     \<exists>s'. write_all put s xs = Some s' \<and> stream_ok s' \<and> unread s' = unread s @ concat (map enc xs)
       \<and> room s' = room s - length xs * width \<and> getp s' = getp s"
proof (induction xs arbitrary: s)
  case Nil
  then show ?case by simp
next
  case (Cons x xs)
  have "width \<le> room s" using Cons.prems(2) by simp
  from put_ok [OF Cons.prems(1) this, of x] obtain s1
    where s1: "put s x = Some s1" "stream_ok s1" "unread s1 = unread s @ enc x"
      "room s1 = room s - width" "getp s1 = getp s"
    by blast
  have "length xs * width \<le> room s1" using Cons.prems(2) s1(4) by simp
  from Cons.IH [OF s1(2) this] s1 show ?case by (auto simp: diff_diff_left add.commute)
qed

lemma write_read:
  assumes "stream_ok s" "unread s = []" "length xs * width \<le> room s"
  shows "\<exists>s1 s2. write_all put s xs = Some s1 \<and> read_n get (length xs) s1 = Some (xs, s2)
           \<and> stream_ok s2 \<and> unread s2 = []"
proof -
  obtain s1 where s1: "write_all put s xs = Some s1" "stream_ok s1"
      "unread s1 = concat (map enc xs) @ []"
    using write_all_ok [OF assms(1,3)] assms(2) by auto
  from read_n_enc [OF s1(2,3)] s1(1) show ?thesis by auto
qed

end

lemma unread_hd: "stream_ok s \<Longrightarrow> 1 \<le> length (unread s) \<Longrightarrow> [stream_data s ! getp s] = take 1 (unread s)"
  using length_unread [of s] span_nth [of "getp s" 0 "endp s" "stream_data s", folded unread_def]
  by (cases "unread s") (auto simp: stream_ok_def)

lemma data_ge_unread: "stream_ok s \<Longrightarrow> length (unread s) \<le> length (drop (getp s) (stream_data s))"
  by (auto simp: length_unread) (auto simp: stream_ok_def)

lemma be_of_take:
  "2 \<le> length b \<Longrightarrow> be16 (of_be16 b) = take 2 b"
  "4 \<le> length b \<Longrightarrow> be32 (of_be32 b) = take 4 b"
  "8 \<le> length b \<Longrightarrow> be64 (of_be64 b) = take 8 b"
  using be16_of_be16 [of "take 2 b"] be32_of_be32 [of "take 4 b"] be64_of_be64 [of "take 8 b"]
  by (simp_all add: of_be_take)

lemma of_be_unread:
  assumes "stream_ok s"
  shows "2 \<le> length (unread s) \<Longrightarrow> be16 (of_be16 (drop (getp s) (stream_data s))) = take 2 (unread s)"
    and "4 \<le> length (unread s) \<Longrightarrow> be32 (of_be32 (drop (getp s) (stream_data s))) = take 4 (unread s)"
    and "8 \<le> length (unread s) \<Longrightarrow> be64 (of_be64 (drop (getp s) (stream_data s))) = take 8 (unread s)"
  using data_ge_unread [OF assms] unread_drop_data [OF assms]
  by (simp_all add: be_of_take)

lemma be_inject:
  "be16 w = be16 w' \<Longrightarrow> w = w'" "be32 l = be32 l' \<Longrightarrow> l = l'" "be64 q = be64 q' \<Longrightarrow> q = q'"
  by (metis of_be16_be16, metis of_be32_be32, metis of_be64_be64)

interpretation sc: stream_codec stream_getc stream_putc "\<lambda>c. [c]" 1
  by unfold_locales
     (simp_all add: stream_getc_def stream_putc_def stream_ok_simps unread_hd [simplified])

interpretation sw: stream_codec stream_getw stream_putw be16 2
  by unfold_locales
     (simp_all add: stream_getw_def stream_putw_def stream_ok_simps of_be_unread be_inject)

interpretation sl: stream_codec stream_getl stream_putl be32 4
  by unfold_locales
     (simp_all add: stream_getl_def stream_putl_def stream_ok_simps of_be_unread be_inject)

interpretation sq: stream_codec stream_getq stream_putq be64 8
  by unfold_locales
     (simp_all add: stream_getq_def stream_putq_def stream_ok_simps of_be_unread be_inject)

subsection \<open>Every stream operation keeps the contract\<close>

text \<open>
  A client's use of a stream is a sequence of these operations, with any arguments;
  \<open>stream_exec\<close> is the stream after one of them, \<open>None\<close> when the process ends.
\<close>

datatype stream_op =
  Copy stream | Resize "nat \<Rightarrow> u8" nat | SetGetp nat | SetEndp nat | ForwardGetp nat
| ForwardEndp nat | Reset | Get nat | Getc | Getw | Getl | Getq
| Put "u8 list option" nat | Write "u8 list" nat | Putc u8 | Putw u16 | Putl u32 | Putq u64
| PutcAt nat u8 | PutwAt nat u16 | PutlAt nat u32 | PutqAt nat u64

fun stream_exec :: "stream \<Rightarrow> stream_op \<Rightarrow> stream option" where
  "stream_exec s (Copy src) = stream_copy s src"
| "stream_exec s (Resize junk n) = map_option snd (stream_resize junk s n)"
| "stream_exec s (SetGetp n) = stream_set_getp s n"
| "stream_exec s (SetEndp n) = stream_set_endp s n"
| "stream_exec s (ForwardGetp n) = stream_forward_getp s n"
| "stream_exec s (ForwardEndp n) = stream_forward_endp s n"
| "stream_exec s Reset = stream_reset s"
| "stream_exec s (Get n) = map_option snd (stream_get s n)"
| "stream_exec s Getc = map_option snd (stream_getc s)"
| "stream_exec s Getw = map_option snd (stream_getw s)"
| "stream_exec s Getl = map_option snd (stream_getl s)"
| "stream_exec s Getq = map_option snd (stream_getq s)"
| "stream_exec s (Put src n) = stream_put s src n"
| "stream_exec s (Write b n) = map_option snd (stream_write s b n)"
| "stream_exec s (Putc c) = stream_putc s c"
| "stream_exec s (Putw w) = stream_putw s w"
| "stream_exec s (Putl l) = stream_putl s l"
| "stream_exec s (Putq q) = stream_putq s q"
| "stream_exec s (PutcAt p c) = stream_putc_at s p c"
| "stream_exec s (PutwAt p w) = stream_putw_at s p w"
| "stream_exec s (PutlAt p l) = stream_putl_at s p l"
| "stream_exec s (PutqAt p q) = stream_putq_at s p q"

text \<open>
  The obligations of a client: a source is well-formed, a new size is a value of the
  C type, and \<open>endp\<close> is not moved past the top of the address range, where the sum
  that \<open>stream_forward_endp\<close> checks wraps around (see \<open>stream_forward_endp_wraps\<close>).
\<close>

fun stream_op_ok :: "stream \<Rightarrow> stream_op \<Rightarrow> bool" where
  "stream_op_ok s (Copy src) = stream_ok src"
| "stream_op_ok s (Resize junk n) = (n < szmod)"
| "stream_op_ok s (ForwardEndp n) = (endp s + n < szmod)"
| "stream_op_ok s _ = True"

inductive stream_reachable :: "stream \<Rightarrow> bool" where
  created: "stream_new junk n = Some s \<Longrightarrow> n < szmod \<Longrightarrow> stream_reachable s"
| step: "stream_reachable s \<Longrightarrow> stream_op_ok s x \<Longrightarrow> stream_exec s x = Some s' \<Longrightarrow> stream_reachable s'"

lemma map_snd_SomeD: "map_option snd r = Some s' \<Longrightarrow> \<exists>x. r = Some (x, s')"
  by auto

lemma stream_new_ok [wf_intros]: "stream_new junk n = Some s \<Longrightarrow> n < szmod \<Longrightarrow> stream_ok s"
  by (auto simp: stream_new_def stream_ok_def split: if_splits)

lemma stream_append_keeps:
  "stream_ok s \<Longrightarrow> length b \<le> STREAM_WRITEABLE s \<Longrightarrow> stream_ok (stream_append s b)"
  by (simp add: stream_ok_writeable stream_append_ok)

lemma stream_advance_keeps:
  "stream_ok s \<Longrightarrow> n \<le> STREAM_READABLE s \<Longrightarrow> stream_ok (s\<lparr>getp := getp s + n\<rparr>)"
  by (simp add: stream_ok_readable stream_advance_ok)

lemma stream_overwrite_keeps:
  "stream_ok s \<Longrightarrow> p + length b \<le> length (stream_data s) \<Longrightarrow>
     stream_ok (s\<lparr>stream_data := memcpy_at (stream_data s) p b\<rparr>)"
  by (simp add: stream_ok_def)

lemmas stream_keeps = stream_append_keeps stream_advance_keeps stream_overwrite_keeps

lemma stream_cursor_ok:
  assumes "stream_ok s"
  shows "stream_set_getp s n = Some s' \<Longrightarrow> stream_ok s'"
    and "stream_set_endp s n = Some s' \<Longrightarrow> stream_ok s'"
    and "stream_forward_getp s n = Some s' \<Longrightarrow> stream_ok s'"
    and "stream_forward_endp s n = Some s' \<Longrightarrow> endp s + n < szmod \<Longrightarrow> stream_ok s'"
    and "stream_reset s = Some s' \<Longrightarrow> stream_ok s'"
  using assms
  by (auto simp: stream_set_getp_def stream_set_endp_def stream_forward_getp_def
      stream_forward_endp_def stream_reset_def stream_ok_sane stream_ok_def GETP_VALID_def
      ENDP_VALID_def Let_def STREAM_VERIFY_SANE_def szadd_exact split: if_splits)

lemma stream_forward_endp_wraps:
  "stream_ok \<lparr>getp = 4, endp = 8, stream_size = 8, stream_data = replicate 8 0\<rparr>"
  "stream_forward_endp \<lparr>getp = 4, endp = 8, stream_size = 8, stream_data = replicate 8 0\<rparr> (2 ^ 64 - 8)
     = Some \<lparr>getp = 4, endp = 0, stream_size = 8, stream_data = replicate 8 0\<rparr>"
  by (simp_all add: stream_ok_def stream_forward_endp_def STREAM_VERIFY_SANE_def GETP_VALID_def
      ENDP_VALID_def szadd_def szmod_def)

lemma stream_copy_ok:
  "stream_ok s \<Longrightarrow> stream_ok src \<Longrightarrow> stream_copy s src = Some s' \<Longrightarrow> stream_ok s'"
  by (auto simp: stream_copy_def stream_ok_sane stream_ok_def split: if_splits)

lemma stream_resize_ok:
  "stream_ok s \<Longrightarrow> n < szmod \<Longrightarrow> stream_resize junk s n = Some (m, s') \<Longrightarrow> stream_ok s'"
  by (auto simp: stream_resize_def stream_ok_sane stream_ok_def Let_def STREAM_VERIFY_SANE_def
      split: if_splits)

lemma stream_get_ops_ok:
  assumes "stream_ok s"
  shows "stream_get s n = Some (b, s') \<Longrightarrow> stream_ok s'"
    and "stream_getc s = Some (c, s') \<Longrightarrow> stream_ok s'"
    and "stream_getw s = Some (w, s') \<Longrightarrow> stream_ok s'"
    and "stream_getl s = Some (l, s') \<Longrightarrow> stream_ok s'"
    and "stream_getq s = Some (q, s') \<Longrightarrow> stream_ok s'"
  using assms
  by (auto simp: stream_get_def stream_getc_def stream_getw_def stream_getl_def stream_getq_def
      stream_ok_sane split: if_splits)
     (auto simp: stream_ok_def STREAM_READABLE_def szsub_exact)

lemma stream_put_ops_ok:
  assumes "stream_ok s"
  shows "stream_putc s c = Some s' \<Longrightarrow> stream_ok s'"
    and "stream_putw s w = Some s' \<Longrightarrow> stream_ok s'"
    and "stream_putl s l = Some s' \<Longrightarrow> stream_ok s'"
    and "stream_putq s q = Some s' \<Longrightarrow> stream_ok s'"
    and "stream_put s src n = Some s' \<Longrightarrow> stream_ok s'"
    and "stream_write s b n = Some (m, s') \<Longrightarrow> stream_ok s'"
  using assms
  by (auto simp: stream_putc_def stream_putw_def stream_putl_def stream_putq_def stream_put_def
      stream_write_def Let_def stream_ok_sane intro!: stream_append_keeps
      split: if_splits option.splits)

lemma stream_put_at_ops_ok:
  assumes "stream_ok s"
  shows "stream_putc_at s p c = Some s' \<Longrightarrow> stream_ok s'"
    and "stream_putw_at s p w = Some s' \<Longrightarrow> stream_ok s'"
    and "stream_putl_at s p l = Some s' \<Longrightarrow> stream_ok s'"
    and "stream_putq_at s p q = Some s' \<Longrightarrow> stream_ok s'"
  using assms
  by (auto simp: stream_putc_at_def stream_putw_at_def stream_putl_at_def stream_putq_at_def
      stream_ok_sane intro!: stream_overwrite_keeps split: if_splits)

lemma stream_exec_ok [wf_intros]:
  assumes ok: "stream_ok s" and "stream_op_ok s x" "stream_exec s x = Some s'"
  shows "stream_ok s'"
  using assms(2,3)
  by (cases x)
     (auto dest!: map_snd_SomeD dest: stream_cursor_ok [OF ok] stream_get_ops_ok [OF ok]
        stream_put_ops_ok [OF ok] stream_put_at_ops_ok [OF ok]
        simp: stream_copy_ok [OF ok] stream_resize_ok [OF ok])

subsection \<open>Properties\<close>



text \<open>
  C18. A sequence of 32-bit values written with \<open>stream_putl\<close> to a stream with room
  for them and nothing unread is read back by \<open>stream_getl\<close> unchanged and in order,
  leaving nothing unread; neither loop hits an assertion.
\<close>

theorem stream_putl_getl_roundtrip:
  assumes "stream_ok s" "unread s = []" "length xs * 4 \<le> room s"
  shows "\<exists>s1 s2. write_all stream_putl s xs = Some s1
           \<and> read_n stream_getl (length xs) s1 = Some (xs, s2) \<and> stream_ok s2 \<and> unread s2 = []"
  using assms by (rule sl.write_read)

theorem stream_putl_getl_roundtrip_witness:
  "\<exists>s1 s2. write_all stream_putl
       \<lparr>getp = 0, endp = 0, stream_size = 8, stream_data = replicate 8 0\<rparr> [65001, 4200000000] = Some s1
     \<and> read_n stream_getl 2 s1 = Some ([65001, 4200000000], s2) \<and> stream_ok s2 \<and> unread s2 = []"
proof -
  let ?s = "\<lparr>getp = 0, endp = 0, stream_size = 8, stream_data = replicate 8 0\<rparr> :: stream"
  have "stream_ok ?s" "unread ?s = []" "length [65001, 4200000000 :: u32] * 4 \<le> room ?s"
    by (simp_all add: stream_ok_def unread_def room_def szmod_def)
  from stream_putl_getl_roundtrip [OF this] show ?thesis
    by (simp add: numeral_2_eq_2 del: write_all.simps read_n.simps)
qed

end
