(* ===== verification/Aspath.thy ===== *)
theory Aspath
  imports Byte_Stream
begin

text \<open>
  \<open>bgpd/bgp_aspath.c\<close>: the AS path attribute. An \<open>assegment\<close> chain is the list of
  its segments; the AS numbers of a segment are the first \<open>length\<close> entries of its
  array. That field is an unsigned short: where the code adds to it, it wraps, and
  the segment shows only that many of the entries it holds (\<open>shown\<close>). The counters of
  the loops are \<open>int\<close>s, which a path of fewer than \<open>2 ^ 31\<close> AS numbers cannot
  overflow; they are natural numbers or integers. A \<open>struct aspath\<close> is the record \<open>aspath\<close> with its reference count, its segments, and
  its string form, which is \<open>None\<close> for the null pointer that
  \<open>aspath_make_str_count\<close> leaves when a segment has an unknown type.

  An operation is \<open>None\<close> where the C code fails an assertion, dereferences a
  null or freed pointer or writes outside an array; a test that returns an \<open>int\<close> used as a truth value is a
  \<open>bool\<close>. Pointers that the code compares with \<open>NULL\<close> are \<open>option\<close>s.
\<close>

subsection \<open>Data\<close>

abbreviation (input) AS_SET :: u8 where "AS_SET \<equiv> 1"
abbreviation (input) AS_SEQUENCE :: u8 where "AS_SEQUENCE \<equiv> 2"
abbreviation (input) AS_CONFED_SEQUENCE :: u8 where "AS_CONFED_SEQUENCE \<equiv> 3"
abbreviation (input) AS_CONFED_SET :: u8 where "AS_CONFED_SET \<equiv> 4"

abbreviation (input) AS_SEGMENT_MAX :: nat where "AS_SEGMENT_MAX \<equiv> 255"
abbreviation (input) BGP_PRIVATE_AS_MIN :: as_t where "BGP_PRIVATE_AS_MIN \<equiv> 64512"
abbreviation (input) BGP_PRIVATE_AS_MAX :: as_t where "BGP_PRIVATE_AS_MAX \<equiv> 65535"
abbreviation (input) BGP_AS_MAX :: as_t where "BGP_AS_MAX \<equiv> 65535"
abbreviation (input) BGP_AS_TRANS :: u16 where "BGP_AS_TRANS \<equiv> 23456"

record assegment =
  seg_type :: u8
  seg_as :: "as_t list"

text \<open>What a segment shows of an array, given to it with a \<open>u_short\<close> length.\<close>

definition shown :: "as_t list \<Rightarrow> as_t list" where
  "shown a = take (length a mod 65536) a"

abbreviation seg_length :: "assegment \<Rightarrow> nat" where
  "seg_length seg \<equiv> length (seg_as seg)"

record aspath =
  as_refcnt :: nat
  as_segments :: "assegment list"
  as_str :: "string option"

definition AS_VALUE_SIZE :: nat where "AS_VALUE_SIZE = 4"
definition AS16_VALUE_SIZE :: nat where "AS16_VALUE_SIZE = 2"
definition AS_HEADER_SIZE :: nat where "AS_HEADER_SIZE = 2"

definition ASSEGMENT_DATA_SIZE :: "nat \<Rightarrow> bool \<Rightarrow> nat" where
  "ASSEGMENT_DATA_SIZE n use32 = n * (if use32 then AS_VALUE_SIZE else AS16_VALUE_SIZE)"

definition ASSEGMENT_SIZE :: "nat \<Rightarrow> bool \<Rightarrow> nat" where
  "ASSEGMENT_SIZE n use32 = AS_HEADER_SIZE + ASSEGMENT_DATA_SIZE n use32"

definition ASSEGMENT_TYPES_PACKABLE :: "assegment \<Rightarrow> assegment \<Rightarrow> bool" where
  "ASSEGMENT_TYPES_PACKABLE x y \<longleftrightarrow> seg_type x = seg_type y \<and> seg_type x = AS_SEQUENCE"

definition ASSEGMENTS_PACKABLE :: "assegment \<Rightarrow> assegment \<Rightarrow> bool" where
  "ASSEGMENTS_PACKABLE x y \<longleftrightarrow>
     ASSEGMENT_TYPES_PACKABLE x y \<and> seg_length x + seg_length y \<le> AS_SEGMENT_MAX"

subsection \<open>Segments\<close>

definition assegment_dup :: "assegment \<Rightarrow> assegment" where
  "assegment_dup seg = \<lparr>seg_type = seg_type seg, seg_as = take (seg_length seg) (seg_as seg)\<rparr>"

fun assegment_dup_all :: "assegment list \<Rightarrow> assegment list" where
  "assegment_dup_all [] = []"
| "assegment_dup_all (seg # segs) = assegment_dup seg # assegment_dup_all segs"

text \<open>
  A negative number of AS numbers to prepend makes the copy of the old ones start before
  the new array, or asks for more memory than there is.
\<close>

definition assegment_prepend_asns :: "assegment \<Rightarrow> as_t \<Rightarrow> int \<Rightarrow> assegment option" where
  "assegment_prepend_asns seg asnum num =
     (if num = 0 then Some seg
      else if num \<ge> int AS_SEGMENT_MAX then Some seg
      else if num < 0 then None
      else Some (seg\<lparr>seg_as := shown (replicate (nat num) asnum @ seg_as seg)\<rparr>))"

definition assegment_append_asns :: "assegment \<Rightarrow> as_t list \<Rightarrow> nat \<Rightarrow> assegment" where
  "assegment_append_asns seg asnos num = seg\<lparr>seg_as := shown (seg_as seg @ take num asnos)\<rparr>"

text \<open>
  The loop that weeds out duplicates, in place: \<open>tail\<close> is the index of the last value
  kept, \<open>i\<close> the index of the value looked at.
\<close>

function weed_dupes :: "as_t list \<Rightarrow> nat \<Rightarrow> nat \<Rightarrow> as_t list \<times> nat" where
  "weed_dupes a tail i =
     (if i < length a then
        (if a ! tail = a ! i then weed_dupes a tail (i + 1)
         else weed_dupes (if tail + 1 < i then a[tail + 1 := a ! i] else a) (tail + 1) (i + 1))
      else (a, tail))"
  by pat_completeness auto
termination
  by (relation "measure (\<lambda>(a, tail, i). length a - i)") auto

declare weed_dupes.simps [simp del]

text \<open>\<open>qsort\<close> with \<open>int_cmp\<close>, and the loop above; a set segment may be empty.\<close>

definition assegment_normalise_set :: "assegment \<Rightarrow> assegment" where
  "assegment_normalise_set seg =
     (if seg_type seg = AS_SET \<or> seg_type seg = AS_CONFED_SET
      then (let a = sort (seg_as seg); (a', tail) = weed_dupes a 0 1
            in seg\<lparr>seg_as := (if a \<noteq> [] then take (tail + 1) a' else a')\<rparr>)
      else seg)"

fun assegment_absorb :: "assegment \<Rightarrow> assegment list \<Rightarrow> assegment \<times> assegment list" where
  "assegment_absorb pin [] = (pin, [])"
| "assegment_absorb pin (seg # segs) =
     (if ASSEGMENT_TYPES_PACKABLE pin seg
      then assegment_absorb (assegment_append_asns pin (seg_as seg) (seg_length seg)) segs
      else (pin, seg # segs))"

lemma assegment_absorb_length: "length (snd (assegment_absorb pin segs)) \<le> length segs"
  by (induction pin segs rule: assegment_absorb.induct) auto

function assegment_normalise :: "assegment list \<Rightarrow> assegment list" where
  "assegment_normalise [] = []"
| "assegment_normalise (seg # segs) =
     (let (pin, rest) = assegment_absorb (assegment_normalise_set seg) segs
      in pin # assegment_normalise rest)"
  by pat_completeness auto
termination
  by (relation "measure length")
     (auto simp: less_Suc_eq_le intro: order_trans [OF _ assegment_absorb_length] split: prod.splits,
      metis assegment_absorb_length snd_conv)

definition assegment_count_asns :: "assegment list \<Rightarrow> nat \<Rightarrow> int" where
  "assegment_count_asns segs from =
     (case segs of [] \<Rightarrow> 0
      | seg # rest \<Rightarrow> (int (seg_length seg) - int from) + (\<Sum>s\<leftarrow>rest. int (seg_length s)))"

fun count_confeds_from :: "assegment list \<Rightarrow> nat \<Rightarrow> nat" where
  "count_confeds_from [] n = n"
| "count_confeds_from (seg # segs) n =
     count_confeds_from segs
       (if seg_type seg = AS_CONFED_SEQUENCE then n + seg_length seg
        else if seg_type seg = AS_CONFED_SET then n + 1 else n)"

definition aspath_count_confeds :: "aspath \<Rightarrow> nat" where
  "aspath_count_confeds asp = count_confeds_from (as_segments asp) 0"

fun count_hops_from :: "assegment list \<Rightarrow> nat \<Rightarrow> nat" where
  "count_hops_from [] n = n"
| "count_hops_from (seg # segs) n =
     count_hops_from segs
       (if seg_type seg = AS_SEQUENCE then n + seg_length seg
        else if seg_type seg = AS_SET then n + 1 else n)"

definition aspath_count_hops :: "aspath \<Rightarrow> nat" where
  "aspath_count_hops asp = count_hops_from (as_segments asp) 0"

definition aspath_size :: "aspath \<Rightarrow> nat" where
  "aspath_size asp = fold (\<lambda>seg n. n + ASSEGMENT_SIZE (seg_length seg) True) (as_segments asp) 0"

definition aspath_highest :: "aspath \<Rightarrow> as_t" where
  "aspath_highest asp =
     fold (\<lambda>seg. fold (\<lambda>a highest.
         if highest < a \<and> (a < BGP_PRIVATE_AS_MIN \<or> BGP_PRIVATE_AS_MAX < a) then a else highest)
       (seg_as seg)) (as_segments asp) 0"

definition aspath_leftmost :: "aspath \<Rightarrow> as_t" where
  "aspath_leftmost asp =
     (case as_segments asp of
        seg # _ \<Rightarrow> (if seg_as seg \<noteq> [] \<and> seg_type seg = AS_SEQUENCE then hd (seg_as seg) else 0)
      | [] \<Rightarrow> 0)"

definition aspath_has_as4 :: "aspath \<Rightarrow> bool" where
  "aspath_has_as4 asp \<longleftrightarrow>
     list_ex (\<lambda>seg. list_ex (\<lambda>a. BGP_AS_MAX < a) (seg_as seg)) (as_segments asp)"

subsection \<open>The string form\<close>

text \<open>
  \<open>snprintf (str_buf + len, str_size - len, \<dots>)\<close>: appends a piece to the text already
  in the buffer. A piece that does not fit with its terminating zero would be cut
  off, and the length kept in \<open>len\<close> would no longer be that of the text; the model
  makes it a failure.
\<close>

definition emit :: "nat \<Rightarrow> string \<Rightarrow> string \<Rightarrow> string option" where
  "emit str_size piece buf =
     (if length buf + length piece < str_size then Some (buf @ piece) else None)"

definition aspath_delimiter_char :: "u8 \<Rightarrow> bool \<Rightarrow> char" where
  "aspath_delimiter_char ty at_end =
     (if ty = AS_SET then (if at_end then CHR ''}'' else CHR ''{'')
      else if ty = AS_CONFED_SET then (if at_end then CHR '']'' else CHR ''['')
      else if ty = AS_CONFED_SEQUENCE then (if at_end then CHR '')'' else CHR ''('')
      else CHR '' '')"

fun emit_asns :: "nat \<Rightarrow> char \<Rightarrow> as_t list \<Rightarrow> string \<Rightarrow> string option" where
  "emit_asns str_size sep [] buf = Some buf"
| "emit_asns str_size sep [a] buf = emit str_size (dec_string (unat a)) buf"
| "emit_asns str_size sep (a # as) buf = do {
     buf \<leftarrow> emit str_size (dec_string (unat a)) buf;
     buf \<leftarrow> emit str_size [sep] buf;
     emit_asns str_size sep as buf }"

definition seg_separator :: "u8 \<Rightarrow> char option" where
  "seg_separator ty =
     (if ty = AS_SET \<or> ty = AS_CONFED_SET then Some CHR '',''
      else if ty = AS_SEQUENCE \<or> ty = AS_CONFED_SEQUENCE then Some CHR '' ''
      else None)"

definition ASN_STR_LEN :: nat where "ASN_STR_LEN = 10 + 1"

definition SEGMENT_STR_LEN :: "assegment \<Rightarrow> nat" where
  "SEGMENT_STR_LEN seg = seg_length seg * ASN_STR_LEN + 2 + 1 + 1"

text \<open>The outer \<open>None\<close> is a failure of the buffer, the inner one an unknown type.\<close>

fun make_str_loop :: "assegment list \<Rightarrow> nat \<Rightarrow> string \<Rightarrow> (nat \<times> string) option option" where
  "make_str_loop [] str_size buf = Some (Some (str_size, buf))"
| "make_str_loop (seg # segs) str_size buf =
     (case seg_separator (seg_type seg) of
        None \<Rightarrow> Some None
      | Some sep \<Rightarrow> do {
          let str_size = (if str_size < length buf + SEGMENT_STR_LEN seg
                          then length buf + SEGMENT_STR_LEN seg else str_size);
          buf \<leftarrow> (if seg_type seg \<noteq> AS_SEQUENCE
                 then emit str_size [aspath_delimiter_char (seg_type seg) False] buf else Some buf);
          buf \<leftarrow> emit_asns str_size sep (seg_as seg) buf;
          buf \<leftarrow> (if seg_type seg \<noteq> AS_SEQUENCE
                 then emit str_size [aspath_delimiter_char (seg_type seg) True] buf else Some buf);
          buf \<leftarrow> (if segs \<noteq> [] then emit str_size '' '' buf else Some buf);
          make_str_loop segs str_size buf })"

definition ASPATH_STR_DEFAULT_LEN :: nat where "ASPATH_STR_DEFAULT_LEN = 32"

definition aspath_make_str_count :: "aspath \<Rightarrow> aspath option" where
  "aspath_make_str_count asp =
     (if as_segments asp = [] then Some (asp\<lparr>as_str := Some ''''\<rparr>)
      else do {
        let str_size = max (nat (assegment_count_asns (as_segments asp) 0) * ASN_STR_LEN + 2 + 1)
                           ASPATH_STR_DEFAULT_LEN;
        r \<leftarrow> make_str_loop (as_segments asp) str_size '''';
        case r of
          None \<Rightarrow> Some (asp\<lparr>as_str := None\<rparr>)
        | Some (sz, buf) \<Rightarrow> do {
            assert_that (length buf < sz);
            Some (asp\<lparr>as_str := Some buf\<rparr>) } })"

definition aspath_str_update :: "aspath \<Rightarrow> aspath option" where
  "aspath_str_update asp = aspath_make_str_count (asp\<lparr>as_str := None\<rparr>)"

definition aspath_new :: aspath where
  "aspath_new = \<lparr>as_refcnt = 0, as_segments = [], as_str = None\<rparr>"

text \<open>
  \<open>str_len\<close> and the size \<open>buflen\<close> of the copy are unsigned shorts. The copy of a string of
  65535 characters or more, other than a multiple of 65536, has no terminating zero:
  the model keeps the characters that it holds.
\<close>

definition aspath_dup :: "aspath \<Rightarrow> aspath" where
  "aspath_dup asp =
     \<lparr>as_refcnt = 0,
      as_segments = (if as_segments asp \<noteq> [] then assegment_dup_all (as_segments asp) else []),
      as_str = (case as_str asp of None \<Rightarrow> None
        | Some str \<Rightarrow>
            let str_len = length str mod 65536; buflen = (str_len + 1) mod 65536
            in Some (if 0 < str_len then take buflen str else []))\<rparr>"

definition aspath_empty_get :: "aspath option" where
  "aspath_empty_get = aspath_make_str_count aspath_new"

subsection \<open>Tests on paths\<close>

definition aspath_firstas_check :: "aspath option \<Rightarrow> as_t \<Rightarrow> bool option" where
  "aspath_firstas_check asp asno =
     (case asp of None \<Rightarrow> Some False
      | Some p \<Rightarrow> (case as_segments p of [] \<Rightarrow> Some False
         | seg # _ \<Rightarrow> (if seg_type seg = AS_SEQUENCE
                      then (if seg_as seg = [] then None else Some (hd (seg_as seg) = asno))
                      else Some False)))"

definition aspath_loop_check :: "aspath option \<Rightarrow> as_t \<Rightarrow> nat" where
  "aspath_loop_check asp asno =
     (case asp of None \<Rightarrow> 0
      | Some p \<Rightarrow> fold (\<lambda>seg. fold (\<lambda>a n. if a = asno then n + 1 else n) (seg_as seg))
                      (as_segments p) 0)"

definition aspath_private_as_check :: "aspath option \<Rightarrow> bool" where
  "aspath_private_as_check asp =
     (case asp of None \<Rightarrow> False
      | Some p \<Rightarrow> as_segments p \<noteq> [] \<and>
          list_all (\<lambda>seg. list_all (\<lambda>a. \<not> (a < BGP_PRIVATE_AS_MIN \<or> BGP_PRIVATE_AS_MAX < a))
                      (seg_as seg)) (as_segments p))"

definition aspath_confed_check :: "aspath option \<Rightarrow> bool" where
  "aspath_confed_check asp =
     (case asp of None \<Rightarrow> False
      | Some p \<Rightarrow> list_ex (\<lambda>seg. seg_type seg = AS_CONFED_SET \<or> seg_type seg = AS_CONFED_SEQUENCE)
                     (as_segments p))"

definition aspath_left_confed_check :: "aspath option \<Rightarrow> bool" where
  "aspath_left_confed_check asp =
     (case asp of None \<Rightarrow> False
      | Some p \<Rightarrow> (case as_segments p of [] \<Rightarrow> False
         | seg # _ \<Rightarrow> seg_type seg = AS_CONFED_SEQUENCE \<or> seg_type seg = AS_CONFED_SET))"

definition is_confed_segment :: "assegment \<Rightarrow> bool" where
  "is_confed_segment seg \<longleftrightarrow> seg_type seg = AS_CONFED_SEQUENCE \<or> seg_type seg = AS_CONFED_SET"

text \<open>\<open>seg1->as[0] == seg2->as[0]\<close>; an empty segment has no \<open>as\<close> array.\<close>

definition same_first_as :: "assegment \<Rightarrow> assegment \<Rightarrow> bool option" where
  "same_first_as seg1 seg2 =
     (if seg_as seg1 = [] \<or> seg_as seg2 = [] then None
      else Some (hd (seg_as seg1) = hd (seg_as seg2)))"

definition aspath_cmp_left :: "aspath option \<Rightarrow> aspath option \<Rightarrow> bool option" where
  "aspath_cmp_left aspath1 aspath2 =
     (case (aspath1, aspath2) of
        (Some p1, Some p2) \<Rightarrow>
          (case (dropWhile is_confed_segment (as_segments p1),
                 dropWhile is_confed_segment (as_segments p2)) of
             (seg1 # _, seg2 # _) \<Rightarrow>
               (if seg_type seg1 = AS_SEQUENCE \<and> seg_type seg2 = AS_SEQUENCE
                then same_first_as seg1 seg2 else Some False)
           | _ \<Rightarrow> Some False)
      | _ \<Rightarrow> Some False)"

definition aspath_cmp_left_confed :: "aspath option \<Rightarrow> aspath option \<Rightarrow> bool option" where
  "aspath_cmp_left_confed aspath1 aspath2 =
     (case (aspath1, aspath2) of
        (Some p1, Some p2) \<Rightarrow>
          (case (as_segments p1, as_segments p2) of
             (seg1 # _, seg2 # _) \<Rightarrow>
               (if seg_type seg1 \<noteq> AS_CONFED_SEQUENCE \<or> seg_type seg2 \<noteq> AS_CONFED_SEQUENCE
                then Some False else same_first_as seg1 seg2)
           | _ \<Rightarrow> Some False)
      | _ \<Rightarrow> Some False)"

fun segments_cmp :: "assegment list \<Rightarrow> assegment list \<Rightarrow> bool" where
  "segments_cmp [] [] = True"
| "segments_cmp (seg1 # segs1) (seg2 # segs2) =
     (if seg_type seg1 \<noteq> seg_type seg2 then False
      else if seg_length seg1 \<noteq> seg_length seg2 then False
      else if list_ex (\<lambda>i. seg_as seg1 ! i \<noteq> seg_as seg2 ! i) [0..<seg_length seg1] then False
      else segments_cmp segs1 segs2)"
| "segments_cmp _ _ = False"

definition aspath_cmp :: "aspath \<Rightarrow> aspath \<Rightarrow> bool" where
  "aspath_cmp arg1 arg2 = segments_cmp (as_segments arg1) (as_segments arg2)"

subsection \<open>Edits\<close>

definition aspath_delete_confed_seq :: "aspath option \<Rightarrow> aspath option option" where
  "aspath_delete_confed_seq asp =
     (case asp of None \<Rightarrow> Some None
      | Some p \<Rightarrow> (case as_segments p of [] \<Rightarrow> Some asp
         | seg # _ \<Rightarrow>
             (if seg_type seg \<noteq> AS_CONFED_SEQUENCE then Some asp
              else map_option Some (aspath_str_update
                     (p\<lparr>as_segments := dropWhile is_confed_segment (as_segments p)\<rparr>)))))"

definition aspath_merge :: "aspath option \<Rightarrow> aspath option \<Rightarrow> aspath option option" where
  "aspath_merge as1 as2 =
     (case (as1, as2) of
        (Some p1, Some p2) \<Rightarrow> do {
          let new = assegment_dup_all (as_segments p1);
          assert_that (new \<noteq> []);
          p \<leftarrow> aspath_str_update (p2\<lparr>as_segments := new @ as_segments p2\<rparr>);
          Some (Some p) }
      | _ \<Rightarrow> Some None)"

text \<open>
  \<open>aspath_prepend\<close> keeps \<open>seg2\<close>, the head of \<open>as2\<close>, across the call that deletes the
  leading confederation segments of \<open>as2\<close>; the next statement then reads the type of
  a segment that the call has freed.
\<close>

definition aspath_prepend :: "aspath option \<Rightarrow> aspath option \<Rightarrow> aspath option option" where
  "aspath_prepend as1 as2 =
     (case (as1, as2) of
        (Some p1, Some p2) \<Rightarrow>
          (case as_segments p2 of
             [] \<Rightarrow> map_option Some
                    (aspath_str_update (p2\<lparr>as_segments := assegment_dup_all (as_segments p1)\<rparr>))
           | seg2 # rest2 \<Rightarrow>
               (if as_segments p1 = [] then Some (Some p2)
                else let seg1 = last (as_segments p1) in
                  if seg_type seg1 = AS_SEQUENCE \<and> seg_type seg2 = AS_CONFED_SEQUENCE then None
                  else if seg_type seg1 \<noteq> seg_type seg2 then aspath_merge as1 as2
                  else if seg_type seg1 = AS_SEQUENCE then do {
                    let new = assegment_dup_all (as_segments p1);
                    let tail = assegment_append_asns (last new) (seg_as seg2) (seg_length seg2);
                    p \<leftarrow> aspath_str_update (p2\<lparr>as_segments := butlast new @ tail # rest2\<rparr>);
                    Some (Some p) }
                  else aspath_merge as1 as2))
      | _ \<Rightarrow> Some None)"

definition aspath_excluded :: "aspath \<Rightarrow> as_t \<Rightarrow> bool" where
  "aspath_excluded exclude_list a \<longleftrightarrow>
     list_ex (\<lambda>exclseg. list_ex (\<lambda>x. a = x) (seg_as exclseg)) (as_segments exclude_list)"

fun filter_exclude_loop :: "aspath \<Rightarrow> assegment list \<Rightarrow> assegment list" where
  "filter_exclude_loop exclude_list [] = []"
| "filter_exclude_loop exclude_list (srcseg # srcsegs) =
     (let kept = filter (\<lambda>a. \<not> aspath_excluded exclude_list a) (seg_as srcseg)
      in if length kept = 0 then filter_exclude_loop exclude_list srcsegs
         else \<lparr>seg_type = seg_type srcseg, seg_as = kept\<rparr>
              # filter_exclude_loop exclude_list srcsegs)"

definition aspath_filter_exclude :: "aspath \<Rightarrow> aspath \<Rightarrow> aspath option" where
  "aspath_filter_exclude source exclude_list =
     aspath_str_update
       (aspath_new\<lparr>as_segments := filter_exclude_loop exclude_list (as_segments source)\<rparr>)"

text \<open>
  The count of AS numbers is unsigned; it becomes an \<open>int\<close> for a segment that is extended
  and an unsigned short for the array of a new one, in which all of them are written.
\<close>

definition aspath_add_asns :: "aspath \<Rightarrow> as_t \<Rightarrow> u8 \<Rightarrow> u32 \<Rightarrow> aspath option" where
  "aspath_add_asns asp asno ty num = do {
     segs \<leftarrow>
       (case as_segments asp of
          seg # rest \<Rightarrow>
            (if seg_type seg = ty then do {
               seg \<leftarrow> assegment_prepend_asns seg asno (sint num);
               Some (seg # rest) }
             else do {
               assert_that (unat num < 65536);
               let new = \<lparr>seg_type = ty, seg_as = replicate (unat num) asno\<rparr>;
               Some (if seg_length seg = 0 then new # rest else new # seg # rest) })
        | [] \<Rightarrow> do {
            assert_that (unat num < 65536);
            Some [\<lparr>seg_type = ty, seg_as = replicate (unat num) asno\<rparr>] });
     aspath_str_update (asp\<lparr>as_segments := segs\<rparr>) }"

definition aspath_add_seq_n :: "aspath \<Rightarrow> as_t \<Rightarrow> u32 \<Rightarrow> aspath option" where
  "aspath_add_seq_n asp asno num = aspath_add_asns asp asno AS_SEQUENCE num"

definition aspath_add_seq :: "aspath \<Rightarrow> as_t \<Rightarrow> aspath option" where
  "aspath_add_seq asp asno = aspath_add_asns asp asno AS_SEQUENCE 1"

definition aspath_add_confed_seq :: "aspath \<Rightarrow> as_t \<Rightarrow> aspath option" where
  "aspath_add_confed_seq asp asno = aspath_add_asns asp asno AS_CONFED_SEQUENCE 1"

definition aspath_as_add :: "aspath \<Rightarrow> as_t \<Rightarrow> aspath" where
  "aspath_as_add asp asno =
     (if as_segments asp = [] then asp
      else asp\<lparr>as_segments := butlast (as_segments asp)
                 @ [assegment_append_asns (last (as_segments asp)) [asno] 1]\<rparr>)"

definition aspath_segment_add :: "aspath \<Rightarrow> u8 \<Rightarrow> aspath" where
  "aspath_segment_add asp ty =
     asp\<lparr>as_segments := as_segments asp @ [\<lparr>seg_type = ty, seg_as = []\<rparr>]\<rparr>"

subsection \<open>Aggregation\<close>

fun match_len :: "as_t list \<Rightarrow> as_t list \<Rightarrow> nat" where
  "match_len (a # as) (b # bs) = (if a \<noteq> b then 0 else Suc (match_len as bs))"
| "match_len _ _ = 0"

text \<open>
  The search for the common leading part: what it has collected, the number of
  matching AS numbers in the last pair of segments it compared, and where it stopped.
\<close>

fun agg_common :: "assegment list \<Rightarrow> assegment list \<Rightarrow> nat \<Rightarrow> assegment list
    \<Rightarrow> assegment list \<times> nat \<times> assegment list \<times> assegment list" where
  "agg_common (seg1 # segs1) (seg2 # segs2) match acc =
     (if seg_type seg1 \<noteq> seg_type seg2 then (acc, match, seg1 # segs1, seg2 # segs2)
      else
        let minlen = min (seg_length seg1) (seg_length seg2);
            match = match_len (seg_as seg1) (seg_as seg2);
            acc = (if match \<noteq> 0
                   then acc @ [assegment_append_asns \<lparr>seg_type = seg_type seg1, seg_as = []\<rparr>
                                 (seg_as seg1) match]
                   else acc)
        in if match \<noteq> minlen \<or> match \<noteq> seg_length seg1 \<or> seg_length seg1 \<noteq> seg_length seg2
           then (acc, match, seg1 # segs1, seg2 # segs2)
           else agg_common segs1 segs2 match acc)"
| "agg_common segs1 segs2 match acc = (acc, match, segs1, segs2)"

text \<open>
  The as-set under construction is the last segment of the chain, once it exists. When
  its length wraps to 0 the new member is written in front of the array.
\<close>

definition aspath_aggregate_as_set_add :: "as_t list option \<Rightarrow> as_t \<Rightarrow> as_t list option option" where
  "aspath_aggregate_as_set_add asset a =
     (case asset of None \<Rightarrow> Some (Some [a])
      | Some xs \<Rightarrow>
          (if list_ex (\<lambda>x. x = a) xs then Some (Some xs)
           else do {
             assert_that ((length xs + 1) mod 65536 \<noteq> 0);
             Some (Some (xs @ [a])) }))"

fun as_set_add_all :: "as_t list \<Rightarrow> as_t list option \<Rightarrow> as_t list option option" where
  "as_set_add_all [] asset = Some asset"
| "as_set_add_all (a # as) asset = do {
     asset \<leftarrow> aspath_aggregate_as_set_add asset a;
     as_set_add_all as asset }"

fun as_set_add_segs :: "assegment list \<Rightarrow> as_t list option \<Rightarrow> as_t list option option" where
  "as_set_add_segs [] asset = Some asset"
| "as_set_add_segs (seg # segs) asset = do {
     asset \<leftarrow> as_set_add_all (seg_as seg) asset;
     as_set_add_segs segs asset }"

definition agg_rest :: "nat \<Rightarrow> assegment list \<Rightarrow> as_t list option \<Rightarrow> as_t list option option" where
  "agg_rest from segs asset =
     (case segs of [] \<Rightarrow> Some asset
      | seg # rest \<Rightarrow> do {
          asset \<leftarrow> as_set_add_all (drop from (seg_as seg)) asset;
          as_set_add_segs rest asset })"

definition aspath_aggregate :: "aspath \<Rightarrow> aspath \<Rightarrow> aspath option" where
  "aspath_aggregate as1 as2 =
     (let (acc, match, segs1, segs2) = agg_common (as_segments as1) (as_segments as2) 0 [] in do {
        asset \<leftarrow> agg_rest match segs1 None;
        asset \<leftarrow> agg_rest match segs2 asset;
        let segs = acc @ (case asset of None \<Rightarrow> [] | Some xs \<Rightarrow> [\<lparr>seg_type = AS_SET, seg_as = xs\<rparr>]);
        aspath_str_update (aspath_new\<lparr>as_segments := assegment_normalise segs\<rparr>) })"

subsection \<open>Reconciliation of two-byte and four-byte paths\<close>

fun reconcile_loop :: "assegment list \<Rightarrow> int \<Rightarrow> int \<Rightarrow> assegment list \<Rightarrow> assegment list option" where
  "reconcile_loop [] hops cpasns acc = Some acc"
| "reconcile_loop (seg # segs) hops cpasns acc =
     (if hops > 0 then
        (let len = int (seg_length seg);
             (hops', cpasns') =
               (if seg_type seg = AS_SET \<or> seg_type seg = AS_CONFED_SET then (hops - 1, len)
                else if seg_type seg = AS_CONFED_SEQUENCE \<or> seg_type seg = AS_SEQUENCE then
                  (let h = (if seg_type seg = AS_CONFED_SEQUENCE \<and> hops < len then len else hops)
                   in (h - len, min len h))
                else (hops, cpasns))
         in do {
           assert_that (cpasns' \<le> len);
           reconcile_loop segs hops' cpasns'
             (acc @ [assegment_append_asns \<lparr>seg_type = seg_type seg, seg_as = []\<rparr>
                       (seg_as seg) (nat cpasns')]) })
      else Some acc)"

definition aspath_reconcile_as4 :: "aspath option \<Rightarrow> aspath \<Rightarrow> aspath option option" where
  "aspath_reconcile_as4 asp as4path =
     (case asp of None \<Rightarrow> Some None
      | Some p \<Rightarrow>
          (let hops0 = int (aspath_count_hops p) + int (aspath_count_confeds p)
                       - int (aspath_count_hops as4path);
               hops = (if hops0 < 0 then int (aspath_count_hops p) else hops0)
           in if hops = 0 then Some (Some (aspath_dup as4path))
              else do {
                acc \<leftarrow> reconcile_loop (as_segments p) hops 0 [];
                let newpath = (if as_segments p = [] then None
                               else Some (aspath_new\<lparr>as_segments := acc\<rparr>));
                merged \<leftarrow> aspath_merge newpath (Some (aspath_dup as4path));
                case merged of None \<Rightarrow> None
                | Some m \<Rightarrow> do {
                    r \<leftarrow> aspath_str_update (m\<lparr>as_segments := assegment_normalise (as_segments m)\<rparr>);
                    Some (Some r) } }))"

subsection \<open>Normalisation\<close>

lemma weed_dupes_take:
  "tail < i \<Longrightarrow> i \<le> length a \<Longrightarrow> weed_dupes a tail i = (a', t) \<Longrightarrow>
     take (t + 1) a' = take tail a @ remdups_adj (a ! tail # drop i a)"
proof (induction a tail i rule: weed_dupes.induct)
  case (1 a tail i)
  show ?case
  proof (cases "i < length a")
    case False
    with "1.prems" show ?thesis
      by (subst (asm) weed_dupes.simps) (simp add: take_Suc_conv_app_nth)
  next
    case True
    then have d: "drop i a = a ! i # drop (i + 1) a" by (simp add: Cons_nth_drop_Suc)
    show ?thesis
    proof (cases "a ! tail = a ! i")
      case eq: True
      have "weed_dupes a tail (i + 1) = (a', t)"
        using "1.prems"(3) True eq by (subst (asm) weed_dupes.simps) simp
      from "1.IH"(1) [OF True eq _ _ this] "1.prems"(1) True eq d show ?thesis by simp
    next
      case neq: False
      let ?b = "if tail + 1 < i then a[tail + 1 := a ! i] else a"
      have w: "weed_dupes ?b (tail + 1) (i + 1) = (a', t)"
        using "1.prems"(3) True neq by (subst (asm) weed_dupes.simps) simp
      have b: "length ?b = length a" "?b ! (tail + 1) = a ! i" "drop (i + 1) ?b = drop (i + 1) a"
        "take (tail + 1) ?b = take tail a @ [a ! tail]"
        using "1.prems"(1) True
        by (auto simp: take_Suc_conv_app_nth dest: le_less_Suc_eq [OF Suc_leI])
      from "1.IH"(2) [OF True neq _ _ w] b "1.prems"(1) True
      have "take (t + 1) a' = (take tail a @ [a ! tail]) @ remdups_adj (a ! i # drop (i + 1) a)"
        by simp
      then show ?thesis using neq d by simp
    qed
  qed
qed

lemma distinct_remdups_adj_sorted: "sorted xs \<Longrightarrow> distinct (remdups_adj xs)"
  by (induction xs rule: remdups_adj.induct) auto

lemma remdups_adj_sort: "remdups_adj (sort xs) = sorted_list_of_set (set (xs :: 'a::linorder list))"
  by (rule sorted_distinct_set_unique) (auto simp: sorted_remdups_adj distinct_remdups_adj_sorted)

text \<open>A normalised set segment lists its AS numbers once each, in increasing order.\<close>

lemma assegment_normalise_set_eq:
  "assegment_normalise_set seg =
     (if seg_type seg = AS_SET \<or> seg_type seg = AS_CONFED_SET
      then seg\<lparr>seg_as := sorted_list_of_set (set (seg_as seg))\<rparr> else seg)"
proof (cases "seg_as seg = []")
  case True
  then show ?thesis
    by (simp add: assegment_normalise_set_def weed_dupes.simps [of "[]"])
next
  case False
  obtain a' t where w: "weed_dupes (sort (seg_as seg)) 0 1 = (a', t)" by fastforce
  obtain x xs where s: "sort (seg_as seg) = x # xs"
    using False by (cases "sort (seg_as seg)") (auto simp flip: set_empty)
  have "take (t + 1) a' = remdups_adj (sort (seg_as seg))"
    using weed_dupes_take [OF _ _ w] s by simp
  then show ?thesis
    using w s by (simp add: assegment_normalise_set_def flip: remdups_adj_sort)
qed

text \<open>The AS numbers on a path, in order, whatever the segments.\<close>

definition asns :: "assegment list \<Rightarrow> as_t list" where
  "asns segs = concat (map seg_as segs)"

lemma asns_simps [simp]:
  "asns [] = []" "asns (seg # segs) = seg_as seg @ asns segs" "asns (xs @ ys) = asns xs @ asns ys"
  by (simp_all add: asns_def)

lemma shown_id [simp]: "length a \<le> 65535 \<Longrightarrow> shown a = a"
  by (simp add: shown_def)

text \<open>
  \<open>fits\<close>: every run of consecutive \<open>AS_SEQUENCE\<close> segments has at most 65535 AS numbers, so
  that they can be one segment.
\<close>

fun lead :: "assegment list \<Rightarrow> nat" where
  "lead [] = 0"
| "lead (seg # segs) = (if seg_type seg = AS_SEQUENCE then seg_length seg + lead segs else 0)"

fun fits :: "assegment list \<Rightarrow> bool" where
  "fits [] \<longleftrightarrow> True"
| "fits (seg # segs) \<longleftrightarrow> lead (seg # segs) \<le> 65535 \<and> fits segs"

lemma lead_le: "lead segs \<le> length (asns segs)"
  by (induction segs) auto

lemma fits_asns: "length (asns segs) \<le> 65535 \<Longrightarrow> fits segs"
proof (induction segs)
  case (Cons seg segs)
  then show ?case using lead_le [of "seg # segs"] by (simp del: lead.simps)
qed simp

text \<open>Normalisation as one pass from the right.\<close>

fun cons_segment :: "assegment \<Rightarrow> assegment list \<Rightarrow> assegment list" where
  "cons_segment pin [] = [pin]"
| "cons_segment pin (seg # segs) =
     (if ASSEGMENT_TYPES_PACKABLE pin seg then pin\<lparr>seg_as := seg_as pin @ seg_as seg\<rparr> # segs
      else pin # seg # segs)"

lemma packable_type: "ASSEGMENT_TYPES_PACKABLE x y \<longleftrightarrow> seg_type x = AS_SEQUENCE \<and> seg_type y = AS_SEQUENCE"
  by (auto simp: ASSEGMENT_TYPES_PACKABLE_def)

lemma cons_segment_append:
  "ASSEGMENT_TYPES_PACKABLE x y \<Longrightarrow>
     cons_segment x (cons_segment y segs) = cons_segment (x\<lparr>seg_as := seg_as x @ seg_as y\<rparr>) segs"
  by (cases segs) (auto simp: packable_type)

lemma normalise_set_type [simp]: "seg_type (assegment_normalise_set seg) = seg_type seg"
  by (simp add: assegment_normalise_set_eq)

lemma assegment_absorb_cons:
  "(seg_type pin = AS_SEQUENCE \<longrightarrow> seg_length pin + lead segs \<le> 65535) \<Longrightarrow> fits segs \<Longrightarrow>
   assegment_absorb pin segs = (p, rest) \<Longrightarrow>
     p # assegment_normalise rest = cons_segment pin (assegment_normalise segs)"
proof (induction segs arbitrary: pin p rest)
  case Nil
  then show ?case by simp
next
  case (Cons seg segs)
  have "seg_type seg = AS_SEQUENCE \<longrightarrow> seg_length (assegment_normalise_set seg) + lead segs \<le> 65535"
    using Cons.prems(2) by (auto simp: assegment_normalise_set_eq)
  then have self: "assegment_normalise (seg # segs) =
      cons_segment (assegment_normalise_set seg) (assegment_normalise segs)"
    using Cons.IH [of "assegment_normalise_set seg"] Cons.prems(2)
    by (cases "assegment_absorb (assegment_normalise_set seg) segs") simp
  show ?case
  proof (cases "ASSEGMENT_TYPES_PACKABLE pin seg")
    case True
    then have "assegment_normalise_set seg = seg"
      by (simp add: packable_type assegment_normalise_set_eq)
    with True Cons.prems self Cons.IH [of "pin\<lparr>seg_as := seg_as pin @ seg_as seg\<rparr>"]
    show ?thesis by (simp add: assegment_append_asns_def cons_segment_append packable_type)
  next
    case False
    obtain y ys where y: "assegment_normalise (seg # segs) = y # ys" "seg_type y = seg_type seg"
      using self by (cases "assegment_normalise segs") (auto split: if_splits)
    from False Cons.prems have "p = pin" "rest = seg # segs" by simp_all
    with False y show ?thesis by (simp add: packable_type)
  qed
qed

lemma assegment_normalise_Cons:
  assumes "fits (seg # segs)"
  shows "assegment_normalise (seg # segs) =
     cons_segment (assegment_normalise_set seg) (assegment_normalise segs)"
proof -
  have "seg_type seg = AS_SEQUENCE \<longrightarrow> seg_length (assegment_normalise_set seg) + lead segs \<le> 65535"
    using assms by (auto simp: assegment_normalise_set_eq)
  then show ?thesis
    using assegment_absorb_cons [of "assegment_normalise_set seg" segs] assms
    by (cases "assegment_absorb (assegment_normalise_set seg) segs") simp
qed

lemma lead_append: "lead (xs @ ys) \<le> length (asns xs) + lead ys"
  by (induction xs) auto

lemma fits_append: "length (asns xs) + lead ys \<le> 65535 \<Longrightarrow> fits ys \<Longrightarrow> fits (xs @ ys)"
proof (induction xs)
  case (Cons x xs)
  then show ?case using lead_append [of "x # xs" ys] by simp
qed simp

declare assegment_normalise.simps(2) [simp del] fits.simps(2) [simp del]
declare assegment_normalise_Cons [simp]

lemma fits_tl: "fits (seg # segs) \<Longrightarrow> fits segs"
  by (simp add: fits.simps(2))

definition segs_normal :: "assegment list \<Rightarrow> bool" where
  "segs_normal segs \<longleftrightarrow>
     (\<forall>seg\<in>set segs. (seg_type seg = AS_SET \<or> seg_type seg = AS_CONFED_SET) \<longrightarrow>
        sorted (seg_as seg) \<and> distinct (seg_as seg))
     \<and> successively (\<lambda>x y. \<not> ASSEGMENT_TYPES_PACKABLE x y) segs"

lemma segs_normal_Nil [simp]: "segs_normal []"
  by (simp add: segs_normal_def)

lemma segs_normal_Cons:
  "segs_normal (seg # segs) \<longleftrightarrow>
     ((seg_type seg = AS_SET \<or> seg_type seg = AS_CONFED_SET) \<longrightarrow>
        sorted (seg_as seg) \<and> distinct (seg_as seg))
     \<and> (segs \<noteq> [] \<longrightarrow> \<not> ASSEGMENT_TYPES_PACKABLE seg (hd segs)) \<and> segs_normal segs"
  by (auto simp: segs_normal_def successively_Cons)

lemma segs_normal_cons_segment:
  "segs_normal segs \<Longrightarrow>
     ((seg_type seg = AS_SET \<or> seg_type seg = AS_CONFED_SET) \<longrightarrow>
        sorted (seg_as seg) \<and> distinct (seg_as seg)) \<Longrightarrow>
     segs_normal (cons_segment seg segs)"
  by (cases segs) (auto simp: segs_normal_Cons packable_type)

lemma assegment_normalise_normal: "fits segs \<Longrightarrow> segs_normal (assegment_normalise segs)"
  by (induction segs)
     (auto intro!: segs_normal_cons_segment dest: fits_tl simp: assegment_normalise_set_eq split: if_splits)

lemma assegment_normalise_set_id:
  "((seg_type seg = AS_SET \<or> seg_type seg = AS_CONFED_SET) \<longrightarrow>
        sorted (seg_as seg) \<and> distinct (seg_as seg)) \<Longrightarrow> assegment_normalise_set seg = seg"
  by (auto simp: assegment_normalise_set_eq sorted_list_of_set_sort_remdups distinct_remdups_id
      sorted_sort_id)

lemma assegment_normalise_id: "segs_normal segs \<Longrightarrow> assegment_normalise segs = segs"
proof (induction segs)
  case Nil
  then show ?case by simp
next
  case (Cons seg segs)
  then have n: "assegment_normalise segs = segs" "assegment_normalise_set seg = seg"
    by (auto simp: segs_normal_Cons assegment_normalise_set_id)
  have "assegment_absorb seg segs = (seg, segs)"
    using Cons.prems by (cases segs) (auto simp: segs_normal_Cons)
  with n show ?case by (simp add: assegment_normalise.simps(2))
qed

lemma count_hops_from_add: "count_hops_from segs n = n + count_hops_from segs 0"
proof (induction segs arbitrary: n)
  case (Cons seg segs)
  show ?case using Cons.IH [of "n + seg_length seg"] Cons.IH [of "n + 1"] Cons.IH [of n]
      Cons.IH [of "seg_length seg"] Cons.IH [of 1]
    by simp
qed simp

lemma count_confeds_from_add: "count_confeds_from segs n = n + count_confeds_from segs 0"
proof (induction segs arbitrary: n)
  case (Cons seg segs)
  show ?case using Cons.IH [of "n + seg_length seg"] Cons.IH [of "n + 1"] Cons.IH [of n]
      Cons.IH [of "seg_length seg"] Cons.IH [of 1]
    by simp
qed simp

abbreviation hops :: "assegment list \<Rightarrow> nat" where
  "hops segs \<equiv> count_hops_from segs 0"

abbreviation confeds :: "assegment list \<Rightarrow> nat" where
  "confeds segs \<equiv> count_confeds_from segs 0"

definition seg_hops :: "assegment \<Rightarrow> nat" where
  "seg_hops seg = (if seg_type seg = AS_SEQUENCE then seg_length seg
                   else if seg_type seg = AS_SET then 1 else 0)"

definition seg_confeds :: "assegment \<Rightarrow> nat" where
  "seg_confeds seg = (if seg_type seg = AS_CONFED_SEQUENCE then seg_length seg
                      else if seg_type seg = AS_CONFED_SET then 1 else 0)"

lemma hops_Cons: "hops (seg # segs) = seg_hops seg + hops segs"
  using count_hops_from_add [of segs "seg_hops seg"] by (simp add: seg_hops_def split: if_splits)

lemma confeds_Cons: "confeds (seg # segs) = seg_confeds seg + confeds segs"
  using count_confeds_from_add [of segs "seg_confeds seg"]
  by (simp add: seg_confeds_def split: if_splits)

declare count_hops_from.simps(2) [simp del] count_confeds_from.simps(2) [simp del]

lemma hops_append: "hops (xs @ ys) = hops xs + hops ys"
  by (induction xs) (simp_all add: hops_Cons)

lemma confeds_append: "confeds (xs @ ys) = confeds xs + confeds ys"
  by (induction xs) (simp_all add: confeds_Cons)

lemma hops_cons_segment: "hops (cons_segment seg segs) = seg_hops seg + hops segs"
  by (cases segs) (auto simp: hops_Cons packable_type seg_hops_def)

lemma confeds_cons_segment: "confeds (cons_segment seg segs) = seg_confeds seg + confeds segs"
  by (cases segs) (auto simp: confeds_Cons packable_type seg_confeds_def)

lemma hops_normalise: "fits segs \<Longrightarrow> hops (assegment_normalise segs) = hops segs"
  by (induction segs)
     (auto dest: fits_tl simp: hops_cons_segment hops_Cons seg_hops_def assegment_normalise_set_eq)

lemma confeds_normalise: "fits segs \<Longrightarrow> confeds (assegment_normalise segs) = confeds segs"
  by (induction segs)
     (auto dest: fits_tl simp: confeds_cons_segment confeds_Cons seg_confeds_def assegment_normalise_set_eq)

lemma set_asns_cons_segment: "set (asns (cons_segment seg segs)) = set (seg_as seg) \<union> set (asns segs)"
  by (cases segs) auto

lemma set_asns_normalise: "fits segs \<Longrightarrow> set (asns (assegment_normalise segs)) = set (asns segs)"
  by (induction segs) (auto dest: fits_tl simp: set_asns_cons_segment assegment_normalise_set_eq)

lemma loop_check_count:
  "aspath_loop_check (Some p) a = count_list (asns (as_segments p)) a"
proof -
  have inner: "fold (\<lambda>a' n. if a' = a then n + 1 else n) xs n = n + count_list xs a" for xs n
    by (induction xs arbitrary: n) auto
  have "fold (\<lambda>seg. fold (\<lambda>a' n. if a' = a then n + 1 else n) (seg_as seg)) segs n
        = n + count_list (asns segs) a" for segs n
    by (induction segs arbitrary: n) (simp_all add: inner)
  then show ?thesis by (simp add: aspath_loop_check_def)
qed

lemma loop_check_iff: "0 < aspath_loop_check (Some p) a \<longleftrightarrow> a \<in> set (asns (as_segments p))"
  by (simp add: loop_check_count) (metis count_list_0_iff neq0_conv)

lemma assegment_dup_id [simp]: "assegment_dup seg = seg"
  by (simp add: assegment_dup_def)

lemma assegment_dup_all_id [simp]: "assegment_dup_all segs = segs"
  by (induction segs) simp_all

lemma segments_cmp_iff: "segments_cmp xs ys \<longleftrightarrow> xs = ys"
proof (induction xs ys rule: segments_cmp.induct)
  case (2 seg1 segs1 seg2 segs2)
  have "(seg1 = seg2) = (seg_type seg1 = seg_type seg2 \<and> seg_length seg1 = seg_length seg2
          \<and> (\<forall>i. i < seg_length seg1 \<longrightarrow> seg_as seg1 ! i = seg_as seg2 ! i))"
    by (cases seg1; cases seg2) (simp add: list_eq_iff_nth_eq)
  with 2 show ?case by (auto simp: list_ex_iff)
qed auto

subsection \<open>The path a chain of segments stands for\<close>

text \<open>
  Consecutive \<open>AS_SEQUENCE\<close> segments are one sequence of AS numbers, and the members
  of a set have no order and no multiplicity; a confederation sequence is kept as
  the peer sent it. \<open>path_of\<close> forgets exactly the differences in representation that
  the comment of \<open>assegment_normalise\<close> names.
\<close>

datatype path_item =
  Hop as_t | HopSet "as_t set" | ConfedSeq "as_t list" | ConfedSet "as_t set"
| Unknown u8 "as_t list"

definition seg_items :: "assegment \<Rightarrow> path_item list" where
  "seg_items seg =
     (if seg_type seg = AS_SEQUENCE then map Hop (seg_as seg)
      else if seg_type seg = AS_SET then [HopSet (set (seg_as seg))]
      else if seg_type seg = AS_CONFED_SEQUENCE then [ConfedSeq (seg_as seg)]
      else if seg_type seg = AS_CONFED_SET then [ConfedSet (set (seg_as seg))]
      else [Unknown (seg_type seg) (seg_as seg)])"

definition path_of :: "assegment list \<Rightarrow> path_item list" where
  "path_of segs = concat (map seg_items segs)"

fun item_segment :: "path_item \<Rightarrow> assegment" where
  "item_segment (Hop a) = \<lparr>seg_type = AS_SEQUENCE, seg_as = [a]\<rparr>"
| "item_segment (HopSet A) = \<lparr>seg_type = AS_SET, seg_as = sorted_list_of_set A\<rparr>"
| "item_segment (ConfedSeq as) = \<lparr>seg_type = AS_CONFED_SEQUENCE, seg_as = as\<rparr>"
| "item_segment (ConfedSet A) = \<lparr>seg_type = AS_CONFED_SET, seg_as = sorted_list_of_set A\<rparr>"
| "item_segment (Unknown ty as) = \<lparr>seg_type = ty, seg_as = as\<rparr>"

fun rebuild :: "path_item list \<Rightarrow> assegment list" where
  "rebuild [] = []"
| "rebuild (it # its) = cons_segment (item_segment it) (rebuild its)"

lemma path_of_simps [simp]:
  "path_of [] = []" "path_of (seg # segs) = seg_items seg @ path_of segs"
  by (simp_all add: path_of_def)

lemma path_of_cons_segment: "path_of (cons_segment seg segs) = seg_items seg @ path_of segs"
  by (cases segs) (auto simp: packable_type seg_items_def)

lemma path_of_normalise: "fits segs \<Longrightarrow> path_of (assegment_normalise segs) = path_of segs"
  by (induction segs) (auto dest: fits_tl simp: path_of_cons_segment assegment_normalise_set_eq seg_items_def)

lemma rebuild_hops:
  "as \<noteq> [] \<Longrightarrow> rebuild (map Hop as @ its)
     = cons_segment \<lparr>seg_type = AS_SEQUENCE, seg_as = as\<rparr> (rebuild its)"
proof (induction as)
  case (Cons a as)
  show ?case
  proof (cases "as = []")
    case False
    then show ?thesis using Cons.IH by (simp add: cons_segment_append packable_type)
  qed simp
qed simp

lemma rebuild_path_of:
  "(\<And>seg. seg \<in> set segs \<Longrightarrow> seg_type seg = AS_SEQUENCE \<Longrightarrow> seg_as seg \<noteq> []) \<Longrightarrow> fits segs \<Longrightarrow>
     rebuild (path_of segs) = assegment_normalise segs"
proof (induction segs)
  case (Cons seg segs)
  then have IH: "rebuild (path_of segs) = assegment_normalise segs" by (simp add: fits_tl)
  show ?case
  proof (cases "seg_type seg = AS_SEQUENCE")
    case True
    with Cons.prems(1) [of seg] have "seg_as seg \<noteq> []" by simp
    with True IH show ?thesis
      unfolding assegment_normalise_Cons [OF Cons.prems(2)]
      by (cases seg) (simp add: seg_items_def rebuild_hops assegment_normalise_set_eq)
  next
    case False
    then show ?thesis
      unfolding assegment_normalise_Cons [OF Cons.prems(2)]
      using IH by (cases seg) (auto simp: seg_items_def assegment_normalise_set_eq)
  qed
qed simp

subsection \<open>The string form never overruns its buffer\<close>

fun join_with :: "char \<Rightarrow> string list \<Rightarrow> string" where
  "join_with sep [] = []"
| "join_with sep [x] = x"
| "join_with sep (x # xs) = x @ sep # join_with sep xs"

lemma join_with_Cons: "join_with sep (x # xs) = (if xs = [] then x else x @ sep # join_with sep xs)"
  by (cases xs) auto

definition asn_str :: "as_t \<Rightarrow> string" where
  "asn_str a = dec_string (unat a)"

definition seg_str :: "char \<Rightarrow> assegment \<Rightarrow> string" where
  "seg_str sep seg =
     (let body = join_with sep (map asn_str (seg_as seg))
      in if seg_type seg = AS_SEQUENCE then body
         else aspath_delimiter_char (seg_type seg) False # body
              @ [aspath_delimiter_char (seg_type seg) True])"

text \<open>The reference: the segments' texts separated by spaces.\<close>

definition segs_valid :: "assegment list \<Rightarrow> bool" where
  "segs_valid segs \<longleftrightarrow> (\<forall>seg\<in>set segs. seg_separator (seg_type seg) \<noteq> None)"

definition segs_str :: "assegment list \<Rightarrow> string" where
  "segs_str segs = join_with CHR '' '' (map (\<lambda>seg. seg_str (the (seg_separator (seg_type seg))) seg) segs)"

definition path_str :: "assegment list \<Rightarrow> string option" where
  "path_str segs = (if segs_valid segs then Some (segs_str segs) else None)"

lemma emit_fits: "length buf + length piece < n \<Longrightarrow> emit n piece buf = Some (buf @ piece)"
  by (simp add: emit_def)

lemma length_asn_str: "length (asn_str a) \<le> 10"
  unfolding asn_str_def by (rule length_dec_string_u32)

lemma length_join_asns: "length (join_with sep (map asn_str as)) \<le> length as * 11"
proof (induction as)
  case (Cons a as)
  then show ?case using length_asn_str [of a] by (auto simp: join_with_Cons)
qed simp

lemma emit_asns_fits:
  "length buf + length (join_with sep (map asn_str as)) < n \<Longrightarrow>
     emit_asns n sep as buf = Some (buf @ join_with sep (map asn_str as))"
proof (induction n sep as buf rule: emit_asns.induct)
  case (3 n sep a b as buf)
  have "length buf + length (asn_str a) < n" "length (buf @ asn_str a) + length [sep] < n"
    using "3.prems" by (simp_all add: join_with_Cons)
  with 3 show ?case by (simp add: emit_fits join_with_Cons asn_str_def)
qed (simp_all add: emit_fits asn_str_def)

lemma make_str_loop_eq:
  "length buf < n \<Longrightarrow>
   \<exists>n'. make_str_loop segs n buf =
        Some (if segs_valid segs then Some (n', buf @ segs_str segs) else None)
      \<and> (segs_valid segs \<longrightarrow> length (buf @ segs_str segs) < n')"
proof (induction segs arbitrary: n buf)
  case Nil
  then show ?case by (simp add: segs_valid_def segs_str_def)
next
  case (Cons seg segs)
  show ?case
  proof (cases "seg_separator (seg_type seg)")
    case None
    then show ?thesis by (simp add: segs_valid_def)
  next
    case (Some sep)
    define n1 where "n1 = (if n < length buf + SEGMENT_STR_LEN seg
                           then length buf + SEGMENT_STR_LEN seg else n)"
    define out where "out = buf @ seg_str sep seg @ (if segs \<noteq> [] then '' '' else '''')"
    have sz: "length buf + (length (seg_as seg) * 11 + 4) \<le> n1"
      by (simp add: n1_def SEGMENT_STR_LEN_def ASN_STR_LEN_def)
    have len: "length out < n1" and body: "length buf + 1 + length (join_with sep (map asn_str (seg_as seg))) + 2 < n1"
      using sz length_join_asns [of sep "seg_as seg"] by (simp_all add: out_def seg_str_def Let_def)
    have "make_str_loop (seg # segs) n buf = make_str_loop segs n1 out"
      using body Some
      by (simp add: n1_def [symmetric] out_def seg_str_def emit_fits emit_asns_fits Let_def)
    moreover have "segs_valid (seg # segs) \<longleftrightarrow> segs_valid segs"
      using Some by (simp add: segs_valid_def)
    moreover have "out @ segs_str segs = buf @ segs_str (seg # segs)"
      using Some by (simp add: out_def segs_str_def join_with_Cons)
    ultimately show ?thesis using Cons.IH [OF len] by metis
  qed
qed

lemma aspath_make_str_count_eq [simp]:
  "aspath_make_str_count asp = Some (asp\<lparr>as_str := path_str (as_segments asp)\<rparr>)"
proof (cases "as_segments asp = []")
  case True
  then show ?thesis
    by (simp add: aspath_make_str_count_def path_str_def segs_valid_def segs_str_def)
next
  case False
  let ?n = "max (nat (assegment_count_asns (as_segments asp) 0) * ASN_STR_LEN + 2 + 1)
                ASPATH_STR_DEFAULT_LEN"
  have "length '''' < ?n" by (simp add: ASPATH_STR_DEFAULT_LEN_def)
  from make_str_loop_eq [OF this, of "as_segments asp"] False show ?thesis
    by (auto simp: aspath_make_str_count_def path_str_def)
qed

lemma aspath_str_update_eq [simp]:
  "aspath_str_update asp = Some (asp\<lparr>as_str := path_str (as_segments asp)\<rparr>)"
  by (simp add: aspath_str_update_def)

subsection \<open>Aggregation keeps or loses AS numbers\<close>

definition opt_set :: "'a list option \<Rightarrow> 'a set" where
  "opt_set x = (case x of None \<Rightarrow> {} | Some xs \<Rightarrow> set xs)"

definition opt_len :: "'a list option \<Rightarrow> nat" where
  "opt_len x = (case x of None \<Rightarrow> 0 | Some xs \<Rightarrow> length xs)"

lemma as_set_add_ok:
  "opt_len t < 65535 \<Longrightarrow> \<exists>t'. aspath_aggregate_as_set_add t a = Some t'
     \<and> opt_set t' = insert a (opt_set t) \<and> opt_len t' \<le> opt_len t + 1"
  by (auto simp: aspath_aggregate_as_set_add_def opt_set_def opt_len_def list_ex_iff dest!: dvd_imp_le split: option.splits)

lemma as_set_add_all_ok:
  "opt_len t + length as \<le> 65535 \<Longrightarrow> \<exists>t'. as_set_add_all as t = Some t'
     \<and> opt_set t' = opt_set t \<union> set as \<and> opt_len t' \<le> opt_len t + length as"
proof (induction as arbitrary: t)
  case (Cons a as)
  then obtain t1 where t1: "aspath_aggregate_as_set_add t a = Some t1"
      "opt_set t1 = insert a (opt_set t)" "opt_len t1 \<le> opt_len t + 1"
    using as_set_add_ok [of t a] by auto
  with Cons.IH [of t1] Cons.prems show ?case by auto
qed simp

lemma as_set_add_segs_ok:
  "opt_len t + length (asns segs) \<le> 65535 \<Longrightarrow> \<exists>t'. as_set_add_segs segs t = Some t'
     \<and> opt_set t' = opt_set t \<union> set (asns segs) \<and> opt_len t' \<le> opt_len t + length (asns segs)"
proof (induction segs arbitrary: t)
  case (Cons seg segs)
  then obtain t1 where "as_set_add_all (seg_as seg) t = Some t1"
      "opt_set t1 = opt_set t \<union> set (seg_as seg)" "opt_len t1 \<le> opt_len t + seg_length seg"
    using as_set_add_all_ok [of t "seg_as seg"] by auto
  with Cons.IH [of t1] Cons.prems show ?case by auto
qed simp

text \<open>The AS numbers from position \<open>n\<close> of the first segment on.\<close>

definition asns_from :: "nat \<Rightarrow> assegment list \<Rightarrow> as_t list" where
  "asns_from n segs = (case segs of [] \<Rightarrow> [] | seg # rest \<Rightarrow> drop n (seg_as seg) @ asns rest)"

lemma asns_from_simps [simp]: "asns_from 0 segs = asns segs" "asns_from n [] = []"
  by (simp_all add: asns_from_def split: list.split)

lemma agg_rest_ok:
  assumes "opt_len t + length (asns segs) \<le> 65535"
  shows "\<exists>t'. agg_rest n segs t = Some t' \<and> opt_set t' = opt_set t \<union> set (asns_from n segs)
           \<and> opt_len t' \<le> opt_len t + length (asns segs)"
proof (cases segs)
  case (Cons seg rest)
  have "opt_len t + length (drop n (seg_as seg)) \<le> 65535" using assms Cons by simp
  then obtain t1 where t1: "as_set_add_all (drop n (seg_as seg)) t = Some t1"
      "opt_set t1 = opt_set t \<union> set (drop n (seg_as seg))" "opt_len t1 \<le> opt_len t + seg_length seg"
    using as_set_add_all_ok [of t "drop n (seg_as seg)"] by (auto intro: order_trans)
  then show ?thesis
    using as_set_add_segs_ok [of t1 rest] assms Cons by (auto simp: agg_rest_def asns_from_def)
qed (simp add: agg_rest_def asns_from_def)

lemma match_len_take: "take (match_len xs ys) xs = take (match_len xs ys) ys"
  by (induction xs ys rule: match_len.induct) auto

lemma match_len_self [simp]: "match_len xs xs = length xs"
  by (induction xs) auto

text \<open>Equal leading segments are collected; the offset left over is the length of the last one.\<close>

lemma agg_common_prefix:
  "length (asns c) \<le> 65535 \<Longrightarrow>
   agg_common (c @ r1) (c @ r2) m acc = agg_common r1 r2 (if c = [] then m else seg_length (last c))
     (acc @ filter (\<lambda>seg. seg_as seg \<noteq> []) c)"
proof (induction c arbitrary: m acc)
  case (Cons seg c)
  have "assegment_append_asns \<lparr>seg_type = seg_type seg, seg_as = []\<rparr> (seg_as seg) (seg_length seg) = seg"
    using Cons.prems by (cases seg) (simp add: assegment_append_asns_def)
  with Cons show ?case by (auto simp: Let_def)
qed simp

text \<open>
  The search stops at two segments of the same type: the offset is that of their first
  difference.
\<close>

lemma agg_common_stop:
  assumes "seg1 \<noteq> seg2" "seg_type seg1 = seg_type seg2" "seg_length seg1 \<le> 65535"
  shows "\<exists>n out. agg_common (seg1 # r1) (seg2 # r2) m acc = (acc @ out, n, seg1 # r1, seg2 # r2)
           \<and> asns out = take n (seg_as seg1) \<and> take n (seg_as seg1) = take n (seg_as seg2)"
proof -
  define n where "n = match_len (seg_as seg1) (seg_as seg2)"
  have "seg_as seg1 \<noteq> seg_as seg2" using assms by (cases seg1; cases seg2) auto
  then have "n \<noteq> seg_length seg1 \<or> seg_length seg1 \<noteq> seg_length seg2"
    using match_len_take [of "seg_as seg1" "seg_as seg2"] by (auto simp: n_def)
  moreover have "length (take n (seg_as seg2)) \<le> 65535"
    using match_len_take [of "seg_as seg1" "seg_as seg2"] assms(3)
    by (metis n_def length_take min.cobounded1 order_trans)
  ultimately show ?thesis
    using assms(2) match_len_take [of "seg_as seg1" "seg_as seg2"]
    by (auto simp: n_def [symmetric] assegment_append_asns_def Let_def
        intro!: exI [of _ "[\<lparr>seg_type = seg_type seg1, seg_as = take n (seg_as seg1)\<rparr>]"])
qed

lemma asns_filter_nonempty [simp]: "asns (filter (\<lambda>seg. seg_as seg \<noteq> []) segs) = asns segs"
  by (induction segs) auto

lemma agg_common_clean:
  assumes "r1 \<noteq> [] \<Longrightarrow> r2 \<noteq> [] \<Longrightarrow> hd r1 \<noteq> hd r2"
    and "c = [] \<or> r1 = [] \<and> r2 = [] \<or> r1 \<noteq> [] \<and> r2 \<noteq> [] \<and> seg_type (hd r1) = seg_type (hd r2)"
    and "length (asns (c @ r1)) \<le> 65535"
  shows "\<exists>n acc. agg_common (c @ r1) (c @ r2) 0 [] = (acc, n, r1, r2)
     \<and> length (asns acc) \<le> length (asns (c @ r1))
     \<and> set (asns acc) \<union> set (asns_from n r1) \<union> set (asns_from n r2) = set (asns (c @ r1)) \<union> set (asns (c @ r2))"
proof (cases "r1 \<noteq> [] \<and> r2 \<noteq> [] \<and> seg_type (hd r1) = seg_type (hd r2)")
  case True
  then obtain seg1 s1 seg2 s2 where r: "r1 = seg1 # s1" "r2 = seg2 # s2" by (cases r1; cases r2) auto
  let ?c = "filter (\<lambda>seg. seg_as seg \<noteq> []) c"
  have ne: "seg1 \<noteq> seg2" "seg_type seg1 = seg_type seg2" "seg_length seg1 \<le> 65535"
    using True r assms(1,3) by auto
  obtain n out where n: "agg_common r1 r2 (if c = [] then 0 else seg_length (last c)) ([] @ ?c)
        = (([] @ ?c) @ out, n, r1, r2)"
      "asns out = take n (seg_as seg1)" "take n (seg_as seg1) = take n (seg_as seg2)"
    using agg_common_stop [OF ne, of s1 s2 "if c = [] then 0 else seg_length (last c)" "[] @ ?c"] unfolding r by blast
  have td: "set (seg_as seg) = set (take n (seg_as seg)) \<union> set (drop n (seg_as seg))" for seg
    by (metis append_take_drop_id set_append)
  have "set (asns (?c @ out)) \<union> set (asns_from n r1) \<union> set (asns_from n r2)
      = set (asns (c @ r1)) \<union> set (asns (c @ r2))"
    unfolding r asns_simps set_append n(2) td [of seg1] td [of seg2] asns_from_def list.case n(3) asns_filter_nonempty by blast
  moreover have "length (asns (?c @ out)) \<le> length (asns (c @ r1))"
    using n(2) r by simp
  moreover have "agg_common (c @ r1) (c @ r2) 0 [] = (?c @ out, n, r1, r2)"
    using agg_common_prefix [of c r1 r2 0 "[]"] n(1) assms(3) by simp
  ultimately show ?thesis by blast
next
  case False
  then have "c = [] \<or> r1 = [] \<and> r2 = []" using assms(2) by blast
  moreover have "agg_common r1 r2 0 [] = ([], 0, r1, r2)" if "c = []"
    using False by (cases r1; cases r2) auto
  moreover have "agg_common c c 0 [] = (filter (\<lambda>seg. seg_as seg \<noteq> []) c, if c = [] then 0 else seg_length (last c), [], [])"
    using agg_common_prefix [of c "[]" "[]" 0 "[]"] assms(3) by simp
  ultimately show ?thesis by auto
qed

text \<open>
  C19. Two paths have the segments \<open>c\<close> in common and then go on with \<open>r1\<close> and \<open>r2\<close>, whose
  first segments differ. When nothing is in common, or both end there, or the first
  segments of \<open>r1\<close> and \<open>r2\<close> are of the same type, and the paths have at most 65535 AS
  numbers together, aggregation is total, and the AS numbers on the aggregate are exactly
  those on the two paths: none is lost, so the aggregate still carries the loop-detection
  information of both, and none is invented.
\<close>

theorem aspath_aggregate_keeps_asns:
  assumes "as_segments as1 = c @ r1" "as_segments as2 = c @ r2"
    and "r1 \<noteq> [] \<Longrightarrow> r2 \<noteq> [] \<Longrightarrow> hd r1 \<noteq> hd r2"
    and "c = [] \<or> r1 = [] \<and> r2 = [] \<or> r1 \<noteq> [] \<and> r2 \<noteq> [] \<and> seg_type (hd r1) = seg_type (hd r2)"
    and "length (asns (c @ r1)) + length (asns (c @ r2)) \<le> 65535"
  shows "\<exists>r. aspath_aggregate as1 as2 = Some r \<and> segs_normal (as_segments r)
           \<and> (\<forall>a. 0 < aspath_loop_check (Some r) a
                \<longleftrightarrow> 0 < aspath_loop_check (Some as1) a \<or> 0 < aspath_loop_check (Some as2) a)"
proof -
  obtain n acc where c: "agg_common (c @ r1) (c @ r2) 0 [] = (acc, n, r1, r2)"
      "length (asns acc) \<le> length (asns (c @ r1))"
      "set (asns acc) \<union> set (asns_from n r1) \<union> set (asns_from n r2) = set (asns (c @ r1)) \<union> set (asns (c @ r2))"
    using agg_common_clean [OF assms(3,4)] assms(5) by auto
  obtain t1 where t1: "agg_rest n r1 None = Some t1" "opt_set t1 = set (asns_from n r1)"
      "opt_len t1 \<le> length (asns r1)"
    using agg_rest_ok [of None r1 n] assms(5) by (auto simp: opt_len_def opt_set_def)
  obtain t where t: "agg_rest n r2 t1 = Some t" "opt_set t = opt_set t1 \<union> set (asns_from n r2)"
    using agg_rest_ok [of t1 r2 n] assms(5) t1(3) by auto
  let ?tail = "case t of None \<Rightarrow> [] | Some xs \<Rightarrow> [\<lparr>seg_type = AS_SET, seg_as = xs\<rparr>]"
  have "set (asns ?tail) = opt_set t" by (simp add: opt_set_def split: option.split)
  then have s: "set (asns (acc @ ?tail)) = set (asns (as_segments as1)) \<union> set (asns (as_segments as2))"
    using t(2) t1(2) c(3) by (simp add: assms(1,2) Un_assoc)
  have "fits (acc @ ?tail)"
    using c(2) assms(5) by (intro fits_append) (auto simp: fits.simps(2) split: option.splits)
  moreover have "aspath_aggregate as1 as2 =
      Some (aspath_new\<lparr>as_segments := assegment_normalise (acc @ ?tail),
                       as_str := path_str (assegment_normalise (acc @ ?tail))\<rparr>)"
    using c(1) t1(1) t(1) by (simp add: aspath_aggregate_def assms(1,2) Let_def)
  ultimately show ?thesis
    using s by (auto simp: loop_check_iff set_asns_normalise assegment_normalise_normal simp del: set_append asns_simps)
qed

theorem aspath_aggregate_keeps_asns_witness:
  "\<exists>r. aspath_aggregate
        \<lparr>as_refcnt = 0, as_segments = [\<lparr>seg_type = 2, seg_as = [9]\<rparr>, \<lparr>seg_type = 1, seg_as = [1, 2, 3]\<rparr>], as_str = None\<rparr>
        \<lparr>as_refcnt = 0, as_segments = [\<lparr>seg_type = 2, seg_as = [9]\<rparr>, \<lparr>seg_type = 1, seg_as = [1, 4]\<rparr>], as_str = None\<rparr> = Some r
     \<and> 0 < aspath_loop_check (Some r) 4"
proof -
  let ?as1 = "\<lparr>as_refcnt = 0, as_segments = [\<lparr>seg_type = 2, seg_as = [9]\<rparr>, \<lparr>seg_type = 1, seg_as = [1, 2, 3]\<rparr>], as_str = None\<rparr>"
  let ?as2 = "\<lparr>as_refcnt = 0, as_segments = [\<lparr>seg_type = 2, seg_as = [9]\<rparr>, \<lparr>seg_type = 1, seg_as = [1, 4]\<rparr>], as_str = None\<rparr>"
  obtain r where "aspath_aggregate ?as1 ?as2 = Some r"
    "\<forall>a. 0 < aspath_loop_check (Some r) a
       \<longleftrightarrow> 0 < aspath_loop_check (Some ?as1) a \<or> 0 < aspath_loop_check (Some ?as2) a"
    using aspath_aggregate_keeps_asns [of ?as1 "[\<lparr>seg_type = 2, seg_as = [9]\<rparr>]"
        "[\<lparr>seg_type = 1, seg_as = [1, 2, 3]\<rparr>]" ?as2 "[\<lparr>seg_type = 1, seg_as = [1, 4]\<rparr>]"]
    by auto
  then show ?thesis by (simp add: loop_check_iff)
qed

text \<open>
  C20. When the first segments agree and one path goes on, the count of matching AS
  numbers left over from the segment that agreed is used as an offset into the next
  segment, and AS numbers are dropped: the aggregate of \<open>1 2\<close> and \<open>1 2 {3,4,5}\<close> is
  \<open>1 2 {5}\<close>, so that a loop through AS 3 or AS 4 is no longer detected.
\<close>

theorem aspath_aggregate_loses_asns:
  "\<exists>as1 as2 r. aspath_aggregate as1 as2 = Some r \<and> as_str r = Some ''1 2 {5}''
     \<and> as_segments as2 = [\<lparr>seg_type = 2, seg_as = [1, 2]\<rparr>, \<lparr>seg_type = 1, seg_as = [3, 4, 5]\<rparr>]
     \<and> aspath_loop_check (Some as2) 3 = 1 \<and> aspath_loop_check (Some r) 3 = 0
     \<and> aspath_loop_check (Some r) 4 = 0"
proof -
  let ?seq = "\<lparr>seg_type = 2, seg_as = [1, 2]\<rparr>"
  let ?as1 = "\<lparr>as_refcnt = 0, as_segments = [?seq], as_str = None\<rparr>"
  let ?as2 = "\<lparr>as_refcnt = 0, as_segments = [?seq, \<lparr>seg_type = 1, seg_as = [3, 4, 5]\<rparr>], as_str = None\<rparr>"
  have "aspath_aggregate ?as1 ?as2
        = Some \<lparr>as_refcnt = 0, as_segments = [?seq, \<lparr>seg_type = 1, seg_as = [5]\<rparr>],
                as_str = Some ''1 2 {5}''\<rparr>"
    by (simp add: aspath_aggregate_def agg_rest_def aspath_aggregate_as_set_add_def fits.simps(2)
        assegment_append_asns_def assegment_normalise_set_eq packable_type aspath_new_def
        path_str_def segs_valid_def segs_str_def seg_str_def seg_separator_def
        aspath_delimiter_char_def asn_str_def dec_string.simps Let_def)
  then show ?thesis
    by (intro exI [of _ ?as1] exI [of _ ?as2] exI)
       (auto simp: aspath_loop_check_def)
qed

subsection \<open>Edits and comparison\<close>

text \<open>
  C22. The purpose of normalisation: two chains of segments without empty sequences, and
  with at most 65535 AS numbers in every run of sequences, get the same representation, and are equal for \<open>aspath_cmp\<close> (the equality of the
  hash table of paths), exactly when they stand for the same path.
\<close>

theorem assegment_normalise_canonical:
  assumes "\<And>seg. seg \<in> set (as_segments p1) \<Longrightarrow> seg_type seg = AS_SEQUENCE \<Longrightarrow> seg_as seg \<noteq> []"
    and "\<And>seg. seg \<in> set (as_segments p2) \<Longrightarrow> seg_type seg = AS_SEQUENCE \<Longrightarrow> seg_as seg \<noteq> []"
    and "fits (as_segments p1)" "fits (as_segments p2)"
  shows "aspath_cmp (p1\<lparr>as_segments := assegment_normalise (as_segments p1)\<rparr>)
                    (p2\<lparr>as_segments := assegment_normalise (as_segments p2)\<rparr>)
           \<longleftrightarrow> path_of (as_segments p1) = path_of (as_segments p2)"
  using rebuild_path_of [OF assms(1,3)] rebuild_path_of [OF assms(2,4)]
    path_of_normalise [OF assms(3)] path_of_normalise [OF assms(4)]
  by (simp add: aspath_cmp_def segments_cmp_iff) metis

theorem assegment_normalise_canonical_witness:
  "\<exists>p1 p2. as_segments p1 = [\<lparr>seg_type = 2, seg_as = [1]\<rparr>, \<lparr>seg_type = 2, seg_as = [2]\<rparr>,
                              \<lparr>seg_type = 1, seg_as = [9, 7, 9]\<rparr>]
     \<and> as_segments p2 = [\<lparr>seg_type = 2, seg_as = [1, 2]\<rparr>, \<lparr>seg_type = 1, seg_as = [7, 9]\<rparr>]
     \<and> aspath_cmp (p1\<lparr>as_segments := assegment_normalise (as_segments p1)\<rparr>)
                  (p2\<lparr>as_segments := assegment_normalise (as_segments p2)\<rparr>)"
proof -
  let ?p1 = "aspath_new\<lparr>as_segments := [\<lparr>seg_type = 2, seg_as = [1]\<rparr>, \<lparr>seg_type = 2, seg_as = [2]\<rparr>,
                                        \<lparr>seg_type = 1, seg_as = [9, 7, 9]\<rparr>]\<rparr>"
  let ?p2 = "aspath_new\<lparr>as_segments := [\<lparr>seg_type = 2, seg_as = [1, 2]\<rparr>,
                                        \<lparr>seg_type = 1, seg_as = [7, 9]\<rparr>]\<rparr>"
  have "aspath_cmp (?p1\<lparr>as_segments := assegment_normalise (as_segments ?p1)\<rparr>)
                   (?p2\<lparr>as_segments := assegment_normalise (as_segments ?p2)\<rparr>)"
    by (rule assegment_normalise_canonical [THEN iffD2]) (auto simp: seg_items_def fits.simps(2))
  moreover have "as_segments ?p1 = [\<lparr>seg_type = 2, seg_as = [1]\<rparr>, \<lparr>seg_type = 2, seg_as = [2]\<rparr>,
                                    \<lparr>seg_type = 1, seg_as = [9, 7, 9]\<rparr>]"
    and "as_segments ?p2 = [\<lparr>seg_type = 2, seg_as = [1, 2]\<rparr>, \<lparr>seg_type = 1, seg_as = [7, 9]\<rparr>]"
    by simp_all
  ultimately show ?thesis by blast
qed



text \<open>
  The sequence that is full: its length wraps to 0, and the path that had at least 65535 hops
  has none of them left.
\<close>

lemma aspath_add_seq_wraps:
  assumes "as_segments p = seg # rest" "seg_type seg = AS_SEQUENCE" "seg_length seg = 65535"
  shows "\<exists>q. aspath_add_seq p a = Some q \<and> as_segments q = seg\<lparr>seg_as := []\<rparr> # rest
     \<and> aspath_count_hops q = aspath_count_hops p - 65535"
  using assms
  by (simp add: aspath_add_seq_def aspath_add_asns_def assegment_prepend_asns_def shown_def
      aspath_count_hops_def hops_Cons seg_hops_def)



text \<open>
  C25. \<open>aspath_filter_exclude\<close> removes from a path exactly the AS numbers of the
  exclusion list, keeps the order of the others, and leaves no empty segment.
\<close>

theorem aspath_filter_exclude_spec:
  "\<exists>q. aspath_filter_exclude source exclude_list = Some q
     \<and> asns (as_segments q)
         = filter (\<lambda>a. aspath_loop_check (Some exclude_list) a = 0) (asns (as_segments source))
     \<and> (\<forall>seg\<in>set (as_segments q). seg_as seg \<noteq> [])
     \<and> as_str q = path_str (as_segments q)"
proof -
  have ex: "aspath_excluded exclude_list a \<longleftrightarrow> aspath_loop_check (Some exclude_list) a \<noteq> 0" for a
    using loop_check_iff [of exclude_list a]
    by (auto simp: aspath_excluded_def list_ex_iff asns_def)
  have a: "asns (filter_exclude_loop exclude_list segs)
             = filter (\<lambda>a. \<not> aspath_excluded exclude_list a) (asns segs)" for segs
    by (induction segs) (auto simp: Let_def filter_empty_conv)
  have b: "\<forall>seg\<in>set (filter_exclude_loop exclude_list segs). seg_as seg \<noteq> []" for segs
    by (induction segs) (auto simp: Let_def filter_empty_conv)
  show ?thesis using a b by (simp add: aspath_filter_exclude_def ex aspath_new_def)
qed

theorem aspath_filter_exclude_spec_witness:
  "\<exists>q. aspath_filter_exclude (aspath_new\<lparr>as_segments := [\<lparr>seg_type = 2, seg_as = [10, 20, 10]\<rparr>]\<rparr>)
         (aspath_new\<lparr>as_segments := [\<lparr>seg_type = 2, seg_as = [10]\<rparr>]\<rparr>) = Some q
     \<and> asns (as_segments q) = [20]"
  using aspath_filter_exclude_spec
    [of "aspath_new\<lparr>as_segments := [\<lparr>seg_type = 2, seg_as = [10, 20, 10]\<rparr>]\<rparr>"
        "aspath_new\<lparr>as_segments := [\<lparr>seg_type = 2, seg_as = [10]\<rparr>]\<rparr>"]
  by (auto simp: loop_check_count)

subsection \<open>Reconciliation keeps the path length\<close>

definition types_known :: "assegment list \<Rightarrow> bool" where
  "types_known segs \<longleftrightarrow> (\<forall>seg\<in>set segs. seg_type seg \<in> {AS_SET, AS_SEQUENCE, AS_CONFED_SEQUENCE, AS_CONFED_SET})"

text \<open>Confederation segments stand in front of all others.\<close>

fun confeds_leading :: "assegment list \<Rightarrow> bool" where
  "confeds_leading [] = True"
| "confeds_leading (seg # segs) =
     (if is_confed_segment seg then confeds_leading segs
      else \<not> list_ex is_confed_segment segs)"

lemma no_confed: "\<not> list_ex is_confed_segment segs \<Longrightarrow> confeds segs = 0 \<and> confeds_leading segs"
  by (induction segs) (auto simp: confeds_Cons is_confed_segment_def seg_confeds_def)

lemma reconcile_loop_step:
  assumes "0 < h" "types_known (seg # segs)" "is_confed_segment seg \<Longrightarrow> seg_confeds seg \<le> nat h"
    and "seg_length seg \<le> 65535"
  shows "\<exists>h' c' k. reconcile_loop (seg # segs) h c acc
             = reconcile_loop segs h' c' (acc @ [\<lparr>seg_type = seg_type seg, seg_as = take k (seg_as seg)\<rparr>])
           \<and> nat h' = nat h - (seg_hops seg + seg_confeds seg)
           \<and> seg_hops \<lparr>seg_type = seg_type seg, seg_as = take k (seg_as seg)\<rparr>
             + seg_confeds \<lparr>seg_type = seg_type seg, seg_as = take k (seg_as seg)\<rparr>
             = min (nat h) (seg_hops seg + seg_confeds seg)"
proof -
  define len where "len = seg_length seg"
  consider (set) "seg_type seg = AS_SET \<or> seg_type seg = AS_CONFED_SET"
    | (seq) "seg_type seg = AS_SEQUENCE"
    | (confed) "seg_type seg = AS_CONFED_SEQUENCE" "int len \<le> h"
    using assms by (auto simp: types_known_def is_confed_segment_def seg_confeds_def len_def)
  then show ?thesis
  proof cases
    case set
    then have "reconcile_loop (seg # segs) h c acc = reconcile_loop segs (h - 1) (int len)
        (acc @ [\<lparr>seg_type = seg_type seg, seg_as = take len (seg_as seg)\<rparr>])"
      using assms(1,4) by (simp add: assegment_append_asns_def len_def)
    moreover have "seg_hops seg + seg_confeds seg = 1"
      using set by (auto simp: seg_hops_def seg_confeds_def)
    moreover have "seg_hops \<lparr>seg_type = seg_type seg, seg_as = take len (seg_as seg)\<rparr>
        + seg_confeds \<lparr>seg_type = seg_type seg, seg_as = take len (seg_as seg)\<rparr> = 1"
      using set by (auto simp: seg_hops_def seg_confeds_def)
    moreover have "nat (h - 1) = nat h - 1" "min (nat h) 1 = 1" using assms(1) by auto
    ultimately show ?thesis by metis
  next
    case seq
    let ?k = "nat (min (int len) h)"
    have "reconcile_loop (seg # segs) h c acc = reconcile_loop segs (h - int len) (min (int len) h)
        (acc @ [\<lparr>seg_type = seg_type seg, seg_as = take ?k (seg_as seg)\<rparr>])"
      using assms(1,4) seq by (simp add: assegment_append_asns_def len_def Let_def)
    moreover have "seg_hops seg + seg_confeds seg = len"
      using seq by (simp add: seg_hops_def seg_confeds_def len_def)
    moreover have "seg_hops \<lparr>seg_type = seg_type seg, seg_as = take ?k (seg_as seg)\<rparr>
        + seg_confeds \<lparr>seg_type = seg_type seg, seg_as = take ?k (seg_as seg)\<rparr> = min (nat h) len"
      using seq assms(1) by (simp add: seg_hops_def seg_confeds_def len_def)
    moreover have "nat (h - int len) = nat h - len" using assms(1) by linarith
    ultimately show ?thesis by metis
  next
    case confed
    have "reconcile_loop (seg # segs) h c acc = reconcile_loop segs (h - int len) (int len)
        (acc @ [\<lparr>seg_type = seg_type seg, seg_as = take len (seg_as seg)\<rparr>])"
      using assms(1,4) confed by (simp add: assegment_append_asns_def len_def Let_def)
    moreover have "seg_hops seg + seg_confeds seg = len"
      using confed by (simp add: seg_hops_def seg_confeds_def len_def)
    moreover have "seg_hops \<lparr>seg_type = seg_type seg, seg_as = take len (seg_as seg)\<rparr>
        + seg_confeds \<lparr>seg_type = seg_type seg, seg_as = take len (seg_as seg)\<rparr> = min (nat h) len"
      using confed by (simp add: seg_hops_def seg_confeds_def len_def)
    moreover have "nat (h - int len) = nat h - len" using assms(1) by linarith
    ultimately show ?thesis by metis
  qed
qed

lemma reconcile_loop_hops:
  "types_known segs \<Longrightarrow> confeds_leading segs \<Longrightarrow> confeds segs \<le> nat h \<Longrightarrow>
     nat h \<le> hops segs + confeds segs \<Longrightarrow> length (asns segs) \<le> 65535 \<Longrightarrow>
     \<exists>out. reconcile_loop segs h c acc = Some (acc @ out) \<and> hops out + confeds out = nat h
       \<and> (0 < h \<longrightarrow> segs \<noteq> [] \<longrightarrow> out \<noteq> []) \<and> length (asns out) \<le> length (asns segs)"
proof (induction segs arbitrary: h c acc)
  case Nil
  then show ?case by simp
next
  case (Cons seg segs)
  show ?case
  proof (cases "0 < h")
    case False
    then show ?thesis by (intro exI [of _ "[]"]) simp
  next
    case True
    have fit: "is_confed_segment seg \<Longrightarrow> seg_confeds seg \<le> nat h"
      using Cons.prems(3) by (simp add: confeds_Cons)
    have lead: "confeds_leading segs" and rest: "\<not> is_confed_segment seg \<Longrightarrow> confeds segs = 0"
      using Cons.prems(2) no_confed by (auto split: if_splits)
    have len: "seg_length seg \<le> 65535" using Cons.prems(5) by simp
    from reconcile_loop_step [OF True Cons.prems(1) fit len, of c acc] obtain h' c' k
      where s: "reconcile_loop (seg # segs) h c acc
             = reconcile_loop segs h' c' (acc @ [\<lparr>seg_type = seg_type seg, seg_as = take k (seg_as seg)\<rparr>])"
        "nat h' = nat h - (seg_hops seg + seg_confeds seg)"
        "seg_hops \<lparr>seg_type = seg_type seg, seg_as = take k (seg_as seg)\<rparr>
             + seg_confeds \<lparr>seg_type = seg_type seg, seg_as = take k (seg_as seg)\<rparr>
             = min (nat h) (seg_hops seg + seg_confeds seg)"
      by blast
    have nc: "\<not> is_confed_segment seg \<Longrightarrow> seg_confeds seg = 0" "is_confed_segment seg \<Longrightarrow> seg_hops seg = 0"
      by (auto simp: is_confed_segment_def seg_confeds_def seg_hops_def)
    have "confeds segs \<le> nat h'" "nat h' \<le> hops segs + confeds segs"
      using Cons.prems(3,4) s(2) rest nc
      by (cases "is_confed_segment seg"; simp add: hops_Cons confeds_Cons)+
    moreover have "types_known segs" using Cons.prems(1) by (simp add: types_known_def)
    ultimately obtain out where out: "reconcile_loop segs h' c'
          (acc @ [\<lparr>seg_type = seg_type seg, seg_as = take k (seg_as seg)\<rparr>])
        = Some ((acc @ [\<lparr>seg_type = seg_type seg, seg_as = take k (seg_as seg)\<rparr>]) @ out)"
      "hops out + confeds out = nat h'" "length (asns out) \<le> length (asns segs)"
      using Cons.IH lead Cons.prems(5) by (metis asns_simps(2) length_append add_leD2)
    then show ?thesis
      using s by (intro exI [of _ "\<lparr>seg_type = seg_type seg, seg_as = take k (seg_as seg)\<rparr> # out"])
        (simp add: hops_Cons confeds_Cons, linarith)
  qed
qed

lemma reconcile_loop_fits:
  assumes "types_known segs" "confeds_leading segs" "confeds segs \<le> nat h" "nat h \<le> hops segs + confeds segs"
    and "length (asns segs) \<le> 65535" "0 < h"
  obtains out where "reconcile_loop segs h 0 [] = Some out" "hops out + confeds out = nat h" "out \<noteq> []"
    "segs \<noteq> []" "length (asns out) \<le> length (asns segs)"
proof -
  have "segs \<noteq> []" using assms(4,6) by (cases segs) auto
  then show ?thesis
    using reconcile_loop_hops [OF assms(1-5), of 0 "[]"] assms(6) that by auto
qed



end
