(* ===== verification/Aspath_Wire.thy ===== *)
theory Aspath_Wire
  imports Aspath
begin

text \<open>
  The wire format of AS paths in \<open>bgpd/bgp_aspath.c\<close>: \<open>assegments_parse\<close> reads the
  AS_PATH attribute from a stream and \<open>aspath_put\<close> writes it, with AS numbers of two
  or four bytes. The parser returns the stream after it and \<open>None\<close> for the return
  code \<open>-1\<close>, the segments otherwise.

  The contract is a grammar: \<open>chunk_wire\<close> is the encoding of one segment, and the
  parser accepts exactly the encodings of lists of well-formed segments. On the
  writing side the encoding that \<open>aspath_put\<close> produces is given for paths of up to
  two chunks in a sequence, and what it writes for a longer segment.

  The byte counts the two functions keep in a \<open>size_t\<close> are bounded by the size of a
  buffer in memory and do not wrap around.
\<close>

subsection \<open>Parsing\<close>

definition get_asn :: "bool \<Rightarrow> stream \<Rightarrow> (as_t \<times> stream) option" where
  "get_asn use32bit s =
     (if use32bit then stream_getl s
      else do { (w, s) \<leftarrow> stream_getw s; Some (ucast w, s) })"

definition segment_type_known :: "u8 \<Rightarrow> bool" where
  "segment_type_known t \<longleftrightarrow>
     t = AS_SEQUENCE \<or> t = AS_SET \<or> t = AS_CONFED_SEQUENCE \<or> t = AS_CONFED_SET"

function parse_segments :: "stream \<Rightarrow> nat \<Rightarrow> bool \<Rightarrow> nat \<Rightarrow> assegment list
    \<Rightarrow> (stream \<times> assegment list option) option" where
  "parse_segments s len use32bit bytes acc =
     (if bytes < len then
        if len - bytes \<le> AS_HEADER_SIZE then Some (s, None)
        else do {
          (type, s) \<leftarrow> stream_getc s;
          (n, s) \<leftarrow> stream_getc s;
          let seg_size = ASSEGMENT_SIZE (unat n) use32bit;
          if len < bytes + seg_size \<or> n = 0 then Some (s, None)
          else if \<not> segment_type_known type then Some (s, None)
          else do {
            (as, s) \<leftarrow> read_n (get_asn use32bit) (unat n) s;
            parse_segments s len use32bit (bytes + seg_size)
              (acc @ [\<lparr>seg_type = type, seg_as = as\<rparr>]) } }
      else Some (s, Some acc))"
  by pat_completeness auto
termination
  by (relation "measure (\<lambda>(s, len, use32bit, bytes, acc). len - bytes)")
     (auto simp: ASSEGMENT_SIZE_def AS_HEADER_SIZE_def)

declare parse_segments.simps [simp del]

definition assegments_parse :: "stream \<Rightarrow> nat \<Rightarrow> bool \<Rightarrow> (stream \<times> assegment list option) option" where
  "assegments_parse s len use32bit =
     (if len = 0 then Some (s, Some [])
      else if STREAM_READABLE s < len \<or> STREAM_READABLE s < AS_HEADER_SIZE
              \<or> len mod AS16_VALUE_SIZE \<noteq> 0 then Some (s, None)
      else do {
        (s, result) \<leftarrow> parse_segments s len use32bit 0 [];
        Some (s, map_option assegment_normalise result) })"

subsection \<open>Writing\<close>

definition put_asn :: "bool \<Rightarrow> stream \<Rightarrow> as_t \<Rightarrow> stream option" where
  "put_asn use32bit s a =
     (if use32bit then stream_putl s a
      else if a \<le> BGP_AS_MAX then stream_putw s (ucast a) else stream_putw s BGP_AS_TRANS)"

definition assegment_data_put :: "stream \<Rightarrow> as_t list \<Rightarrow> nat \<Rightarrow> bool \<Rightarrow> stream option" where
  "assegment_data_put s as num use32bit = do {
     assert_that (num \<le> AS_SEGMENT_MAX);
     assert_that (num \<le> length as);
     write_all (put_asn use32bit) s (take num as) }"

definition assegment_header_put :: "stream \<Rightarrow> u8 \<Rightarrow> nat \<Rightarrow> (nat \<times> stream) option" where
  "assegment_header_put s type len = do {
     assert_that (len \<le> AS_SEGMENT_MAX);
     s \<leftarrow> stream_putc s type;
     lenp \<leftarrow> stream_get_endp s;
     s \<leftarrow> stream_putc s (of_nat len);
     Some (lenp, s) }"

text \<open>The loop over the full chunks of an overlength segment.\<close>

function put_overlength :: "stream \<Rightarrow> assegment \<Rightarrow> bool \<Rightarrow> nat \<Rightarrow> nat
    \<Rightarrow> (stream \<times> nat \<times> nat) option" where
  "put_overlength s seg use32bit written bytes =
     (if AS_SEGMENT_MAX < seg_length seg - written then do {
        (lenp, s) \<leftarrow> assegment_header_put s (seg_type seg) AS_SEGMENT_MAX;
        s \<leftarrow> assegment_data_put s (seg_as seg) AS_SEGMENT_MAX use32bit;
        put_overlength s seg use32bit (written + AS_SEGMENT_MAX)
          (bytes + ASSEGMENT_SIZE (written + AS_SEGMENT_MAX) use32bit) }
      else Some (s, written, bytes))"
  by pat_completeness auto
termination
  by (relation "measure (\<lambda>(s, seg, use32bit, written, bytes). seg_length seg - written)") auto

declare put_overlength.simps [simp del]

text \<open>The loop that packs the segments after \<open>seg\<close> into its last chunk.\<close>

fun put_packed :: "stream \<Rightarrow> nat \<Rightarrow> assegment \<Rightarrow> nat \<Rightarrow> bool \<Rightarrow> nat \<Rightarrow> assegment list
    \<Rightarrow> (stream \<times> nat \<times> assegment list) option" where
  "put_packed s lenp seg written use32bit asns_packed [] = Some (s, asns_packed, [])"
| "put_packed s lenp seg written use32bit asns_packed (nxt # rest) =
     (if ASSEGMENTS_PACKABLE seg nxt then do {
        s \<leftarrow> assegment_data_put s (seg_as nxt) (seg_length nxt) use32bit;
        s \<leftarrow> stream_putc_at s lenp (of_nat (seg_length seg - written + seg_length nxt));
        put_packed s lenp seg written use32bit (asns_packed + seg_length nxt) rest }
      else Some (s, asns_packed, nxt # rest))"

lemma put_packed_rest:
  "put_packed s lenp seg written u k segs = Some (s', k', rest) \<Longrightarrow> length rest \<le> length segs"
  by (induction segs arbitrary: s k) (auto split: if_splits bind_splits intro: le_SucI)

function put_segments :: "stream \<Rightarrow> assegment list \<Rightarrow> bool \<Rightarrow> nat \<Rightarrow> (nat \<times> stream) option" where
  "put_segments s [] use32bit bytes = Some (bytes, s)"
| "put_segments s (seg # nxt) use32bit bytes =
     (if ASSEGMENT_SIZE (seg_length seg) use32bit \<le> STREAM_WRITEABLE s then do {
        (s, written, bytes) \<leftarrow> put_overlength s seg use32bit 0 bytes;
        (lenp, s) \<leftarrow> assegment_header_put s (seg_type seg) (seg_length seg - written);
        s \<leftarrow> assegment_data_put s (drop written (seg_as seg)) (seg_length seg - written) use32bit;
        (s, asns_packed, rest) \<leftarrow> put_packed s lenp seg written use32bit 0 nxt;
        put_segments s rest use32bit
          (bytes + ASSEGMENT_SIZE (seg_length seg - written + asns_packed) use32bit) }
      else Some (bytes, s))"
  by pat_completeness auto
termination
  by (relation "measure (\<lambda>(s, segs, use32bit, bytes). length segs)")
     (auto dest: put_packed_rest simp: less_Suc_eq_le)

definition aspath_put :: "stream \<Rightarrow> aspath \<Rightarrow> bool \<Rightarrow> (nat \<times> stream) option" where
  "aspath_put s as use32bit =
     (case as_segments as of
        [] \<Rightarrow> Some (0, s)
      | seg # _ \<Rightarrow> if seg_length seg = 0 then Some (0, s)
                   else put_segments s (as_segments as) use32bit 0)"

subsection \<open>The grammar\<close>

definition asn_on_wire :: "bool \<Rightarrow> as_t \<Rightarrow> as_t" where
  "asn_on_wire use32bit a = (if use32bit \<or> a \<le> BGP_AS_MAX then a else ucast BGP_AS_TRANS)"

definition asn_wire :: "bool \<Rightarrow> as_t \<Rightarrow> u8 list" where
  "asn_wire use32bit a = (if use32bit then be32 a else be16 (ucast (asn_on_wire use32bit a)))"

definition chunk_wire :: "bool \<Rightarrow> assegment \<Rightarrow> u8 list" where
  "chunk_wire use32bit seg =
     seg_type seg # of_nat (seg_length seg) # concat (map (asn_wire use32bit) (seg_as seg))"

definition chunk_ok :: "bool \<Rightarrow> assegment \<Rightarrow> bool" where
  "chunk_ok use32bit seg \<longleftrightarrow> segment_type_known (seg_type seg) \<and> seg_as seg \<noteq> []
     \<and> seg_length seg \<le> AS_SEGMENT_MAX \<and> (\<forall>a\<in>set (seg_as seg). asn_on_wire use32bit a = a)"

definition wire :: "bool \<Rightarrow> assegment list \<Rightarrow> u8 list" where
  "wire use32bit segs = concat (map (chunk_wire use32bit) segs)"

lemma wire_simps [simp]:
  "wire u [] = []" "wire u (seg # segs) = chunk_wire u seg @ wire u segs"
  "wire u (segs @ segs') = wire u segs @ wire u segs'"
  by (simp_all add: wire_def)

lemma length_asn_wire [simp]: "length (asn_wire u a) = ASSEGMENT_DATA_SIZE 1 u"
  by (simp add: asn_wire_def ASSEGMENT_DATA_SIZE_def AS_VALUE_SIZE_def AS16_VALUE_SIZE_def
      be32_def be16_def)

lemma length_concat_asn_wire [simp]:
  "length (concat (map (asn_wire u) as)) = ASSEGMENT_DATA_SIZE (length as) u"
  by (induction as) (simp_all add: ASSEGMENT_DATA_SIZE_def)

lemma length_chunk_wire [simp]: "length (chunk_wire u seg) = ASSEGMENT_SIZE (seg_length seg) u"
  by (simp add: chunk_wire_def ASSEGMENT_SIZE_def AS_HEADER_SIZE_def)

lemma read_n_map:
  "read_n (\<lambda>s. g s \<bind> (\<lambda>(w, s). Some (f w, s))) n s
     = read_n g n s \<bind> (\<lambda>(ws, s). Some (map f ws, s))"
  by (induction n arbitrary: s) (auto split: bind_splits)

lemma get_asn_32: "get_asn True = stream_getl"
  by (simp add: get_asn_def fun_eq_iff)

lemma get_asn_16: "get_asn False = (\<lambda>s. stream_getw s \<bind> (\<lambda>(w, s). Some (ucast w, s)))"
  by (simp add: get_asn_def fun_eq_iff)

lemma ucast_16_32 [simp]: "ucast (ucast (w :: u16) :: u32) = w"
  by (simp add: ucast_up_ucast_id is_up)

lemma ucast_16_le [simp]: "(ucast (w :: u16) :: u32) \<le> 65535"
  using unsigned_less [of w, where ?'a = nat] by (simp add: word_le_nat_alt unsigned_ucast_eq take_bit_nat_eq_self)

lemma ucast_32_16: "(a :: u32) \<le> 65535 \<Longrightarrow> ucast (ucast a :: u16) = a"
  by (rule unsigned_word_eqI [where ?'a = nat])
     (simp add: word_le_nat_alt unsigned_ucast_eq unsigned_take_bit_eq take_bit_nat_eq_self)

lemma asn_wire_32: "asn_wire True = be32"
  by (simp add: asn_wire_def fun_eq_iff)

lemma asn_wire_16: "asn_wire False (ucast w) = be16 w"
  by (simp add: asn_wire_def asn_on_wire_def)

text \<open>Reading AS numbers from enough bytes gives the numbers these bytes encode.\<close>

lemma read_asns:
  assumes "stream_ok s" "ASSEGMENT_DATA_SIZE n u \<le> length (unread s)"
  shows "\<exists>as s'. read_n (get_asn u) n s = Some (as, s') \<and> length as = n
           \<and> concat (map (asn_wire u) as) = take (ASSEGMENT_DATA_SIZE n u) (unread s)
           \<and> (\<forall>a\<in>set as. asn_on_wire u a = a)
           \<and> stream_ok s' \<and> unread s' = drop (ASSEGMENT_DATA_SIZE n u) (unread s)"
proof (cases u)
  case True
  then show ?thesis
    using sl.read_n_full [OF assms(1), of n] assms(2)
    by (auto simp: get_asn_32 ASSEGMENT_DATA_SIZE_def AS_VALUE_SIZE_def asn_wire_32 asn_on_wire_def)
next
  case False
  then have "n * 2 \<le> length (unread s)"
    using assms(2) by (simp add: ASSEGMENT_DATA_SIZE_def AS16_VALUE_SIZE_def)
  from sw.read_n_full [OF assms(1) this] obtain ws s'
    where "read_n stream_getw n s = Some (ws, s')" "length ws = n"
      "concat (map be16 ws) = take (n * 2) (unread s)" "stream_ok s'"
      "unread s' = drop (n * 2) (unread s)"
    by blast
  then show ?thesis using False
    by (intro exI [of _ "map ucast ws"] exI [of _ s'])
       (auto simp: get_asn_16 read_n_map ASSEGMENT_DATA_SIZE_def AS16_VALUE_SIZE_def comp_def
          asn_wire_16 asn_on_wire_def)
qed

lemma read_byte:
  assumes "stream_ok s" "unread s = c # r"
  shows "\<exists>s'. stream_getc s = Some (c, s') \<and> stream_ok s' \<and> unread s' = r"
  using sc.get_ok [OF assms(1), of c r] assms(2) by auto

text \<open>The parser never fails an assertion, and what it accepts are encodings.\<close>

lemma parse_segments_sound:
  "stream_ok s \<Longrightarrow> bytes \<le> len \<Longrightarrow> len - bytes \<le> length (unread s) \<Longrightarrow>
     \<exists>s' r. parse_segments s len u bytes acc = Some (s', r) \<and> stream_ok s'
       \<and> (r = None \<or> (\<exists>chunks. r = Some (acc @ chunks) \<and> list_all (chunk_ok u) chunks
            \<and> wire u chunks = take (len - bytes) (unread s)
            \<and> unread s' = drop (len - bytes) (unread s)))"
proof (induction s len u bytes acc rule: parse_segments.induct)
  case (1 s len u bytes acc)
  show ?case
  proof (cases "bytes < len \<and> \<not> len - bytes \<le> AS_HEADER_SIZE")
    case False
    then show ?thesis using "1.prems" by (auto simp: parse_segments.simps)
  next
    case True
    then have "2 < length (unread s)" using "1.prems"(3) by (simp add: AS_HEADER_SIZE_def)
    then obtain ty n r where un: "unread s = ty # n # r"
      by (metis One_nat_def Suc_1 length_Cons list.exhaust list.size(3) not_less_eq not_less_zero)
    obtain s1 where s1: "stream_getc s = Some (ty, s1)" "stream_ok s1" "unread s1 = n # r"
      using read_byte [OF "1.prems"(1) un] by blast
    obtain s2 where s2: "stream_getc s1 = Some (n, s2)" "stream_ok s2" "unread s2 = r"
      using read_byte [OF s1(2,3)] by blast
    let ?sz = "ASSEGMENT_SIZE (unat n) u" and ?dsz = "ASSEGMENT_DATA_SIZE (unat n) u"
    show ?thesis
    proof (cases "len < bytes + ?sz \<or> n = 0 \<or> \<not> segment_type_known ty")
      case bad: True
      have "parse_segments s len u bytes acc = Some (s2, None)"
        using True s1 s2 bad by (subst parse_segments.simps) (auto simp: Let_def)
      with s2 show ?thesis by blast
    next
      case good: False
      have "?dsz \<le> length (unread s2)"
        using good un s2(3) "1.prems"(3) by (auto simp: ASSEGMENT_SIZE_def AS_HEADER_SIZE_def)
      from read_asns [OF s2(2) this] obtain as s3
        where s3: "read_n (get_asn u) (unat n) s2 = Some (as, s3)" "length as = unat n"
          "concat (map (asn_wire u) as) = take ?dsz r" "\<forall>a\<in>set as. asn_on_wire u a = a"
          "stream_ok s3" "unread s3 = drop ?dsz r"
        using s2(3) by metis
      let ?seg = "\<lparr>seg_type = ty, seg_as = as\<rparr>"
      have step: "parse_segments s len u bytes acc
          = parse_segments s3 len u (bytes + ?sz) (acc @ [?seg])"
        using True s1 s2 s3 good
        by (subst parse_segments.simps) (auto simp: Let_def)
      have IH: "\<exists>s' r. parse_segments s3 len u (bytes + ?sz) (acc @ [?seg]) = Some (s', r) \<and> stream_ok s'
         \<and> (r = None \<or> (\<exists>chunks. r = Some ((acc @ [?seg]) @ chunks) \<and> list_all (chunk_ok u) chunks
            \<and> wire u chunks = take (len - (bytes + ?sz)) (unread s3)
            \<and> unread s' = drop (len - (bytes + ?sz)) (unread s3)))"
        using True good s3 "1.prems"(3) un
        by (intro "1.IH" [OF _ _ s1(1) refl s2(1) refl refl _ _ s3(1) refl])
           (auto simp: ASSEGMENT_SIZE_def AS_HEADER_SIZE_def)
      have seg: "chunk_ok u ?seg" "chunk_wire u ?seg = take ?sz (unread s)"
        "unread s3 = drop ?sz (unread s)"
        using good s3 un unsigned_less [of n, where ?'a = nat]
        by (auto simp: chunk_ok_def chunk_wire_def ASSEGMENT_SIZE_def AS_HEADER_SIZE_def
            unat_eq_zero)
      have split: "take (len - bytes) (unread s)
          = take ?sz (unread s) @ take (len - (bytes + ?sz)) (drop ?sz (unread s))"
        using good by (metis Nat.add_diff_assoc2 add_diff_cancel_left' diff_add_inverse2 le_add1
            le_add_diff_inverse linorder_not_less take_add diff_diff_left)
      from IH step seg split good show ?thesis
        by (fastforce simp: add.commute)
    qed
  qed
qed

lemma asn_on_wire_16: "asn_on_wire False a = a \<longleftrightarrow> a \<le> BGP_AS_MAX"
  by (auto simp: asn_on_wire_def)

lemma ucast_16_inject:
  "(ucast (a :: u32) :: u16) = ucast b \<Longrightarrow> a \<le> 65535 \<Longrightarrow> b \<le> 65535 \<Longrightarrow> a = b"
  by (drule arg_cong [where f = "ucast :: u16 \<Rightarrow> u32"]) (simp only: ucast_32_16)

lemma asn_wire_inject:
  assumes "asn_wire u a = asn_wire u b" "asn_on_wire u a = a" "asn_on_wire u b = b"
  shows "a = b"
proof (cases u)
  case True
  then show ?thesis using assms(1) by (simp add: asn_wire_def be_inject)
next
  case False
  have "a \<le> 65535" "b \<le> 65535" using assms(2,3) False asn_on_wire_16 by simp_all
  moreover have "be16 (ucast a) = be16 (ucast b)"
    using assms False by (simp add: asn_wire_def)
  ultimately show ?thesis using be_inject(1) ucast_16_inject by blast
qed

lemma asns_wire_inject:
  assumes "concat (map (asn_wire u) as) = concat (map (asn_wire u) bs)" "length as = length bs"
    and "\<forall>a\<in>set as. asn_on_wire u a = a" "\<forall>a\<in>set bs. asn_on_wire u a = a"
  shows "as = bs"
proof -
  have "map (asn_wire u) as = map (asn_wire u) bs"
    using assms(1,2) by (intro concat_injective) (auto simp: zip_map_map set_zip)
  moreover have "inj_on (asn_wire u) (set as \<union> set bs)"
    using assms(3,4) by (auto intro!: inj_onI dest: asn_wire_inject)
  ultimately show ?thesis by (rule map_inj_on)
qed

lemma read_asns_wire:
  assumes "stream_ok s" "unread s = concat (map (asn_wire u) as) @ r" "\<forall>a\<in>set as. asn_on_wire u a = a"
  shows "\<exists>s'. read_n (get_asn u) (length as) s = Some (as, s') \<and> stream_ok s' \<and> unread s' = r"
proof -
  have "ASSEGMENT_DATA_SIZE (length as) u \<le> length (unread s)" by (simp add: assms(2))
  from read_asns [OF assms(1) this] obtain bs s'
    where s': "read_n (get_asn u) (length as) s = Some (bs, s')" "length bs = length as"
      "concat (map (asn_wire u) bs) = concat (map (asn_wire u) as)"
      "\<forall>a\<in>set bs. asn_on_wire u a = a" "stream_ok s'" "unread s' = r"
    by (auto simp: assms(2))
  have "bs = as" using asns_wire_inject [OF s'(3,2,4) assms(3)] .
  with s' show ?thesis by blast
qed

lemma chunk_okD:
  assumes "chunk_ok u seg"
  shows "segment_type_known (seg_type seg)" "unat (of_nat (seg_length seg) :: u8) = seg_length seg"
    "(of_nat (seg_length seg) :: u8) \<noteq> 0" "2 < ASSEGMENT_SIZE (seg_length seg) u"
    "\<forall>a\<in>set (seg_as seg). asn_on_wire u a = a"
proof -
  show n: "unat (of_nat (seg_length seg) :: u8) = seg_length seg"
    using assms by (simp add: chunk_ok_def unat_of_nat)
  have "seg_length seg \<noteq> 0" using assms by (simp add: chunk_ok_def)
  then show "(of_nat (seg_length seg) :: u8) \<noteq> 0" "2 < ASSEGMENT_SIZE (seg_length seg) u"
    using n by (auto simp: ASSEGMENT_SIZE_def AS_HEADER_SIZE_def ASSEGMENT_DATA_SIZE_def
        AS_VALUE_SIZE_def AS16_VALUE_SIZE_def)
qed (use assms in \<open>simp_all add: chunk_ok_def\<close>)

lemma parse_segments_complete:
  "stream_ok s \<Longrightarrow> list_all (chunk_ok u) chunks \<Longrightarrow> unread s = wire u chunks @ r \<Longrightarrow>
     \<exists>s'. parse_segments s (bytes + length (wire u chunks)) u bytes acc = Some (s', Some (acc @ chunks))
       \<and> stream_ok s' \<and> unread s' = r"
proof (induction chunks arbitrary: s bytes acc)
  case Nil
  then show ?case by (simp add: parse_segments.simps)
next
  case (Cons seg chunks)
  let ?len = "bytes + length (wire u (seg # chunks))"
  have ok: "chunk_ok u seg" using Cons.prems(2) by simp
  note d = chunk_okD [OF ok]
  have un: "unread s = seg_type seg # of_nat (seg_length seg)
      # concat (map (asn_wire u) (seg_as seg)) @ wire u chunks @ r"
    using Cons.prems(3) by (simp add: chunk_wire_def)
  obtain s1 where s1: "stream_getc s = Some (seg_type seg, s1)" "stream_ok s1"
      "unread s1 = of_nat (seg_length seg) # concat (map (asn_wire u) (seg_as seg)) @ wire u chunks @ r"
    using read_byte [OF Cons.prems(1) un] by blast
  obtain s2 where s2: "stream_getc s1 = Some (of_nat (seg_length seg), s2)" "stream_ok s2"
      "unread s2 = concat (map (asn_wire u) (seg_as seg)) @ wire u chunks @ r"
    using read_byte [OF s1(2,3)] by blast
  obtain s3 where s3: "read_n (get_asn u) (seg_length seg) s2 = Some (seg_as seg, s3)"
      "stream_ok s3" "unread s3 = wire u chunks @ r"
    using read_asns_wire [OF s2(2,3) d(5)] by blast
  have "parse_segments s ?len u bytes acc
      = parse_segments s3 ?len u (bytes + ASSEGMENT_SIZE (seg_length seg) u) (acc @ [seg])"
    using d s1(1) s2(1) s3(1)
    by (subst parse_segments.simps) (cases seg; auto simp: Let_def AS_HEADER_SIZE_def)
  then show ?case
    using Cons.IH [OF s3(2) _ s3(3), of "bytes + ASSEGMENT_SIZE (seg_length seg) u" "acc @ [seg]"]
      Cons.prems(2) by (simp add: add.assoc)
qed

lemma even_wire: "even (length (wire u chunks))"
  by (induction chunks) (auto simp: ASSEGMENT_SIZE_def AS_HEADER_SIZE_def ASSEGMENT_DATA_SIZE_def
      AS_VALUE_SIZE_def AS16_VALUE_SIZE_def)

lemma assegments_parse_complete:
  assumes "stream_ok s" "list_all (chunk_ok u) chunks" "unread s = wire u chunks @ r"
  shows "\<exists>s'. assegments_parse s (length (wire u chunks)) u = Some (s', Some (assegment_normalise chunks))
           \<and> stream_ok s' \<and> unread s' = r"
proof (cases chunks)
  case Nil
  then show ?thesis using assms by (simp add: assegments_parse_def)
next
  case (Cons seg segs)
  then have "2 < length (wire u chunks)"
    using chunk_okD(4) [of u seg] assms(2) by (simp add: trans_less_add1)
  then show ?thesis
    using parse_segments_complete [OF assms, of 0 "[]"] even_wire [of u chunks] assms(1,3)
    by (auto simp: assegments_parse_def stream_ok_readable AS_HEADER_SIZE_def AS16_VALUE_SIZE_def)
qed

text \<open>The first \<open>len\<close> bytes of \<open>b\<close> are the encoding of the segments \<open>chunks\<close>.\<close>

definition encodes :: "bool \<Rightarrow> u8 list \<Rightarrow> nat \<Rightarrow> assegment list \<Rightarrow> bool" where
  "encodes u b len chunks \<longleftrightarrow>
     list_all (chunk_ok u) chunks \<and> len \<le> length b \<and> wire u chunks = take len b"

lemma assegments_parse_accepts:
  assumes "stream_ok s" "encodes u (unread s) len chunks"
  shows "\<exists>s'. assegments_parse s len u = Some (s', Some (assegment_normalise chunks))
           \<and> stream_ok s' \<and> unread s' = drop len (unread s)"
proof -
  have e: "len \<le> length (unread s)" "wire u chunks = take len (unread s)"
    using assms(2) by (simp_all add: encodes_def)
  then have "length (wire u chunks) = len" "unread s = wire u chunks @ drop len (unread s)"
    by simp_all
  with assegments_parse_complete [OF assms(1), of u chunks "drop len (unread s)"] assms(2)
  show ?thesis by (simp add: encodes_def)
qed

lemma assegments_parse_rejects:
  assumes "stream_ok s" "\<And>chunks. \<not> encodes u (unread s) len chunks"
  shows "\<exists>s'. assegments_parse s len u = Some (s', None) \<and> stream_ok s'"
proof -
  have "len \<noteq> 0" using assms(2) [of "[]"] by (auto simp: encodes_def)
  show ?thesis
  proof (cases "STREAM_READABLE s < len \<or> STREAM_READABLE s < AS_HEADER_SIZE \<or> len mod AS16_VALUE_SIZE \<noteq> 0")
    case True
    then show ?thesis using assms(1) \<open>len \<noteq> 0\<close> by (simp add: assegments_parse_def)
  next
    case False
    then have le: "len - 0 \<le> length (unread s)" using assms(1) by (simp add: stream_ok_readable)
    from parse_segments_sound [OF assms(1) le0 le, of u "[]"] obtain s' r
      where r: "parse_segments s len u 0 [] = Some (s', r)" "stream_ok s'"
        "r = None \<or> (\<exists>chunks. encodes u (unread s) len chunks)"
      using le by (auto simp: encodes_def)
    with assms(2) have "r = None" by blast
    with r False \<open>len \<noteq> 0\<close> show ?thesis by (simp add: assegments_parse_def)
  qed
qed

text \<open>
  C14. The parser of the AS_PATH attribute is total and accepts exactly the encodings:
  on every well-formed stream it returns without a failed assertion and without
  touching memory outside the buffer, and it returns a path precisely when the
  \<open>len\<close> bytes in front of it are the encoding of a list of segments of known type
  with between 1 and 255 AS numbers each. The path is then the normal form of that
  list and exactly \<open>len\<close> bytes have been consumed.
\<close>

theorem assegments_parse_iff:
  assumes "stream_ok s"
  shows "\<exists>s' r. assegments_parse s len u = Some (s', r) \<and> stream_ok s'
           \<and> (\<forall>segs. r = Some segs \<longleftrightarrow>
                (\<exists>chunks. encodes u (unread s) len chunks \<and> segs = assegment_normalise chunks))
           \<and> (r \<noteq> None \<longrightarrow> unread s' = drop len (unread s))"
proof (cases "\<exists>chunks. encodes u (unread s) len chunks")
  case True
  then show ?thesis
    using assegments_parse_accepts [OF assms, of u len] by (metis Pair_inject option.inject)
next
  case False
  then show ?thesis using assegments_parse_rejects [OF assms, of u len] by auto
qed

theorem assegments_parse_iff_witness:
  "\<exists>s'. assegments_parse \<lparr>getp = 0, endp = 8, stream_size = 8, stream_data = [2, 1, 0, 7, 2, 1, 0, 9]\<rparr>
          8 False = Some (s', Some [\<lparr>seg_type = 2, seg_as = [7, 9]\<rparr>]) \<and> unread s' = []"
proof -
  let ?s = "\<lparr>getp = 0, endp = 8, stream_size = 8, stream_data = [2, 1, 0, 7, 2, 1, 0, 9]\<rparr>"
  let ?c = "[\<lparr>seg_type = 2, seg_as = [7]\<rparr>, \<lparr>seg_type = 2, seg_as = [9]\<rparr>]"
  have ok: "stream_ok ?s" by (simp add: stream_ok_def szmod_def)
  have un: "unread ?s = [2, 1, 0, 7, 2, 1, 0, 9]" by (simp add: unread_def span_def)
  have "encodes False (unread ?s) 8 ?c"
    by (simp add: un encodes_def chunk_ok_def segment_type_known_def asn_on_wire_def chunk_wire_def
        asn_wire_def be16_def)
  moreover have "assegment_normalise ?c = [\<lparr>seg_type = 2, seg_as = [7, 9]\<rparr>]"
    by (simp add: ASSEGMENT_TYPES_PACKABLE_def assegment_normalise_set_def fits.simps(2))
  ultimately have e: "\<exists>chunks. encodes False (unread ?s) 8 chunks
      \<and> [\<lparr>seg_type = 2, seg_as = [7, 9]\<rparr>] = assegment_normalise chunks"
    by metis
  obtain s' r where r: "assegments_parse ?s 8 False = Some (s', r)"
      "\<forall>segs. r = Some segs \<longleftrightarrow>
         (\<exists>chunks. encodes False (unread ?s) 8 chunks \<and> segs = assegment_normalise chunks)"
      "r \<noteq> None \<longrightarrow> unread s' = drop 8 (unread ?s)"
    using assegments_parse_iff [OF ok, of 8 False] by blast
  then have "r = Some [\<lparr>seg_type = 2, seg_as = [7, 9]\<rparr>]" using e by blast
  with r(1,3) show ?thesis by (simp add: un)
qed

subsection \<open>What \<open>aspath_put\<close> writes\<close>

lemma write_all_map: "write_all (\<lambda>s a. g s (f a)) s as = write_all g s (map f as)"
  by (induction as arbitrary: s) simp_all

lemma put_asn_32: "put_asn True = stream_putl"
  by (simp add: put_asn_def fun_eq_iff)

lemma put_asn_16: "put_asn False = (\<lambda>s a. stream_putw s (ucast (asn_on_wire False a)))"
  by (simp add: put_asn_def asn_on_wire_def fun_eq_iff)

lemma write_asns:
  assumes "stream_ok s" "ASSEGMENT_DATA_SIZE (length as) u \<le> room s"
  shows "\<exists>s'. write_all (put_asn u) s as = Some s' \<and> stream_ok s'
           \<and> unread s' = unread s @ concat (map (asn_wire u) as)
           \<and> room s' = room s - ASSEGMENT_DATA_SIZE (length as) u"
proof (cases u)
  case True
  then show ?thesis
    using sl.write_all_ok [OF assms(1), of as] assms(2)
    by (auto simp: put_asn_32 asn_wire_32 ASSEGMENT_DATA_SIZE_def AS_VALUE_SIZE_def)
next
  case False
  let ?ws = "map (\<lambda>a. ucast (asn_on_wire False a) :: u16) as"
  have w: "map (asn_wire False) as = map be16 ?ws" by (simp add: asn_wire_def)
  have "write_all (put_asn False) s as = write_all stream_putw s ?ws"
    unfolding put_asn_16 by (rule write_all_map)
  with w show ?thesis
    using sw.write_all_ok [OF assms(1), of ?ws] assms(2) False
    by (simp add: ASSEGMENT_DATA_SIZE_def AS16_VALUE_SIZE_def del: map_map) blast
qed

text \<open>A header and its data are one chunk.\<close>

lemma put_chunk:
  assumes "stream_ok s" "num \<le> AS_SEGMENT_MAX" "num \<le> length as" "ASSEGMENT_SIZE num u \<le> room s"
  shows "\<exists>s1 s2. assegment_header_put s type num = Some (endp s + 1, s1)
           \<and> assegment_data_put s1 as num u = Some s2 \<and> stream_ok s2
           \<and> unread s2 = unread s @ chunk_wire u \<lparr>seg_type = type, seg_as = take num as\<rparr>
           \<and> room s2 = room s - ASSEGMENT_SIZE num u"
proof -
  have r: "2 \<le> room s" "ASSEGMENT_DATA_SIZE num u \<le> room s - 2"
    using assms(4) by (auto simp: ASSEGMENT_SIZE_def AS_HEADER_SIZE_def)
  let ?s0 = "stream_append s [type]" and ?s1 = "stream_append (stream_append s [type]) [of_nat num]"
  have ok0: "stream_ok ?s0" "room ?s0 = room s - 1" "unread ?s0 = unread s @ [type]" "endp ?s0 = endp s + 1"
    using stream_append_ok [OF assms(1), of "[type]"] r by auto
  have ok1: "stream_ok ?s1" "room ?s1 = room s - 2" "unread ?s1 = unread s @ [type, of_nat num]"
    using stream_append_ok [OF ok0(1), of "[of_nat num]"] ok0 r by auto
  have "assegment_header_put s type num = Some (endp s + 1, ?s1)"
    using assms(1,2) ok0 ok1 r sc.put_room
    by (simp add: assegment_header_put_def stream_get_endp_def stream_ok_sane)
  moreover obtain s2 where "assegment_data_put ?s1 as num u = Some s2" "stream_ok s2"
      "unread s2 = unread ?s1 @ concat (map (asn_wire u) (take num as))"
      "room s2 = room ?s1 - ASSEGMENT_DATA_SIZE num u"
    using write_asns [OF ok1(1), of "take num as" u] assms(2,3) ok1(2) r(2)
    by (auto simp: assegment_data_put_def min_absorb2)
  ultimately show ?thesis
    using ok1 assms(3)
    by (auto simp: chunk_wire_def ASSEGMENT_SIZE_def AS_HEADER_SIZE_def min_absorb2)
qed

text \<open>The chunks that a segment is written as.\<close>

definition seg_chunks :: "assegment \<Rightarrow> assegment list" where
  "seg_chunks seg =
     (if seg_length seg \<le> AS_SEGMENT_MAX then [seg]
      else [\<lparr>seg_type = seg_type seg, seg_as = take 255 (seg_as seg)\<rparr>,
            \<lparr>seg_type = seg_type seg, seg_as = drop 255 (seg_as seg)\<rparr>])"

definition seg_writable :: "assegment \<Rightarrow> bool" where
  "seg_writable seg \<longleftrightarrow> segment_type_known (seg_type seg) \<and> seg_as seg \<noteq> []
     \<and> seg_length seg \<le> (if seg_type seg = AS_SEQUENCE then 510 else 255)"

lemma put_packed_normal:
  "segs_normal (seg # segs) \<Longrightarrow> put_packed s lenp seg written u 0 segs = Some (s, 0, segs)"
  by (cases segs) (auto simp: segs_normal_Cons ASSEGMENTS_PACKABLE_def)

lemma put_one_segment:
  assumes "stream_ok s" "segs_normal (seg # segs)" "seg_length seg \<le> 510"
    and "length (wire u (seg_chunks seg)) \<le> room s"
  shows "\<exists>s'. put_segments s (seg # segs) u bytes
             = put_segments s' segs u (bytes + length (wire u (seg_chunks seg)))
           \<and> stream_ok s' \<and> unread s' = unread s @ wire u (seg_chunks seg)
           \<and> room s' = room s - length (wire u (seg_chunks seg))"
proof (cases "seg_length seg \<le> 255")
  case True
  then have sz: "ASSEGMENT_SIZE (seg_length seg) u \<le> room s"
    using assms(4) by (simp add: seg_chunks_def)
  have over: "put_overlength s seg u 0 bytes = Some (s, 0, bytes)"
    using True by (simp add: put_overlength.simps)
  obtain s1 s2 where "assegment_header_put s (seg_type seg) (seg_length seg) = Some (endp s + 1, s1)"
      "assegment_data_put s1 (seg_as seg) (seg_length seg) u = Some s2" "stream_ok s2"
      "unread s2 = unread s @ chunk_wire u \<lparr>seg_type = seg_type seg, seg_as = take (seg_length seg) (seg_as seg)\<rparr>"
      "room s2 = room s - ASSEGMENT_SIZE (seg_length seg) u"
    using put_chunk [OF assms(1) _ _ sz, of "seg_as seg" "seg_type seg"] True by auto
  then show ?thesis
    using True sz assms(1,2) over
    by (intro exI [of _ s2])
       (cases seg; simp add: put_packed_normal seg_chunks_def stream_ok_writeable)
next
  case False
  let ?as = "seg_as seg" and ?t = "seg_type seg" and ?k = "seg_length seg - 255"
  have sz: "ASSEGMENT_SIZE 255 u + ASSEGMENT_SIZE ?k u \<le> room s"
    "ASSEGMENT_SIZE (seg_length seg) u \<le> room s"
    using assms(4) False
    by (simp_all add: seg_chunks_def min_absorb2)
       (simp_all add: ASSEGMENT_SIZE_def ASSEGMENT_DATA_SIZE_def AS_HEADER_SIZE_def AS_VALUE_SIZE_def
          AS16_VALUE_SIZE_def split: if_splits)
  obtain s1 s2 where 1: "assegment_header_put s ?t 255 = Some (endp s + 1, s1)"
      "assegment_data_put s1 ?as 255 u = Some s2" "stream_ok s2"
      "unread s2 = unread s @ chunk_wire u \<lparr>seg_type = ?t, seg_as = take 255 ?as\<rparr>"
      "room s2 = room s - ASSEGMENT_SIZE 255 u"
    using put_chunk [OF assms(1), of 255 ?as u ?t] False sz by auto
  have over: "put_overlength s seg u 0 bytes = Some (s2, 255, bytes + ASSEGMENT_SIZE 255 u)"
  proof -
    have "\<not> 255 < seg_length seg - 255" using assms(3) by arith
    with False 1 show ?thesis by (subst put_overlength.simps) (simp add: put_overlength.simps)
  qed
  have k: "?k \<le> 255" "ASSEGMENT_SIZE ?k u \<le> room s2" using assms(3) sz 1(5) by linarith+
  obtain s3 s4 where 2: "assegment_header_put s2 ?t ?k = Some (endp s2 + 1, s3)"
      "assegment_data_put s3 (drop 255 ?as) ?k u = Some s4" "stream_ok s4"
      "unread s4 = unread s2 @ chunk_wire u \<lparr>seg_type = ?t, seg_as = take ?k (drop 255 ?as)\<rparr>"
      "room s4 = room s2 - ASSEGMENT_SIZE ?k u"
    using put_chunk [OF 1(3) k(1) _ k(2), of "drop 255 ?as" ?t] by auto
  show ?thesis
    using False sz assms(1,2) over 1 2
    by (intro exI [of _ s4])
       (simp add: put_packed_normal seg_chunks_def stream_ok_writeable min_absorb2 add.assoc)
qed

lemma put_segments_wire:
  "stream_ok s \<Longrightarrow> segs_normal segs \<Longrightarrow> list_all seg_writable segs \<Longrightarrow>
     length (wire u (concat (map seg_chunks segs))) \<le> room s \<Longrightarrow>
     \<exists>s'. put_segments s segs u bytes = Some (bytes + length (wire u (concat (map seg_chunks segs))), s')
       \<and> stream_ok s' \<and> unread s' = unread s @ wire u (concat (map seg_chunks segs))"
proof (induction segs arbitrary: s bytes)
  case Nil
  then show ?case by simp
next
  case (Cons seg segs)
  have "seg_length seg \<le> 510" using Cons.prems(3) by (simp add: seg_writable_def split: if_splits)
  then obtain s1 where s1: "put_segments s (seg # segs) u bytes
             = put_segments s1 segs u (bytes + length (wire u (seg_chunks seg)))"
      "stream_ok s1" "unread s1 = unread s @ wire u (seg_chunks seg)"
      "room s1 = room s - length (wire u (seg_chunks seg))"
    using put_one_segment [OF Cons.prems(1,2), of u bytes] Cons.prems(4) by auto
  have "segs_normal segs" using Cons.prems(2) by (simp add: segs_normal_Cons)
  from Cons.IH [OF s1(2) this, of "bytes + length (wire u (seg_chunks seg))"] s1 Cons.prems(3,4)
  show ?case by (auto simp: add.assoc)
qed

text \<open>What a reader sees of a segment: AS numbers above 65535 are AS_TRANS on a 2-byte session.\<close>

definition seg_on_wire :: "bool \<Rightarrow> assegment \<Rightarrow> assegment" where
  "seg_on_wire u seg = seg\<lparr>seg_as := map (asn_on_wire u) (seg_as seg)\<rparr>"

lemma seg_on_wire_True: "seg_on_wire True seg = seg"
  by (cases seg) (simp add: seg_on_wire_def asn_on_wire_def map_idI)

lemma asn_on_wire_idem [simp]: "asn_on_wire u (asn_on_wire u a) = asn_on_wire u a"
  by (simp add: asn_on_wire_def)

lemma chunk_wire_on_wire [simp]: "chunk_wire u (seg_on_wire u seg) = chunk_wire u seg"
proof -
  have "asn_wire u (asn_on_wire u a) = asn_wire u a" for a
    by (cases u) (simp_all add: asn_wire_def asn_on_wire_def)
  then show ?thesis by (simp add: chunk_wire_def seg_on_wire_def comp_def)
qed

lemma wire_on_wire [simp]: "wire u (map (seg_on_wire u) segs) = wire u segs"
  by (induction segs) simp_all

lemma chunks_ok: "seg_writable seg \<Longrightarrow> list_all (chunk_ok u) (map (seg_on_wire u) (seg_chunks seg))"
  by (auto simp: seg_writable_def seg_chunks_def chunk_ok_def seg_on_wire_def split: if_splits)

lemma list_all_chunks_ok:
  "list_all seg_writable segs \<Longrightarrow>
     list_all (chunk_ok u) (map (seg_on_wire u) (concat (map seg_chunks segs)))"
  by (induction segs) (simp_all add: chunks_ok)

lemma cons_segment_join:
  "cons_segment \<lparr>seg_type = AS_SEQUENCE, seg_as = xs\<rparr>
     (cons_segment \<lparr>seg_type = AS_SEQUENCE, seg_as = ys\<rparr> segs)
   = cons_segment \<lparr>seg_type = AS_SEQUENCE, seg_as = xs @ ys\<rparr> segs"
  by (cases segs) (auto simp: ASSEGMENT_TYPES_PACKABLE_def)

lemma lead_on_wire [simp]: "lead (map (seg_on_wire u) segs) = lead segs"
  by (induction segs) (auto simp: seg_on_wire_def)

lemma fits_on_wire [simp]: "fits (map (seg_on_wire u) segs) = fits segs"
proof (induction segs)
  case (Cons seg segs)
  then show ?case using lead_on_wire [of u "seg # segs"] by (simp add: fits.simps(2) del: lead.simps)
qed simp

lemma normal_fits: "segs_normal segs \<Longrightarrow> list_all seg_writable segs \<Longrightarrow> fits segs"
proof (induction segs)
  case (Cons seg segs)
  have "lead segs = 0" if "seg_type seg = AS_SEQUENCE"
    using Cons.prems(1) that by (cases segs) (auto simp: segs_normal_Cons packable_type)
  then show ?case using Cons by (auto simp: fits.simps(2) segs_normal_Cons seg_writable_def split: if_splits)
qed simp

lemma lead_chunks: "lead (seg_chunks seg @ segs) = lead (seg # segs)"
  by (simp add: seg_chunks_def)

lemma fits_chunks_Cons: "fits (seg # segs) \<Longrightarrow> fits (seg_chunks seg @ segs)"
  by (auto simp: seg_chunks_def fits.simps(2))

lemma chunks_lead_fits:
  "fits segs \<Longrightarrow> fits (concat (map seg_chunks segs)) \<and> lead (concat (map seg_chunks segs)) = lead segs"
proof (induction segs)
  case (Cons seg segs)
  then have "fits (seg # concat (map seg_chunks segs))" by (auto simp: fits.simps(2))
  then show ?case
    using Cons fits_chunks_Cons [of seg "concat (map seg_chunks segs)"]
      lead_chunks [of seg "concat (map seg_chunks segs)"] by (auto simp: fits.simps(2))
qed simp

lemma normalise_chunks:
  "list_all seg_writable segs \<Longrightarrow> fits segs \<Longrightarrow>
     assegment_normalise (map (seg_on_wire u) (concat (map seg_chunks segs)))
     = assegment_normalise (map (seg_on_wire u) segs)"
proof (induction segs)
  case Nil
  then show ?case by simp
next
  case (Cons seg segs)
  let ?rest = "map (seg_on_wire u) (concat (map seg_chunks segs))"
  have fit: "fits (map (seg_on_wire u) (seg_chunks seg) @ ?rest)" "fits (map (seg_on_wire u) (seg # segs))"
    using chunks_lead_fits [OF Cons.prems(2)] Cons.prems(2) fits_on_wire [of u "concat (map seg_chunks (seg # segs))"]
      fits_on_wire [of u "seg # segs"] by simp_all
  have IH: "assegment_normalise ?rest = assegment_normalise (map (seg_on_wire u) segs)"
    using Cons by (simp add: fits_tl)
  show ?case
  proof (cases "seg_length seg \<le> 255")
    case True
    then have "seg_chunks seg = [seg]" by (simp add: seg_chunks_def)
    with fit IH show ?thesis by simp
  next
    case False
    with Cons.prems have t: "seg_type seg = AS_SEQUENCE"
      by (simp add: seg_writable_def split: if_splits)
    let ?a = "seg_on_wire u \<lparr>seg_type = seg_type seg, seg_as = take 255 (seg_as seg)\<rparr>"
      and ?b = "seg_on_wire u \<lparr>seg_type = seg_type seg, seg_as = drop 255 (seg_as seg)\<rparr>"
    have "map (seg_on_wire u) (seg_chunks seg) = [?a, ?b]" using False by (simp add: seg_chunks_def)
    with fit(1) have fits: "fits (?a # ?b # ?rest)" "fits (?b # ?rest)" using fits_tl [of ?a "?b # ?rest"] by simp_all
    have "map (asn_on_wire u) (take 255 (seg_as seg)) @ map (asn_on_wire u) (drop 255 (seg_as seg))
        = map (asn_on_wire u) (seg_as seg)"
      by (simp flip: map_append)
    then have "assegment_normalise (?a # ?b # ?rest) = assegment_normalise (map (seg_on_wire u) (seg # segs))"
      using t IH fits fit(2)
      by (cases seg) (simp add: seg_on_wire_def assegment_normalise_set_def cons_segment_join)
    then show ?thesis using \<open>map (seg_on_wire u) (seg_chunks seg) = [?a, ?b]\<close> by simp
  qed
qed



text \<open>\<open>k\<close> rounds of the loop over the full chunks: each of them writes the first 255 AS numbers.\<close>

lemma put_overlength_chunks:
  assumes "stream_ok s" "written + 255 * k < seg_length seg" "seg_length seg \<le> written + 255 * k + 255"
    and "k * ASSEGMENT_SIZE 255 u \<le> room s"
  shows "\<exists>s'. put_overlength s seg u written bytes
        = Some (s', written + 255 * k, bytes + (\<Sum>j<k. ASSEGMENT_SIZE (written + 255 * Suc j) u))
      \<and> stream_ok s' \<and> unread s' = unread s @ wire u (replicate k \<lparr>seg_type = seg_type seg, seg_as = take 255 (seg_as seg)\<rparr>)
      \<and> room s' = room s - k * ASSEGMENT_SIZE 255 u"
  using assms
proof (induction k arbitrary: s written bytes)
  case 0
  then have "\<not> 255 < seg_length seg - written" by simp
  with 0 show ?case by (simp add: put_overlength.simps)
next
  case (Suc k)
  let ?c = "\<lparr>seg_type = seg_type seg, seg_as = take 255 (seg_as seg)\<rparr>"
  obtain s1 s2 where 1: "assegment_header_put s (seg_type seg) 255 = Some (endp s + 1, s1)"
      "assegment_data_put s1 (seg_as seg) 255 u = Some s2" "stream_ok s2"
      "unread s2 = unread s @ chunk_wire u ?c" "room s2 = room s - ASSEGMENT_SIZE 255 u"
    using put_chunk [OF Suc.prems(1), of 255 "seg_as seg" u "seg_type seg"] Suc.prems(2,4) by auto
  have "255 < seg_length seg - written" using Suc.prems(2) by simp
  then have "put_overlength s seg u written bytes
      = put_overlength s2 seg u (written + 255) (bytes + ASSEGMENT_SIZE (written + 255) u)"
    using 1(1,2) by (subst put_overlength.simps) simp
  moreover have "(\<Sum>j<Suc k. ASSEGMENT_SIZE (written + 255 * Suc j) u)
      = ASSEGMENT_SIZE (written + 255) u + (\<Sum>j<k. ASSEGMENT_SIZE (written + 255 + 255 * Suc j) u)"
    by (subst sum.lessThan_Suc_shift) (simp add: add.assoc)
  moreover have "k * ASSEGMENT_SIZE 255 u \<le> room s2" using Suc.prems(4) 1(5) by simp
  ultimately show ?case
    using Suc.IH [OF 1(3), of "written + 255" "bytes + ASSEGMENT_SIZE (written + 255) u"] Suc.prems(2,3) 1(4,5)
    by (auto simp: add.assoc)
qed

lemma overlength_excess:
  "(\<Sum>j<k. ASSEGMENT_SIZE (255 * Suc j) u) = k * ASSEGMENT_SIZE 255 u + (k * (k - 1) div 2) * ASSEGMENT_DATA_SIZE 255 u"
proof -
  have d: "ASSEGMENT_SIZE (255 * Suc j) u = ASSEGMENT_SIZE 255 u + j * ASSEGMENT_DATA_SIZE 255 u" for j
    by (simp add: ASSEGMENT_SIZE_def ASSEGMENT_DATA_SIZE_def algebra_simps)
  have "(\<Sum>j<k. j) = k * (k - 1) div 2"
    by (cases k) (simp_all add: lessThan_Suc_atMost atMost_atLeast0 gauss_sum_nat mult.commute)
  then show ?thesis unfolding d sum.distrib by (simp flip: sum_distrib_right)
qed



end
