(* ===== verification/Hash.thy ===== *)
theory Hash
  imports Byte_Stream
begin

text \<open>
  \<open>lib/hash.c\<close>: the chained hash table behind the interning of AS paths,
  communities, attributes and Tarpan attributes. A \<open>struct hash_backet\<close> is the
  record \<open>backet\<close> and a chain is a list of them, head first. The table stores
  untyped pointers, here of type \<open>'d\<close>; the function pointers \<open>hash_key\<close> and
  \<open>hash_cmp\<close>, which read the memory behind those, are arguments of the operations,
  and the memory that an allocation function changes is threaded as \<open>'m\<close>.

  The contract is \<open>hash_ok\<close>: the size is a power of two and every entry hangs off
  the slot its key selects. Under it each operation is described by its effect on
  the bag \<open>entries\<close> of all entries, in which the layout of the table and its
  expansion are invisible.
\<close>

record 'd backet =
  backet_key :: u32
  backet_data :: 'd

record 'd hash =
  hash_index :: "'d backet list list"
  hash_size :: u32
  no_expand :: bool
  hash_count :: nat

definition HASH_INITIAL_SIZE :: u32 where "HASH_INITIAL_SIZE = 256"

definition HASH_THRESHOLD :: nat where "HASH_THRESHOLD = 10"

definition hash_create_size :: "u32 \<Rightarrow> 'd hash option" where
  "hash_create_size sz = do {
     assert_that (sz AND (sz - 1) = 0);
     Some \<lparr>hash_index = replicate (unat sz) [], hash_size = sz, no_expand = False, hash_count = 0\<rparr> }"

definition hash_create :: "'d hash option" where
  "hash_create = hash_create_size HASH_INITIAL_SIZE"

definition hash_alloc_intern :: "'m \<Rightarrow> 'd \<Rightarrow> 'd option \<times> 'm" where
  "hash_alloc_intern m arg = (Some arg, m)"

subsection \<open>Expansion\<close>

definition slot_of :: "u32 \<Rightarrow> u32 \<Rightarrow> nat" where
  "slot_of sz key = unat (key AND (sz - 1))"

definition push_backet :: "u32 \<Rightarrow> 'd backet list list \<Rightarrow> 'd backet \<Rightarrow> 'd backet list list" where
  "push_backet sz index hb =
     (let i = slot_of sz (backet_key hb) in index[i := hb # index ! i])"

text \<open>The pass over one chain that counts its entries beyond half the threshold.\<close>

fun chain_losers :: "'d backet list \<Rightarrow> nat \<Rightarrow> nat \<Rightarrow> bool \<Rightarrow> nat \<times> bool" where
  "chain_losers [] len losers stop = (losers, stop)"
| "chain_losers (hb # hbs) len losers stop =
     chain_losers hbs (len + 1)
       (if HASH_THRESHOLD div 2 < len + 1 then losers + 1 else losers)
       (stop \<or> HASH_THRESHOLD \<le> len + 1)"

definition hash_expand :: "'d hash \<Rightarrow> 'd hash" where
  "hash_expand h =
     (let new_size = hash_size h * 2;
          new_index = foldl (push_backet new_size) (replicate (unat new_size) [])
                        (concat (hash_index h));
          (losers, stop) = foldl (\<lambda>(losers, stop) chain. chain_losers chain 0 losers stop)
                             (0, no_expand h) new_index
      in h\<lparr>hash_index := new_index, hash_size := new_size,
           no_expand := stop \<or> hash_count h div 2 < losers\<rparr>)"

subsection \<open>Lookup, insertion and removal\<close>

fun chain_find :: "('d \<Rightarrow> 'd \<Rightarrow> bool) \<Rightarrow> u32 \<Rightarrow> 'd \<Rightarrow> 'd backet list \<Rightarrow> 'd option" where
  "chain_find cmp key d [] = None"
| "chain_find cmp key d (b # bs) =
     (if backet_key b = key \<and> cmp (backet_data b) d then Some (backet_data b)
      else chain_find cmp key d bs)"

definition hash_get :: "('d \<Rightarrow> u32) \<Rightarrow> ('d \<Rightarrow> 'd \<Rightarrow> bool) \<Rightarrow> 'd hash \<Rightarrow> 'd
    \<Rightarrow> ('m \<Rightarrow> 'd \<Rightarrow> 'd option \<times> 'm) option \<Rightarrow> 'm \<Rightarrow> 'd option \<times> 'd hash \<times> 'm" where
  "hash_get hash_key hash_cmp h data alloc_func m =
     (let key = hash_key data;
          chain = hash_index h ! slot_of (hash_size h) key
      in case chain_find hash_cmp key data chain of
           Some d \<Rightarrow> (Some d, h, m)
         | None \<Rightarrow>
             (case alloc_func of
                None \<Rightarrow> (None, h, m)
              | Some alloc \<Rightarrow>
                  (case alloc m data of
                     (None, m) \<Rightarrow> (None, h, m)
                   | (Some newdata, m) \<Rightarrow>
                       (let h = (if HASH_THRESHOLD < length chain \<and> \<not> no_expand h
                                 then hash_expand h else h);
                            b = \<lparr>backet_key = key, backet_data = newdata\<rparr>
                        in (Some newdata,
                            h\<lparr>hash_index := push_backet (hash_size h) (hash_index h) b,
                              hash_count := hash_count h + 1\<rparr>, m)))))"

definition hash_lookup :: "('d \<Rightarrow> u32) \<Rightarrow> ('d \<Rightarrow> 'd \<Rightarrow> bool) \<Rightarrow> 'd hash \<Rightarrow> 'd \<Rightarrow> 'd option" where
  "hash_lookup hash_key hash_cmp h data = fst (hash_get hash_key hash_cmp h data None ())"

text \<open>The chain without its first matching entry, and the pointer that entry held.\<close>

fun chain_release :: "('d \<Rightarrow> 'd \<Rightarrow> bool) \<Rightarrow> u32 \<Rightarrow> 'd \<Rightarrow> 'd backet list \<Rightarrow> ('d \<times> 'd backet list) option" where
  "chain_release cmp key d [] = None"
| "chain_release cmp key d (b # bs) =
     (if backet_key b = key \<and> cmp (backet_data b) d then Some (backet_data b, bs)
      else map_option (\<lambda>(ret, bs). (ret, b # bs)) (chain_release cmp key d bs))"

definition hash_release :: "('d \<Rightarrow> u32) \<Rightarrow> ('d \<Rightarrow> 'd \<Rightarrow> bool) \<Rightarrow> 'd hash \<Rightarrow> 'd \<Rightarrow> 'd option \<times> 'd hash" where
  "hash_release hash_key hash_cmp h data =
     (let key = hash_key data; i = slot_of (hash_size h) key
      in case chain_release hash_cmp key data (hash_index h ! i) of
           None \<Rightarrow> (None, h)
         | Some (ret, chain) \<Rightarrow>
             (Some ret, h\<lparr>hash_index := (hash_index h)[i := chain], hash_count := hash_count h - 1\<rparr>))"

definition hash_iterate :: "('d backet \<Rightarrow> 'a \<Rightarrow> 'a) \<Rightarrow> 'd hash \<Rightarrow> 'a \<Rightarrow> 'a" where
  "hash_iterate func h arg = fold func (concat (hash_index h)) arg"

definition hash_clean :: "('d \<Rightarrow> 'm \<Rightarrow> 'm) option \<Rightarrow> 'd hash \<Rightarrow> 'm \<Rightarrow> 'd hash \<times> 'm" where
  "hash_clean free_func h m =
     (h\<lparr>hash_index := map (\<lambda>_. []) (hash_index h),
        hash_count := hash_count h - length (concat (hash_index h))\<rparr>,
      case free_func of None \<Rightarrow> m | Some f \<Rightarrow> fold (\<lambda>hb. f (backet_data hb)) (concat (hash_index h)) m)"

text \<open>The Bernstein hash of a string; \<open>char\<close> is signed, so a byte is sign-extended.\<close>

fun string_hash_from :: "u32 \<Rightarrow> u8 list \<Rightarrow> u32" where
  "string_hash_from hash [] = hash"
| "string_hash_from hash (c # cs) =
     (if c = 0 then hash else string_hash_from ((hash * 33) XOR scast c) cs)"

definition string_hash_make :: "u8 list \<Rightarrow> u32" where
  "string_hash_make str = string_hash_from 0 str"

subsection \<open>The contract\<close>

definition hash_ok :: "'d hash \<Rightarrow> bool" where
  "hash_ok h \<longleftrightarrow> (\<exists>k<32. hash_size h = 2 ^ k \<and> length (hash_index h) = 2 ^ k)
     \<and> (\<forall>i<length (hash_index h). \<forall>b\<in>set (hash_index h ! i).
          slot_of (hash_size h) (backet_key b) = i)
     \<and> hash_count h = length (concat (hash_index h))"

definition entries :: "'d hash \<Rightarrow> 'd backet multiset" where
  "entries h = mset (concat (hash_index h))"

definition matches :: "('d \<Rightarrow> u32) \<Rightarrow> ('d \<Rightarrow> 'd \<Rightarrow> bool) \<Rightarrow> 'd \<Rightarrow> 'd backet \<Rightarrow> bool" where
  "matches key cmp d b \<longleftrightarrow> backet_key b = key d \<and> cmp (backet_data b) d"

lemma slot_of_power: "k < 32 \<Longrightarrow> slot_of (2 ^ k) key = unat key mod 2 ^ k"
  by (simp add: slot_of_def flip: mask_eq_exp_minus_1 take_bit_eq_mask)
     (simp add: unsigned_take_bit_eq flip: take_bit_eq_mod)

lemma slot_of_less: "k < 32 \<Longrightarrow> slot_of (2 ^ k) key < 2 ^ k"
  by (simp add: slot_of_power)

lemma unat_power_32: "k < 32 \<Longrightarrow> unat (2 ^ k :: u32) = 2 ^ k"
proof -
  assume "k < 32"
  then have "(2 :: nat) ^ k < 2 ^ 32" by (rule power_strict_increasing) simp
  moreover have "unat (of_nat (2 ^ k) :: u32) = 2 ^ k mod 2 ^ 32"
    unfolding unat_of_nat by simp
  ultimately show ?thesis by simp
qed

lemma mset_concat_update:
  "i < length xss \<Longrightarrow> mset (concat (xss[i := ys])) + mset (xss ! i) = mset (concat xss) + mset ys"
  by (induction xss arbitrary: i) (auto simp: nth_Cons split: nat.splits)

lemma mset_push:
  "i < length xss \<Longrightarrow> mset (concat (xss[i := y # xss ! i])) = add_mset y (mset (concat xss))"
  using mset_concat_update [of i xss "y # xss ! i"] by simp

lemma hash_okE:
  assumes "hash_ok h"
  obtains k where "k < 32" "hash_size h = 2 ^ k" "length (hash_index h) = 2 ^ k"
  using assms by (auto simp: hash_ok_def)

lemma hash_ok_slot: "hash_ok h \<Longrightarrow> slot_of (hash_size h) key < length (hash_index h)"
  by (auto elim!: hash_okE simp: slot_of_less)

lemma hash_ok_count: "hash_ok h \<Longrightarrow> hash_count h = size (entries h)"
  by (simp add: hash_ok_def entries_def)

text \<open>A chain holds exactly the entries whose key selects its slot.\<close>

lemma chain_entries:
  assumes "hash_ok h"
  shows "b \<in> set (hash_index h ! slot_of (hash_size h) key) \<longleftrightarrow>
           b \<in># entries h \<and> slot_of (hash_size h) (backet_key b) = slot_of (hash_size h) key"
  using assms hash_ok_slot [OF assms, of key]
  by (auto simp: hash_ok_def entries_def in_set_conv_nth) (metis nth_mem)+

lemma hash_create_ok: "hash_create = Some h \<Longrightarrow> hash_ok h \<and> entries h = {#}"
  by (auto simp: hash_create_def hash_create_size_def HASH_INITIAL_SIZE_def hash_ok_def entries_def
      intro!: exI [of _ 8])

lemma hash_create_total: "\<exists>h. hash_create = Some h"
  by (simp add: hash_create_def hash_create_size_def HASH_INITIAL_SIZE_def)

subsection \<open>Expansion keeps the entries\<close>

definition index_ok :: "u32 \<Rightarrow> 'd backet list list \<Rightarrow> bool" where
  "index_ok sz index \<longleftrightarrow>
     (\<forall>i<length index. \<forall>b\<in>set (index ! i). slot_of sz (backet_key b) = i)"

lemma push_backet_ok:
  assumes "slot_of sz (backet_key b) < length index" "index_ok sz index"
  shows "index_ok sz (push_backet sz index b)" "length (push_backet sz index b) = length index"
    "mset (concat (push_backet sz index b)) = add_mset b (mset (concat index))"
  using assms by (auto simp: index_ok_def push_backet_def Let_def mset_push nth_list_update)

lemma foldl_push:
  "(\<And>key. slot_of sz key < length index) \<Longrightarrow> index_ok sz index \<Longrightarrow>
     index_ok sz (foldl (push_backet sz) index bs)
     \<and> length (foldl (push_backet sz) index bs) = length index
     \<and> mset (concat (foldl (push_backet sz) index bs)) = mset bs + mset (concat index)"
proof (induction bs arbitrary: index)
  case Nil
  then show ?case by simp
next
  case (Cons b bs)
  note p = push_backet_ok [OF Cons.prems(1) Cons.prems(2), of b]
  show ?case using Cons.IH [OF _ p(1)] p(2,3) Cons.prems(1) by simp
qed

lemma hash_expand_ok:
  assumes "hash_ok h" "hash_size h < 2 ^ 31"
  shows "hash_ok (hash_expand h)" "entries (hash_expand h) = entries h"
proof -
  obtain k where k: "k < 32" "hash_size h = 2 ^ k" "length (hash_index h) = 2 ^ k"
    using assms(1) by (rule hash_okE)
  have "(2 :: nat) ^ k < 2 ^ 31"
    using assms(2) k(1,2) unat_power_32 [of k] unat_power_32 [of 31] by (simp add: word_less_nat_alt)
  then have k': "k + 1 < 32" using power_less_imp_less_exp [of "2 :: nat" k 31] by simp
  let ?sz = "2 ^ (k + 1) :: u32" and ?n = "replicate (2 ^ (k + 1)) [] :: 'a backet list list"
  have sz: "hash_size h * 2 = ?sz" by (simp add: k(2) mult.commute)
  have len: "unat ?sz = 2 ^ (k + 1)" using k' by (rule unat_power_32)
  have "index_ok ?sz ?n" by (simp add: index_ok_def)
  moreover have "slot_of ?sz key < length ?n" for key
    using slot_of_less [OF k'] by simp
  ultimately have f: "index_ok ?sz (foldl (push_backet ?sz) ?n (concat (hash_index h)))"
    "length (foldl (push_backet ?sz) ?n (concat (hash_index h))) = 2 ^ (k + 1)"
    "mset (concat (foldl (push_backet ?sz) ?n (concat (hash_index h)))) = mset (concat (hash_index h))"
    using foldl_push [of ?sz ?n "concat (hash_index h)"] by auto
  have e: "hash_index (hash_expand h) = foldl (push_backet ?sz) ?n (concat (hash_index h))"
    "hash_size (hash_expand h) = ?sz" "hash_count (hash_expand h) = hash_count h"
    unfolding hash_expand_def Let_def sz len by (simp_all split: prod.splits)
  show "entries (hash_expand h) = entries h" using f(3) by (simp add: entries_def e)
  moreover have "hash_count h = size (entries h)" using assms(1) by (rule hash_ok_count)
  ultimately have "hash_count (hash_expand h) = size (entries (hash_expand h))" by (simp add: e(3))
  then show "hash_ok (hash_expand h)"
    using f(1,2) k' by (auto simp: hash_ok_def e index_ok_def entries_def intro!: exI [of _ "Suc k"])
qed

subsection \<open>Operations on the bag of entries\<close>

lemma chain_find_None:
  "chain_find cmp (key d) d bs = None \<longleftrightarrow> (\<forall>b\<in>set bs. \<not> matches key cmp d b)"
  by (induction bs) (auto simp: matches_def)

lemma chain_find_Some:
  "chain_find cmp (key d) d bs = Some x \<Longrightarrow> \<exists>b\<in>set bs. matches key cmp d b \<and> backet_data b = x"
  by (induction bs) (auto simp: matches_def split: if_splits)

lemma hash_lookup_None:
  assumes "hash_ok h"
  shows "hash_lookup key cmp h d = None \<longleftrightarrow> (\<forall>b\<in>#entries h. \<not> matches key cmp d b)"
proof -
  have "hash_lookup key cmp h d = chain_find cmp (key d) d (hash_index h ! slot_of (hash_size h) (key d))"
    by (simp add: hash_lookup_def hash_get_def Let_def split: option.splits)
  then show ?thesis
    using chain_entries [OF assms, of _ "key d"] by (auto simp: chain_find_None matches_def)
qed

lemma hash_lookup_Some:
  assumes "hash_ok h" "hash_lookup key cmp h d = Some x"
  shows "\<exists>b\<in>#entries h. matches key cmp d b \<and> backet_data b = x"
proof -
  have "chain_find cmp (key d) d (hash_index h ! slot_of (hash_size h) (key d)) = Some x"
    using assms(2) by (simp add: hash_lookup_def hash_get_def Let_def split: option.splits)
  from chain_find_Some [of cmp key, OF this] show ?thesis using chain_entries [OF assms(1)] by blast
qed

lemma hash_lookup_chain:
  "hash_lookup key cmp h d = chain_find cmp (key d) d (hash_index h ! slot_of (hash_size h) (key d))"
  by (simp add: hash_lookup_def hash_get_def Let_def split: option.splits)

lemma hash_get_hit:
  "hash_lookup key cmp h d = Some x \<Longrightarrow> hash_get key cmp h d alloc m = (Some x, h, m)"
  by (simp add: hash_lookup_chain hash_get_def)

lemma hash_push_ok:
  fixes b :: "'d backet"
  assumes "hash_ok (h :: 'd hash)"
  defines "h' \<equiv> h\<lparr>hash_index := push_backet (hash_size h) (hash_index h) b, hash_count := hash_count h + 1\<rparr>"
  shows "hash_ok h'" "entries h' = add_mset b (entries h)"
proof -
  have i: "index_ok (hash_size h) (hash_index h)"
    using assms(1) by (auto simp: hash_ok_def index_ok_def)
  note p = push_backet_ok [OF hash_ok_slot [OF assms(1)] i, of b]
  show e: "entries h' = add_mset b (entries h)"
    using p(3) by (simp add: h'_def entries_def)
  then have "hash_count h' = size (entries h')"
    using hash_ok_count [OF assms(1)] by (simp add: h'_def)
  then show "hash_ok h'"
    using assms(1) p(1,2) by (auto simp: hash_ok_def h'_def entries_def index_ok_def)
qed

lemma hash_get_miss:
  assumes "hash_ok h" "hash_size h < 2 ^ 31" "hash_lookup key cmp h d = None" "alloc m d = (Some x, m')"
  shows "\<exists>h'. hash_get key cmp h d (Some alloc) m = (Some x, h', m') \<and> hash_ok h'
           \<and> entries h' = add_mset \<lparr>backet_key = key d, backet_data = x\<rparr> (entries h)"
proof -
  define h1 where "h1 = (if HASH_THRESHOLD < length (hash_index h ! slot_of (hash_size h) (key d))
      \<and> \<not> no_expand h then hash_expand h else h)"
  have 1: "hash_ok h1" "entries h1 = entries h"
    using assms(1) hash_expand_ok [OF assms(1,2)] by (auto simp: h1_def)
  show ?thesis
    using hash_push_ok [OF 1(1), of "\<lparr>backet_key = key d, backet_data = x\<rparr>"] 1(2) assms(3,4)
    by (simp add: hash_get_def hash_lookup_chain Let_def flip: h1_def)
qed

lemma chain_release_None:
  "chain_release cmp (key d) d bs = None \<longleftrightarrow> chain_find cmp (key d) d bs = None"
  by (induction bs) auto

lemma chain_release_Some:
  "chain_find cmp (key d) d bs = Some x \<Longrightarrow>
     \<exists>b cs. chain_release cmp (key d) d bs = Some (x, cs) \<and> matches key cmp d b \<and> backet_data b = x
       \<and> mset bs = add_mset b (mset cs) \<and> set cs \<subseteq> set bs"
proof (induction bs)
  case Nil
  then show ?case by simp
next
  case (Cons c bs)
  show ?case
  proof (cases "matches key cmp d c")
    case True
    with Cons.prems show ?thesis by (auto simp: matches_def)
  next
    case False
    with Cons obtain b cs where "chain_release cmp (key d) d bs = Some (x, cs)" "matches key cmp d b"
        "backet_data b = x" "mset bs = add_mset b (mset cs)" "set cs \<subseteq> set bs"
      by (auto simp: matches_def split: if_splits)
    with False show ?thesis
      by (intro exI [of _ b] exI [of _ "c # cs"]) (auto simp: matches_def)
  qed
qed

lemma index_ok_update:
  "index_ok sz index \<Longrightarrow> i < length index \<Longrightarrow> set cs \<subseteq> set (index ! i) \<Longrightarrow>
     index_ok sz (index[i := cs])"
  by (auto simp: index_ok_def nth_list_update split: if_splits)

lemma hash_release_miss:
  "hash_lookup key cmp h d = None \<Longrightarrow> hash_release key cmp h d = (None, h)"
  by (simp add: hash_lookup_chain hash_release_def Let_def flip: chain_release_None [where key = key])

lemma hash_release_hit:
  assumes "hash_ok h" "hash_lookup key cmp h d = Some x"
  shows "\<exists>b h'. hash_release key cmp h d = (Some x, h') \<and> hash_ok h' \<and> matches key cmp d b
           \<and> backet_data b = x \<and> entries h = add_mset b (entries h') \<and> hash_size h' = hash_size h"
proof -
  let ?i = "slot_of (hash_size h) (key d)"
  from chain_release_Some [of cmp key, OF assms(2) [unfolded hash_lookup_chain]] obtain b cs
    where b: "chain_release cmp (key d) d (hash_index h ! ?i) = Some (x, cs)" "matches key cmp d b"
      "backet_data b = x" "mset (hash_index h ! ?i) = add_mset b (mset cs)"
      "set cs \<subseteq> set (hash_index h ! ?i)"
    by blast
  define h' where "h' = h\<lparr>hash_index := (hash_index h)[?i := cs], hash_count := hash_count h - 1\<rparr>"
  have e: "entries h = add_mset b (entries h')"
    using mset_concat_update [OF hash_ok_slot [OF assms(1), of "key d"], of cs] b(4)
    by (simp add: entries_def h'_def)
  moreover have "hash_count h' = hash_count h - 1" by (simp add: h'_def)
  ultimately have "hash_count h' = size (entries h')" using hash_ok_count [OF assms(1)] by simp
  moreover have "index_ok (hash_size h) ((hash_index h)[?i := cs])"
    using assms(1) b(5) hash_ok_slot [OF assms(1)]
    by (intro index_ok_update) (auto simp: hash_ok_def index_ok_def)
  ultimately have "hash_ok h'"
    using assms(1) by (auto simp: hash_ok_def h'_def entries_def index_ok_def)
  with b e show ?thesis
    by (intro exI [of _ b] exI [of _ h']) (simp add: hash_release_def Let_def h'_def)
qed

end
