(* ===== verification/Interning.thy ===== *)
theory Interning
  imports Hash
begin

text \<open>
  The discipline shared by the interned objects of \<open>bgpd\<close> (AS paths, communities,
  Tarpan attributes): a reference-counted object is entered in a hash table, an
  equal object interned later is freed in favour of the one in the table, and the
  last release takes the object out of the table and frees it.

  Memory is a partial function from addresses to objects, so a use after a free is
  visible. \<open>intern_object\<close> and \<open>unintern_object\<close> are the common shape of the
  \<open>*_intern\<close> and \<open>*_unintern\<close> functions; a component states that its own functions
  have that shape by interpreting the locale \<open>interning\<close>, and gets the soundness of
  reference counting from it: with \<open>H\<close> the bag of the references its clients hold,
  \<open>intern_inv\<close> holds in every reachable state.
\<close>

record 'o interned =
  objs :: "nat \<Rightarrow> 'o option"
  table :: "nat hash"

text \<open>The key and the comparison that the table computes from the memory behind its pointers.\<close>

definition pkey :: "(nat \<Rightarrow> 'o option) \<Rightarrow> ('o \<Rightarrow> u32) \<Rightarrow> nat \<Rightarrow> u32" where
  "pkey mem key p = (case mem p of None \<Rightarrow> 0 | Some x \<Rightarrow> key x)"

definition pcmp :: "(nat \<Rightarrow> 'o option) \<Rightarrow> ('o \<Rightarrow> 'o \<Rightarrow> bool) \<Rightarrow> nat \<Rightarrow> nat \<Rightarrow> bool" where
  "pcmp mem cmp p q = (case (mem p, mem q) of (Some x, Some y) \<Rightarrow> cmp x y | _ \<Rightarrow> False)"

definition intern_object :: "('o \<Rightarrow> nat) \<Rightarrow> (nat \<Rightarrow> 'o \<Rightarrow> 'o) \<Rightarrow> ('o \<Rightarrow> u32) \<Rightarrow> ('o \<Rightarrow> 'o \<Rightarrow> bool)
    \<Rightarrow> 'o interned \<Rightarrow> nat \<Rightarrow> (nat \<times> 'o interned) option" where
  "intern_object refcnt set_refcnt key cmp st p = do {
     x \<leftarrow> objs st p;
     assert_that (refcnt x = 0);
     let (find, tab, u) = hash_get (pkey (objs st) key) (pcmp (objs st) cmp) (table st) p
                            (Some hash_alloc_intern) ();
     find \<leftarrow> find;
     let mem = (if find \<noteq> p then (objs st)(p := None) else objs st);
     y \<leftarrow> mem find;
     Some (find, \<lparr>objs = mem(find \<mapsto> set_refcnt (refcnt y + 1) y), table = tab\<rparr>) }"

definition unintern_object :: "('o \<Rightarrow> nat) \<Rightarrow> (nat \<Rightarrow> 'o \<Rightarrow> 'o) \<Rightarrow> ('o \<Rightarrow> u32) \<Rightarrow> ('o \<Rightarrow> 'o \<Rightarrow> bool)
    \<Rightarrow> 'o interned \<Rightarrow> nat \<Rightarrow> 'o interned option" where
  "unintern_object refcnt set_refcnt key cmp st p = do {
     x \<leftarrow> objs st p;
     let x = (if refcnt x \<noteq> 0 then set_refcnt (refcnt x - 1) x else x);
     let mem = (objs st)(p \<mapsto> x);
     if refcnt x = 0 then do {
       let (ret, tab) = hash_release (pkey mem key) (pcmp mem cmp) (table st) p;
       assert_that (ret \<noteq> None);
       Some \<lparr>objs = mem(p := None), table = tab\<rparr> }
     else Some (st\<lparr>objs := mem\<rparr>) }"

text \<open>
  The states a client can reach: it interns fresh objects, takes further references
  to objects it holds, and gives references back.
\<close>

inductive intern_run :: "('o \<Rightarrow> nat) \<Rightarrow> (nat \<Rightarrow> 'o \<Rightarrow> 'o) \<Rightarrow> ('o \<Rightarrow> bool)
    \<Rightarrow> ('o interned \<Rightarrow> nat \<Rightarrow> (nat \<times> 'o interned) option)
    \<Rightarrow> ('o interned \<Rightarrow> nat \<Rightarrow> 'o interned option)
    \<Rightarrow> 'o interned \<Rightarrow> nat multiset \<Rightarrow> bool"
  for refcnt set_refcnt good intern unintern where
  init: "hash_ok tab \<Longrightarrow> entries tab = {#} \<Longrightarrow>
     intern_run refcnt set_refcnt good intern unintern \<lparr>objs = (\<lambda>_. None), table = tab\<rparr> {#}"
| intern: "intern_run refcnt set_refcnt good intern unintern st H \<Longrightarrow>
     objs st p = None \<Longrightarrow> refcnt x = 0 \<Longrightarrow> good x \<Longrightarrow> hash_size (table st) < 2 ^ 31 \<Longrightarrow>
     intern (st\<lparr>objs := (objs st)(p \<mapsto> x)\<rparr>) p = Some (q, st') \<Longrightarrow>
     intern_run refcnt set_refcnt good intern unintern st' (add_mset q H)"
| hold: "intern_run refcnt set_refcnt good intern unintern st H \<Longrightarrow> p \<in># H \<Longrightarrow> objs st p = Some x \<Longrightarrow>
     intern_run refcnt set_refcnt good intern unintern
       (st\<lparr>objs := (objs st)(p \<mapsto> set_refcnt (refcnt x + 1) x)\<rparr>) (add_mset p H)"
| unintern: "intern_run refcnt set_refcnt good intern unintern st H \<Longrightarrow> p \<in># H \<Longrightarrow>
     unintern st p = Some st' \<Longrightarrow> intern_run refcnt set_refcnt good intern unintern st' (H - {#p#})"

text \<open>
  The invariant: the objects in memory are exactly the ones somebody refers to, each
  with its number of references as its count; the table holds each of them once,
  under its key; and no two of them are equal.
\<close>

definition intern_inv :: "('o \<Rightarrow> nat) \<Rightarrow> ('o \<Rightarrow> u32) \<Rightarrow> ('o \<Rightarrow> 'o \<Rightarrow> bool) \<Rightarrow> ('o \<Rightarrow> bool)
    \<Rightarrow> 'o interned \<Rightarrow> nat multiset \<Rightarrow> bool" where
  "intern_inv refcnt key cmp good st H \<longleftrightarrow>
     hash_ok (table st)
     \<and> image_mset backet_data (entries (table st)) = mset_set (set_mset H)
     \<and> (\<forall>b\<in>#entries (table st). \<exists>x. objs st (backet_data b) = Some x \<and> backet_key b = key x)
     \<and> dom (objs st) = set_mset H
     \<and> (\<forall>p x. objs st p = Some x \<longrightarrow> refcnt x = count H p \<and> good x)
     \<and> (\<forall>p q x y. objs st p = Some x \<longrightarrow> objs st q = Some y \<longrightarrow> cmp x y \<longrightarrow> p = q)"

locale interning =
  fixes refcnt :: "'o \<Rightarrow> nat"
    and set_refcnt :: "nat \<Rightarrow> 'o \<Rightarrow> 'o"
    and key :: "'o \<Rightarrow> u32"
    and cmp :: "'o \<Rightarrow> 'o \<Rightarrow> bool"
    and good :: "'o \<Rightarrow> bool"
    and intern :: "'o interned \<Rightarrow> nat \<Rightarrow> (nat \<times> 'o interned) option"
    and unintern :: "'o interned \<Rightarrow> nat \<Rightarrow> 'o interned option"
  assumes refcnt_set [simp]: "refcnt (set_refcnt n x) = n"
    and key_set [simp]: "key (set_refcnt n x) = key x"
    and cmp_set_left [simp]: "cmp (set_refcnt n x) y = cmp x y"
    and cmp_set_right [simp]: "cmp x (set_refcnt n y) = cmp x y"
    and good_set [simp]: "good (set_refcnt n x) = good x"
    and cmp_refl: "good x \<Longrightarrow> cmp x x"
    and cmp_sym: "cmp x y \<Longrightarrow> cmp y x"
    and cmp_trans: "cmp x y \<Longrightarrow> cmp y z \<Longrightarrow> cmp x z"
    and cmp_key: "good x \<Longrightarrow> good y \<Longrightarrow> cmp x y \<Longrightarrow> key x = key y"
    and intern_shape: "objs st p = Some x \<Longrightarrow> good x \<Longrightarrow>
      intern st p = intern_object refcnt set_refcnt key cmp st p"
    and unintern_shape: "unintern st p = unintern_object refcnt set_refcnt key cmp st p"
begin

lemma inv_entry:
  assumes "intern_inv refcnt key cmp good st H" "b \<in># entries (table st)"
  shows "\<exists>x. objs st (backet_data b) = Some x \<and> backet_key b = key x \<and> backet_data b \<in># H \<and> good x"
  using assms by (fastforce simp: intern_inv_def)

lemma inv_dom: "intern_inv refcnt key cmp good st H \<Longrightarrow> q \<in># H \<longleftrightarrow> objs st q \<noteq> None"
  unfolding intern_inv_def by (metis domD domI option.distinct(1) option.exhaust)

lemma inv_entry_of:
  assumes "intern_inv refcnt key cmp good st H" "q \<in># H"
  shows "\<exists>b\<in>#entries (table st). backet_data b = q"
proof -
  have "q \<in># image_mset backet_data (entries (table st))"
    using assms by (simp add: intern_inv_def)
  then show ?thesis by auto
qed

text \<open>
  Looking up an object finds the equal one, whatever the references counts in the
  memory \<open>mem\<close> that the table looks at.
\<close>

lemma lookup_iff:
  assumes inv: "intern_inv refcnt key cmp good st H"
    and p: "mem p = Some x" "good x"
    and mem: "\<And>q y. objs st q = Some y \<Longrightarrow> \<exists>n. mem q = Some (set_refcnt n y) \<or> mem q = Some y"
  shows "hash_lookup (pkey mem key) (pcmp mem cmp) (table st) p = Some q
           \<longleftrightarrow> (\<exists>y. objs st q = Some y \<and> cmp y x)"
proof -
  have ok: "hash_ok (table st)" using inv by (simp add: intern_inv_def)
  have m: "matches (pkey mem key) (pcmp mem cmp) p b \<longleftrightarrow> (\<exists>y. objs st (backet_data b) = Some y \<and> cmp y x)"
    if b: "b \<in># entries (table st)" for b
  proof -
    obtain y where y: "objs st (backet_data b) = Some y" "backet_key b = key y" "good y"
      using inv_entry [OF inv b] by blast
    from mem [OF y(1)] obtain n where "mem (backet_data b) = Some (set_refcnt n y) \<or> mem (backet_data b) = Some y"
      by blast
    then show ?thesis using y p cmp_key [of y x] by (auto simp: matches_def pkey_def pcmp_def)
  qed
  have uniq: "q = r" if "objs st q = Some y" "cmp y x" "objs st r = Some z" "cmp z x" for q r y z
    using inv that cmp_trans [OF that(2) cmp_sym [OF that(4)]] unfolding intern_inv_def by blast
  show ?thesis
  proof
    assume "hash_lookup (pkey mem key) (pcmp mem cmp) (table st) p = Some q"
    from hash_lookup_Some [OF ok this] m show "\<exists>y. objs st q = Some y \<and> cmp y x" by blast
  next
    assume q: "\<exists>y. objs st q = Some y \<and> cmp y x"
    then have "q \<in># H" using inv by (auto simp: intern_inv_def)
    then obtain b where "b \<in># entries (table st)" "backet_data b = q"
      using inv_entry_of [OF inv] by blast
    with q m hash_lookup_None [OF ok] obtain r
      where r: "hash_lookup (pkey mem key) (pcmp mem cmp) (table st) p = Some r" by fastforce
    from hash_lookup_Some [OF ok r] m uniq q show
      "hash_lookup (pkey mem key) (pcmp mem cmp) (table st) p = Some q"
      using r by blast
  qed
qed

lemma intern_hit:
  assumes inv: "intern_inv refcnt key cmp good st H" and fresh: "objs st p = None"
    and x: "refcnt x = 0" "good x" and q: "objs st q = Some y" "cmp y x"
  shows "intern_object refcnt set_refcnt key cmp (st\<lparr>objs := (objs st)(p \<mapsto> x)\<rparr>) p
           = Some (q, \<lparr>objs = (objs st)(q \<mapsto> set_refcnt (refcnt y + 1) y), table = table st\<rparr>)"
proof -
  let ?mem = "(objs st)(p \<mapsto> x)"
  have "hash_lookup (pkey ?mem key) (pcmp ?mem cmp) (table st) p = Some q
      \<longleftrightarrow> (\<exists>y. objs st q = Some y \<and> cmp y x)"
    using fresh by (intro lookup_iff [OF inv _ x(2)]) auto
  then have "hash_get (pkey ?mem key) (pcmp ?mem cmp) (table st) p (Some hash_alloc_intern) ()
      = (Some q, table st, ())"
    by (intro hash_get_hit) (use q in blast)
  moreover have "?mem(p := None) = objs st" "q \<noteq> p" using fresh q by auto
  ultimately show ?thesis using x(1) q by (simp add: intern_object_def Let_def)
qed

lemma intern_miss:
  assumes inv: "intern_inv refcnt key cmp good st H" and fresh: "objs st p = None"
    and x: "refcnt x = 0" "good x" and sz: "hash_size (table st) < 2 ^ 31"
    and new: "\<nexists>q y. objs st q = Some y \<and> cmp y x"
  shows "\<exists>tab. intern_object refcnt set_refcnt key cmp (st\<lparr>objs := (objs st)(p \<mapsto> x)\<rparr>) p
             = Some (p, \<lparr>objs = (objs st)(p \<mapsto> set_refcnt 1 x), table = tab\<rparr>)
           \<and> hash_ok tab
           \<and> entries tab = add_mset \<lparr>backet_key = key x, backet_data = p\<rparr> (entries (table st))"
proof -
  let ?mem = "(objs st)(p \<mapsto> x)"
  have "hash_lookup (pkey ?mem key) (pcmp ?mem cmp) (table st) p = Some q
      \<longleftrightarrow> (\<exists>y. objs st q = Some y \<and> cmp y x)" for q
    using fresh by (intro lookup_iff [OF inv _ x(2)]) auto
  then have "hash_lookup (pkey ?mem key) (pcmp ?mem cmp) (table st) p = None"
    using new by (metis not_Some_eq)
  moreover have "hash_ok (table st)" using inv by (simp add: intern_inv_def)
  ultimately obtain tab where tab: "hash_get (pkey ?mem key) (pcmp ?mem cmp) (table st) p
        (Some hash_alloc_intern) () = (Some p, tab, ())"
      "hash_ok tab" "entries tab = add_mset \<lparr>backet_key = key x, backet_data = p\<rparr> (entries (table st))"
    using hash_get_miss [of "table st" "pkey ?mem key" "pcmp ?mem cmp" p hash_alloc_intern "()" p "()"] sz
    by (auto simp: hash_alloc_intern_def pkey_def)
  then show ?thesis using x(1) by (simp add: intern_object_def Let_def)
qed

lemma inv_intern:
  assumes inv: "intern_inv refcnt key cmp good st H" and fresh: "objs st p = None"
    and x: "refcnt x = 0" "good x" and sz: "hash_size (table st) < 2 ^ 31"
  defines "st1 \<equiv> st\<lparr>objs := (objs st)(p \<mapsto> x)\<rparr>"
  shows "\<exists>q st'. intern_object refcnt set_refcnt key cmp st1 p = Some (q, st')
           \<and> intern_inv refcnt key cmp good st' (add_mset q H)
           \<and> (\<exists>y. objs st' q = Some y \<and> cmp y x)"
proof (cases "\<exists>q y. objs st q = Some y \<and> cmp y x")
  case True
  then obtain q y where q: "objs st q = Some y" "cmp y x" by blast
  then have "q \<in># H" using inv by (auto simp: intern_inv_def)
  let ?st = "\<lparr>objs = (objs st)(q \<mapsto> set_refcnt (refcnt y + 1) y), table = table st\<rparr>"
  have "insert q (set_mset H) = set_mset H" using \<open>q \<in># H\<close> by auto
  then have "intern_inv refcnt key cmp good ?st (add_mset q H)"
    using inv q \<open>q \<in># H\<close> unfolding intern_inv_def
    by (auto split: if_splits)
  then show ?thesis using intern_hit [OF inv fresh x q] q(2) unfolding st1_def by fastforce
next
  case False
  have pH: "p \<notin># H" using inv_dom [OF inv] fresh by simp
  from intern_miss [OF inv fresh x sz False] obtain tab
    where tab: "intern_object refcnt set_refcnt key cmp st1 p
        = Some (p, \<lparr>objs = (objs st)(p \<mapsto> set_refcnt 1 x), table = tab\<rparr>)"
      "hash_ok tab" "entries tab = add_mset \<lparr>backet_key = key x, backet_data = p\<rparr> (entries (table st))"
    unfolding st1_def by blast
  let ?st = "\<lparr>objs = (objs st)(p \<mapsto> set_refcnt 1 x), table = tab\<rparr>"
  have "intern_inv refcnt key cmp good ?st (add_mset p H)"
    using inv tab(2,3) x pH fresh False cmp_sym unfolding intern_inv_def
    by (auto simp: not_in_iff split: if_splits)
  then show ?thesis using tab(1) cmp_refl [OF x(2)] by auto
qed

lemma inv_hold:
  assumes inv: "intern_inv refcnt key cmp good st H" and p: "p \<in># H" "objs st p = Some x"
  shows "intern_inv refcnt key cmp good
           (st\<lparr>objs := (objs st)(p \<mapsto> set_refcnt (refcnt x + 1) x)\<rparr>) (add_mset p H)"
proof -
  have "insert p (set_mset H) = set_mset H" using p(1) by auto
  then show ?thesis
    using inv p unfolding intern_inv_def by (auto split: if_splits)
qed

lemma inv_unintern:
  assumes inv: "intern_inv refcnt key cmp good st H" and p: "p \<in># H"
  shows "\<exists>st'. unintern_object refcnt set_refcnt key cmp st p = Some st'
           \<and> intern_inv refcnt key cmp good st' (H - {#p#})"
proof -
  obtain x where x: "objs st p = Some x" using inv_dom [OF inv] p by auto
  have n: "refcnt x = count H p" "good x" using inv x by (auto simp: intern_inv_def)
  have pos: "refcnt x \<noteq> 0" using n(1) p by simp
  let ?x = "set_refcnt (refcnt x - 1) x"
  let ?mem = "(objs st)(p \<mapsto> ?x)"
  show ?thesis
  proof (cases "refcnt x = 1")
    case False
    then have "unintern_object refcnt set_refcnt key cmp st p = Some (st\<lparr>objs := ?mem\<rparr>)"
      using x pos by (simp add: unintern_object_def Let_def)
    moreover have "set_mset (H - {#p#}) = set_mset H"
      using False n(1) pos by (auto simp: in_diff_count set_eq_iff simp flip: count_greater_zero_iff)
    then have "intern_inv refcnt key cmp good (st\<lparr>objs := ?mem\<rparr>) (H - {#p#})"
      using inv x n p unfolding intern_inv_def by (auto split: if_splits)
    ultimately show ?thesis by blast
  next
    case True
    have look: "hash_lookup (pkey ?mem key) (pcmp ?mem cmp) (table st) p = Some p"
      using x n(2) cmp_refl by (subst lookup_iff [OF inv, of _ _ ?x]) auto
    have ok: "hash_ok (table st)" using inv by (simp add: intern_inv_def)
    obtain b tab where tab: "hash_release (pkey ?mem key) (pcmp ?mem cmp) (table st) p = (Some p, tab)"
        "hash_ok tab" "backet_data b = p" "entries (table st) = add_mset b (entries tab)"
      using hash_release_hit [OF ok look] by blast
    have res: "unintern_object refcnt set_refcnt key cmp st p = Some \<lparr>objs = (objs st)(p := None), table = tab\<rparr>"
      using x True tab(1) by (simp add: unintern_object_def Let_def)
    have H: "set_mset (H - {#p#}) = set_mset H - {p}" "finite (set_mset H)"
      using True n(1) by (auto simp: in_diff_count set_eq_iff simp flip: count_greater_zero_iff)
    have "add_mset p (image_mset backet_data (entries tab)) = mset_set (set_mset H)"
      using inv tab(3,4) by (simp add: intern_inv_def)
    also have "\<dots> = add_mset p (mset_set (set_mset H - {p}))"
      using p by (simp add: mset_set.remove)
    finally have e: "image_mset backet_data (entries tab) = mset_set (set_mset H - {p})" by simp
    have np: "backet_data c \<noteq> p" if "c \<in># entries tab" for c
    proof -
      have "backet_data c \<in># mset_set (set_mset H - {p})" using that by (simp flip: e)
      then show ?thesis by simp
    qed
    have "\<forall>c\<in>#entries tab. \<exists>x. ((objs st)(p := None)) (backet_data c) = Some x \<and> backet_key c = key x"
      using inv tab(4) np unfolding intern_inv_def by simp
    moreover have "\<forall>q y. ((objs st)(p := None)) q = Some y \<longrightarrow> refcnt y = count (H - {#p#}) q \<and> good y"
      using inv unfolding intern_inv_def by (simp split: if_splits)
    moreover have "dom ((objs st)(p := None)) = set_mset (H - {#p#})"
      using inv H(1) unfolding intern_inv_def by simp
    ultimately have "intern_inv refcnt key cmp good \<lparr>objs = (objs st)(p := None), table = tab\<rparr> (H - {#p#})"
      using inv tab(2) e H(1) unfolding intern_inv_def by (simp split: if_splits)
    with res show ?thesis by blast
  qed
qed

text \<open>Reference counting is sound in every run.\<close>

lemma run_inv:
  "intern_run refcnt set_refcnt good intern unintern st H \<Longrightarrow> intern_inv refcnt key cmp good st H"
proof (induction rule: intern_run.induct)
  case (init tab)
  then show ?case by (simp add: intern_inv_def)
next
  case (intern st H p x q st')
  then show ?case
    using inv_intern [OF intern.IH intern.hyps(2-5)]
      intern_shape [of "st\<lparr>objs := (objs st)(p \<mapsto> x)\<rparr>" p x] by auto
next
  case (hold st H p x)
  then show ?case by (intro inv_hold)
next
  case (unintern st H p st')
  then show ?case using inv_unintern unintern_shape by fastforce
qed

lemma run_intern_total:
  assumes "intern_run refcnt set_refcnt good intern unintern st H"
    and "objs st p = None" "refcnt x = 0" "good x" "hash_size (table st) < 2 ^ 31"
  shows "\<exists>q st' y. intern (st\<lparr>objs := (objs st)(p \<mapsto> x)\<rparr>) p = Some (q, st')
           \<and> objs st' q = Some y \<and> cmp y x \<and> refcnt y = count H q + 1"
proof -
  obtain q st' y where q: "intern_object refcnt set_refcnt key cmp (st\<lparr>objs := (objs st)(p \<mapsto> x)\<rparr>) p
      = Some (q, st')" "intern_inv refcnt key cmp good st' (add_mset q H)" "objs st' q = Some y" "cmp y x"
    using inv_intern [OF run_inv [OF assms(1)] assms(2-5)] by blast
  moreover have "refcnt y = count H q + 1" using q(2,3) by (auto simp: intern_inv_def)
  ultimately show ?thesis
    using intern_shape [of "st\<lparr>objs := (objs st)(p \<mapsto> x)\<rparr>" p x] assms(4) by auto
qed

lemma run_unintern_total:
  assumes "intern_run refcnt set_refcnt good intern unintern st H" "p \<in># H"
  shows "\<exists>st'. unintern st p = Some st' \<and> (objs st' p = None \<longleftrightarrow> count H p = 1)"
proof -
  obtain st' where st': "unintern_object refcnt set_refcnt key cmp st p = Some st'"
      "intern_inv refcnt key cmp good st' (H - {#p#})"
    using inv_unintern [OF run_inv [OF assms(1)] assms(2)] by blast
  have "objs st' p = None \<longleftrightarrow> p \<notin># H - {#p#}" using inv_dom [OF st'(2)] by simp
  also have "\<dots> \<longleftrightarrow> count H p = 1"
    using assms(2) by (auto simp: in_diff_count simp flip: count_greater_zero_iff)
  finally show ?thesis using st'(1) by (simp add: unintern_shape)
qed

end

end
