(* ===== verification/Jhash.thy ===== *)
theory Jhash
  imports Prelude
begin

text \<open>
  \<open>lib/jhash.c\<close>, Jenkins' hash: the function \<open>jhash\<close> on bytes, which keys the tables
  of AS paths and attributes, the variant \<open>jhash2\<close> on 32-bit words, and the
  variants for one to three words. The keys are lists; the length argument of the
  C functions is the number of elements read from them.
\<close>

definition JHASH_GOLDEN_RATIO :: u32 where
  "JHASH_GOLDEN_RATIO = 0x9e3779b9"

type_synonym jstate = "u32 \<times> u32 \<times> u32"

definition jhash_mix :: "jstate \<Rightarrow> jstate" where
  "jhash_mix = (\<lambda>(a, b, c).
     let a = (a - b - c) XOR drop_bit 13 c;
         b = (b - c - a) XOR push_bit 8 a;
         c = (c - a - b) XOR drop_bit 13 b;
         a = (a - b - c) XOR drop_bit 12 c;
         b = (b - c - a) XOR push_bit 16 a;
         c = (c - a - b) XOR drop_bit 5 b;
         a = (a - b - c) XOR drop_bit 3 c;
         b = (b - c - a) XOR push_bit 10 a;
         c = (c - a - b) XOR drop_bit 15 b
     in (a, b, c))"

definition le_word :: "u8 \<Rightarrow> u8 \<Rightarrow> u8 \<Rightarrow> u8 \<Rightarrow> u32" where
  "le_word k0 k1 k2 k3 =
     ucast k0 + push_bit 8 (ucast k1) + push_bit 16 (ucast k2) + push_bit 24 (ucast k3)"

fun jhash_blocks :: "u8 list \<Rightarrow> nat \<Rightarrow> jstate \<Rightarrow> u8 list \<times> nat \<times> jstate" where
  "jhash_blocks k len (a, b, c) =
     (if 12 \<le> len then
        jhash_blocks (drop 12 k) (len - 12)
          (jhash_mix (a + le_word (k ! 0) (k ! 1) (k ! 2) (k ! 3),
                      b + le_word (k ! 4) (k ! 5) (k ! 6) (k ! 7),
                      c + le_word (k ! 8) (k ! 9) (k ! 10) (k ! 11)))
      else (k, len, (a, b, c)))"

declare jhash_blocks.simps [simp del]

text \<open>
  The cases of the \<open>switch\<close> fall through, so a case adds its byte whenever the
  remaining length is at least its label.
\<close>

definition jhash_tail :: "u8 list \<Rightarrow> nat \<Rightarrow> jstate \<Rightarrow> jstate" where
  "jhash_tail k len = (\<lambda>(a, b, c).
     let byte = (\<lambda>i shift. if i < len then push_bit shift (ucast (k ! i)) else 0 :: u32)
     in (a + byte 3 24 + byte 2 16 + byte 1 8 + byte 0 0,
         b + byte 7 24 + byte 6 16 + byte 5 8 + byte 4 0,
         c + byte 10 24 + byte 9 16 + byte 8 8))"

definition jhash :: "u8 list \<Rightarrow> u32 \<Rightarrow> u32 \<Rightarrow> u32" where
  "jhash key len initval =
     (let (k, rest, (a, b, c)) =
            jhash_blocks key (unat len) (JHASH_GOLDEN_RATIO, JHASH_GOLDEN_RATIO, initval)
      in snd (snd (jhash_mix (jhash_tail k rest (a, b, c + len)))))"

fun jhash2_blocks :: "u32 list \<Rightarrow> nat \<Rightarrow> jstate \<Rightarrow> u32 list \<times> nat \<times> jstate" where
  "jhash2_blocks k len (a, b, c) =
     (if 3 \<le> len then
        jhash2_blocks (drop 3 k) (len - 3) (jhash_mix (a + k ! 0, b + k ! 1, c + k ! 2))
      else (k, len, (a, b, c)))"

declare jhash2_blocks.simps [simp del]

definition jhash2 :: "u32 list \<Rightarrow> u32 \<Rightarrow> u32 \<Rightarrow> u32" where
  "jhash2 key len initval =
     (let (k, rest, (a, b, c)) =
            jhash2_blocks key (unat len) (JHASH_GOLDEN_RATIO, JHASH_GOLDEN_RATIO, initval);
          c = c + len * 4;
          b = (if rest = 2 then b + k ! 1 else b);
          a = (if rest = 2 \<or> rest = 1 then a + k ! 0 else a)
      in snd (snd (jhash_mix (a, b, c))))"

definition jhash_3words :: "u32 \<Rightarrow> u32 \<Rightarrow> u32 \<Rightarrow> u32 \<Rightarrow> u32" where
  "jhash_3words a b c initval =
     snd (snd (jhash_mix (a + JHASH_GOLDEN_RATIO, b + JHASH_GOLDEN_RATIO, c + initval)))"

definition jhash_2words :: "u32 \<Rightarrow> u32 \<Rightarrow> u32 \<Rightarrow> u32" where
  "jhash_2words a b initval = jhash_3words a b 0 initval"

definition jhash_1word :: "u32 \<Rightarrow> u32 \<Rightarrow> u32" where
  "jhash_1word a initval = jhash_3words a 0 0 initval"

subsection \<open>The word version agrees with the byte version\<close>

text \<open>The memory of a 32-bit word on a little-endian machine.\<close>

definition le32 :: "u32 \<Rightarrow> u8 list" where
  "le32 w = [ucast w, ucast (drop_bit 8 w), ucast (drop_bit 16 w), ucast (drop_bit 24 w)]"

lemma ucast_byte: "(ucast (ucast (drop_bit n (w :: u32)) :: u8) :: u32) = of_nat (unat w div 2 ^ n mod 256)"
  by (rule unsigned_word_eqI [where ?'a = nat], insert unsigned_less [of w, where ?'a = nat])
     (simp add: unsigned_ucast_eq unsigned_drop_bit_eq unsigned_take_bit_eq take_bit_eq_mod [where ?'a = nat]
        drop_bit_eq_div [where ?'a = nat] unat_of_nat)

lemma push_of_nat: "push_bit n (of_nat m :: u32) = of_nat (m * 2 ^ n)"
  by (simp add: push_bit_eq_mult)

lemma bytes_sum:
  fixes n :: nat
  assumes "n < 2 ^ 32"
  shows "n mod 256 + n div 2 ^ 8 mod 256 * 2 ^ 8 + n div 2 ^ 16 mod 256 * 2 ^ 16
           + n div 2 ^ 24 mod 256 * 2 ^ 24 = n"
proof -
  let ?a = "n div 256" and ?b = "n div 256 div 256" and ?c = "n div 256 div 256 div 256"
  have d: "n div 2 ^ 16 = ?b" "n div 2 ^ 24 = ?c"
    by (simp_all add: div_mult2_eq [of n 256 256, simplified]
        div_mult2_eq [of n 256 65536, simplified] div_mult2_eq [of "n div 256" 256 256, simplified])
  have "?c < 256" using assms by (simp flip: d(2) add: less_mult_imp_div_less)
  then have c: "?c mod 256 = ?c" by simp
  have join: "r0 + r1 * 2 ^ 8 + r2 * 2 ^ 16 + z * 2 ^ 24 = m"
    if "x * 256 + r0 = m" "y * 256 + r1 = x" "z * 256 + r2 = y" for m x y z r0 r1 r2 :: nat
    unfolding that [symmetric] by simp
  have "n div 2 ^ 8 = ?a" by simp
  then show ?thesis
    unfolding d c by (simp only: join [OF div_mult_mod_eq div_mult_mod_eq div_mult_mod_eq])
qed

lemma le_word_le32: "le_word (le32 w ! 0) (le32 w ! 1) (le32 w ! 2) (le32 w ! 3) = w"
proof -
  have "le_word (le32 w ! 0) (le32 w ! 1) (le32 w ! 2) (le32 w ! 3)
      = ucast (ucast (drop_bit 0 w) :: u8) + push_bit 8 (ucast (ucast (drop_bit 8 w) :: u8))
        + push_bit 16 (ucast (ucast (drop_bit 16 w) :: u8))
        + push_bit 24 (ucast (ucast (drop_bit 24 w) :: u8))"
    by (simp add: le_word_def le32_def)
  also have "\<dots> = of_nat (unat w mod 256) + of_nat (unat w div 2 ^ 8 mod 256 * 2 ^ 8)
        + of_nat (unat w div 2 ^ 16 mod 256 * 2 ^ 16) + of_nat (unat w div 2 ^ 24 mod 256 * 2 ^ 24)"
    unfolding ucast_byte push_of_nat by (simp only: power_0 div_by_1)
  also have "\<dots> = of_nat (unat w mod 256 + unat w div 2 ^ 8 mod 256 * 2 ^ 8
      + unat w div 2 ^ 16 mod 256 * 2 ^ 16 + unat w div 2 ^ 24 mod 256 * 2 ^ 24)"
    by (simp only: of_nat_add)
  also have "\<dots> = w"
    by (subst bytes_sum) (use unsigned_less [of w, where ?'a = nat] in simp_all)
  finally show ?thesis .
qed

lemma length_le32 [simp]: "length (le32 w) = 4"
  by (simp add: le32_def)

lemma length_words [simp]: "length (concat (map le32 k)) = 4 * length k"
  by (induction k) simp_all

lemma jhash_blocks_words:
  "jhash_blocks (concat (map le32 k)) (4 * length k) st =
     (case jhash2_blocks k (length k) st of (k', n, st') \<Rightarrow> (concat (map le32 k'), 4 * n, st'))"
proof (induction "length k" arbitrary: k st rule: less_induct)
  case less
  obtain a b c where st: "st = (a, b, c)" by (cases st)
  show ?case
  proof (cases "3 \<le> length k")
    case False
    then show ?thesis by (simp add: st jhash_blocks.simps jhash2_blocks.simps)
  next
    case True
    then obtain w0 w1 w2 k' where k: "k = w0 # w1 # w2 # k'"
      by (metis Suc_le_length_iff numeral_3_eq_3)
    have "le_word (concat (map le32 k) ! 0) (concat (map le32 k) ! 1) (concat (map le32 k) ! 2)
        (concat (map le32 k) ! 3) = w0"
      "le_word (concat (map le32 k) ! 4) (concat (map le32 k) ! 5) (concat (map le32 k) ! 6)
        (concat (map le32 k) ! 7) = w1"
      "le_word (concat (map le32 k) ! 8) (concat (map le32 k) ! 9) (concat (map le32 k) ! 10)
        (concat (map le32 k) ! 11) = w2"
      using le_word_le32 [of w0] le_word_le32 [of w1] le_word_le32 [of w2]
      by (simp_all add: k nth_append)
    moreover have "drop 12 (concat (map le32 k)) = concat (map le32 k')" by (simp add: k)
    moreover have "4 * length k - 12 = 4 * length k'" "12 \<le> 4 * length k" by (simp_all add: k)
    ultimately show ?thesis
      using less.hyps [of k' "jhash_mix (a + w0, b + w1, c + w2)"]
      by (simp add: st jhash_blocks.simps [of "concat (map le32 k)"] jhash2_blocks.simps [of k])
         (simp add: k)
  qed
qed

lemma jhash2_blocks_rest:
  "jhash2_blocks k (length k) st = (k', n, st') \<Longrightarrow> n = length k' \<and> n < 3"
proof (induction "length k" arbitrary: k st rule: less_induct)
  case less
  obtain a b c where st: "st = (a, b, c)" by (cases st)
  show ?case
  proof (cases "3 \<le> length k")
    case True
    then show ?thesis
      using less.hyps [of "drop 3 k"] less.prems by (simp add: st jhash2_blocks.simps [of k])
  qed (use less.prems in \<open>auto simp: st jhash2_blocks.simps\<close>)
qed

lemma jhash_tail_words:
  assumes "length k < 3"
  shows "jhash_tail (concat (map le32 k)) (4 * length k) (a, b, c)
           = (if length k = 2 \<or> length k = 1 then a + k ! 0 else a,
              if length k = 2 then b + k ! 1 else b, c)"
proof -
  have w: "x + push_bit 24 (ucast (le32 w ! 3)) + push_bit 16 (ucast (le32 w ! 2))
      + push_bit 8 (ucast (le32 w ! 1)) + ucast (le32 w ! 0) = x + w" for x w
    using le_word_le32 [of w] by (simp add: le_word_def algebra_simps)
  consider "k = []" | w0 where "k = [w0]" | w0 w1 where "k = [w0, w1]"
    using assms by (cases k; cases "tl k"; cases "tl (tl k)") auto
  then show ?thesis
    by cases (use w in \<open>simp_all add: jhash_tail_def nth_append\<close>)
qed

text \<open>
  C27. The version for 32-bit words agrees with the generic one: \<open>jhash2\<close> on a list of
  words is \<open>jhash\<close> on the little-endian memory of these words, for every list
  whose byte length is a 32-bit number.
\<close>

theorem jhash2_eq_jhash:
  assumes "4 * length k < 2 ^ 32"
  shows "jhash2 k (of_nat (length k)) initval
           = jhash (concat (map le32 k)) (of_nat (4 * length k)) initval"
proof -
  let ?st = "(JHASH_GOLDEN_RATIO, JHASH_GOLDEN_RATIO, initval)"
  obtain k' n a b c where j: "jhash2_blocks k (length k) ?st = (k', n, (a, b, c))"
    by (metis prod_cases3)
  note r = jhash2_blocks_rest [OF j]
  have "unat (of_nat m :: u32) = m" if "m < 2 ^ 32" for m
    using that by (simp add: unat_of_nat)
  then have u: "unat (of_nat (length k) :: u32) = length k"
    "unat (of_nat (4 * length k) :: u32) = 4 * length k"
    using assms by (simp_all del: of_nat_mult)
  show ?thesis
    using u j r jhash_blocks_words [of k ?st] jhash_tail_words [of k' a b "c + of_nat (4 * length k)"]
    by (simp add: jhash2_def jhash_def Let_def mult.commute [of _ 4])
qed

theorem jhash2_eq_jhash_witness:
  "jhash2 [1, 2, 3, 4] 4 7 = jhash (concat (map le32 [1, 2, 3, 4])) 16 7"
  using jhash2_eq_jhash [of "[1, 2, 3, 4]" 7] by simp

end
