(* ===== verification/Aspath_Intern.thy ===== *)
theory Aspath_Intern
  imports Aspath_Wire Interning Jhash
begin

text \<open>
  The table of AS paths of \<open>bgpd/bgp_aspath.c\<close>: the hash key and the comparison,
  \<open>aspath_intern\<close> and \<open>aspath_unintern\<close>, and \<open>aspath_parse\<close>, which parses an AS_PATH
  attribute and returns the interned path. The locale \<open>interning\<close> is interpreted on
  these definitions.
\<close>

definition str_bytes :: "string \<Rightarrow> u8 list" where
  "str_bytes = map of_char"

text \<open>
  \<open>str_len\<close> is an \<open>unsigned short\<close>, so the hash covers the length modulo \<open>2 ^ 16\<close>. The
  function builds the string first when the path has none.
\<close>

definition aspath_key_make :: "aspath \<Rightarrow> (u32 \<times> aspath) option" where
  "aspath_key_make p = do {
     p \<leftarrow> (if as_str p = None then aspath_str_update p else Some p);
     let str = (case as_str p of None \<Rightarrow> [] | Some str \<Rightarrow> str);
     Some (jhash (str_bytes str) (ucast (of_nat (length str) :: u16)) 2334325, p) }"

definition aspath_key :: "aspath \<Rightarrow> u32" where
  "aspath_key p = (case aspath_key_make p of None \<Rightarrow> 0 | Some (key, _) \<Rightarrow> key)"

definition aspath_init :: "nat hash option" where
  "aspath_init = hash_create_size 32768"

definition aspath_intern :: "aspath interned \<Rightarrow> nat \<Rightarrow> (nat \<times> aspath interned) option" where
  "aspath_intern st p = do {
     x \<leftarrow> objs st p;
     assert_that (as_refcnt x = 0);
     assert_that (as_str x \<noteq> None);
     let (find, tab, u) = hash_get (pkey (objs st) aspath_key) (pcmp (objs st) aspath_cmp) (table st) p
                            (Some hash_alloc_intern) ();
     find \<leftarrow> find;
     let mem = (if find \<noteq> p then (objs st)(p := None) else objs st);
     y \<leftarrow> mem find;
     Some (find, \<lparr>objs = mem(find \<mapsto> y\<lparr>as_refcnt := as_refcnt y + 1\<rparr>), table = tab\<rparr>) }"

definition aspath_unintern :: "aspath interned \<Rightarrow> nat \<Rightarrow> aspath interned option" where
  "aspath_unintern st p = do {
     asp \<leftarrow> objs st p;
     let asp = (if as_refcnt asp \<noteq> 0 then asp\<lparr>as_refcnt := as_refcnt asp - 1\<rparr> else asp);
     let mem = (objs st)(p \<mapsto> asp);
     if as_refcnt asp = 0 then do {
       let (ret, tab) = hash_release (pkey mem aspath_key) (pcmp mem aspath_cmp) (table st) p;
       assert_that (ret \<noteq> None);
       Some \<lparr>objs = mem(p := None), table = tab\<rparr> }
     else Some (st\<lparr>objs := mem\<rparr>) }"

text \<open>
  The allocation function of \<open>aspath_parse\<close>: \<open>new\<close> is the address the allocator
  returns. Its assertion on the string is the null result, which the caller asserts
  not to get.
\<close>

definition aspath_hash_alloc :: "nat \<Rightarrow> (nat \<Rightarrow> aspath option) \<Rightarrow> nat \<Rightarrow> nat option \<times> (nat \<Rightarrow> aspath option)" where
  "aspath_hash_alloc new mem arg =
     (case mem arg of
        Some x \<Rightarrow>
          if as_str x = None then (None, mem)
          else (Some new, mem(new \<mapsto> \<lparr>as_refcnt = 0, as_segments = as_segments x, as_str = as_str x\<rparr>))
      | None \<Rightarrow> (None, mem))"

text \<open>
  \<open>as\<close> is the address of the local variable of that name, which the key function
  gives its string; it is gone when the function returns.
\<close>

definition aspath_parse :: "stream \<Rightarrow> nat \<Rightarrow> bool \<Rightarrow> nat \<Rightarrow> nat \<Rightarrow> aspath interned
    \<Rightarrow> (stream \<times> nat option \<times> aspath interned) option" where
  "aspath_parse s len use32bit as new st =
     (if len mod AS16_VALUE_SIZE \<noteq> 0 then Some (s, None, st)
      else do {
        (s, r) \<leftarrow> assegments_parse s len use32bit;
        case r of
          None \<Rightarrow> Some (s, None, st)
        | Some segs \<Rightarrow> do {
            (key, x) \<leftarrow> aspath_key_make \<lparr>as_refcnt = 0, as_segments = segs, as_str = None\<rparr>;
            let mem = (objs st)(as \<mapsto> x);
            let (find, tab, mem) = hash_get (pkey mem aspath_key) (pcmp mem aspath_cmp) (table st) as
                                     (Some (aspath_hash_alloc new)) mem;
            find \<leftarrow> find;
            y \<leftarrow> mem find;
            Some (s, Some find,
              \<lparr>objs = (mem(find \<mapsto> y\<lparr>as_refcnt := as_refcnt y + 1\<rparr>))(as := None), table = tab\<rparr>) } })"

subsection \<open>The interpretation\<close>

text \<open>An object fit for the table: its string is the one of its segments.\<close>

definition aspath_good :: "aspath \<Rightarrow> bool" where
  "aspath_good x \<longleftrightarrow> as_str x = path_str (as_segments x) \<and> as_str x \<noteq> None"

definition aspath_set_refcnt :: "nat \<Rightarrow> aspath \<Rightarrow> aspath" where
  "aspath_set_refcnt n x = x\<lparr>as_refcnt := n\<rparr>"

lemma aspath_key_eq: "as_str x = Some str \<Longrightarrow>
    aspath_key x = jhash (str_bytes str) (ucast (of_nat (length str) :: u16)) 2334325"
  by (simp add: aspath_key_def aspath_key_make_def)

interpretation asi: interning as_refcnt aspath_set_refcnt aspath_key aspath_cmp aspath_good
  aspath_intern aspath_unintern
proof
  show "aspath_key (aspath_set_refcnt n x) = aspath_key x" for n x
    by (simp add: aspath_set_refcnt_def aspath_key_def aspath_key_make_def Let_def)
  show "aspath_key x = aspath_key y" if "aspath_good x" "aspath_good y" "aspath_cmp x y" for x y
  proof -
    have "as_str x = as_str y" using that by (simp add: aspath_good_def aspath_cmp_def segments_cmp_iff)
    moreover have "as_str y \<noteq> None" using that(2) unfolding aspath_good_def by blast
    ultimately show ?thesis using aspath_key_eq by fastforce
  qed
  show "aspath_intern st p = intern_object as_refcnt aspath_set_refcnt aspath_key aspath_cmp st p"
    if "objs st p = Some x" "aspath_good x" for st p x
  proof -
    have "as_str x \<noteq> None" using that(2) unfolding aspath_good_def by blast
    with that(1) show ?thesis
      by (simp add: aspath_intern_def intern_object_def aspath_set_refcnt_def)
  qed
  show "aspath_unintern st p = unintern_object as_refcnt aspath_set_refcnt aspath_key aspath_cmp st p" for st p
    by (simp add: aspath_unintern_def unintern_object_def aspath_set_refcnt_def [abs_def])
qed (auto simp: aspath_set_refcnt_def aspath_cmp_def segments_cmp_iff aspath_good_def)

abbreviation aspath_run :: "aspath interned \<Rightarrow> nat multiset \<Rightarrow> bool" where
  "aspath_run \<equiv> intern_run as_refcnt aspath_set_refcnt aspath_good aspath_intern aspath_unintern"

abbreviation aspath_inv :: "aspath interned \<Rightarrow> nat multiset \<Rightarrow> bool" where
  "aspath_inv \<equiv> intern_inv as_refcnt aspath_key aspath_cmp aspath_good"

subsection \<open>Parsing interns\<close>

lemma segs_valid_absorb:
  "assegment_absorb pin segs = (p, rest) \<Longrightarrow> seg_type p = seg_type pin
     \<and> (segs_valid (pin # segs) \<longleftrightarrow> segs_valid (pin # rest)) \<and> length rest \<le> length segs"
proof (induction pin segs rule: assegment_absorb.induct)
  case (2 pin seg segs)
  then show ?case
    by (auto simp: segs_valid_def packable_type assegment_append_asns_def split: if_splits)
qed simp

lemma segs_valid_normalise [simp]: "segs_valid (assegment_normalise segs) \<longleftrightarrow> segs_valid segs"
proof (induction "length segs" arbitrary: segs rule: less_induct)
  case less
  show ?case
  proof (cases segs)
    case (Cons seg rest)
    obtain p out where a: "assegment_absorb (assegment_normalise_set seg) rest = (p, out)" by fastforce
    note v = segs_valid_absorb [OF a]
    then have "segs_valid (assegment_normalise out) \<longleftrightarrow> segs_valid out" using less Cons by auto
    with a v Cons show ?thesis by (simp add: assegment_normalise.simps(2) segs_valid_def)
  qed simp
qed

lemma parsed_segs_valid:
  assumes "stream_ok s" "assegments_parse s len u = Some (s', Some segs)"
  shows "segs_valid segs"
proof -
  obtain chunks where "encodes u (unread s) len chunks" "segs = assegment_normalise chunks"
    using assms assegments_parse_rejects assegments_parse_accepts by fastforce
  moreover from this(1) have "segs_valid chunks"
    by (auto simp: encodes_def list_all_iff chunk_ok_def segment_type_known_def segs_valid_def
        seg_separator_def)
  ultimately show ?thesis by simp
qed

lemma hash_get_same:
  assumes "hash_get key cmp h d (Some alloc) m = (Some x, h', m')"
    and "hash_lookup key cmp h d = None" "hash_lookup key' cmp' h d' = None"
    and "key d = key' d'" "alloc' n d' = (Some x, n')"
  shows "hash_get key' cmp' h d' (Some alloc') n = (Some x, h', n')"
  using assms by (auto simp: hash_get_def hash_lookup_chain Let_def split: prod.splits option.splits)

text \<open>
  On fresh addresses \<open>as\<close> and \<open>new\<close>, parsing a good path and interning a new object
  with that path do the same.
\<close>

lemma parse_as_intern:
  assumes inv: "aspath_inv st H" and fresh: "objs st as = None" "objs st new = None" "as \<noteq> new"
    and x: "aspath_good x" "as_refcnt x = 0" and sz: "hash_size (table st) < 2 ^ 31"
  defines "mem \<equiv> (objs st)(as \<mapsto> x)" and "st1 \<equiv> st\<lparr>objs := (objs st)(new \<mapsto> x)\<rparr>"
  shows "\<exists>q tab mem' y. hash_get (pkey mem aspath_key) (pcmp mem aspath_cmp) (table st) as
             (Some (aspath_hash_alloc new)) mem = (Some q, tab, mem')
           \<and> mem' q = Some y
           \<and> aspath_intern st1 new = Some (q,
               \<lparr>objs = (mem'(q \<mapsto> y\<lparr>as_refcnt := as_refcnt y + 1\<rparr>))(as := None), table = tab\<rparr>)"
proof -
  let ?mem1 = "(objs st)(new \<mapsto> x)"
  have str: "as_str x \<noteq> None" using x(1) unfolding aspath_good_def by blast
  have look: "hash_lookup (pkey mem aspath_key) (pcmp mem aspath_cmp) (table st) as = Some q
      \<longleftrightarrow> (\<exists>y. objs st q = Some y \<and> aspath_cmp y x)"
    "hash_lookup (pkey ?mem1 aspath_key) (pcmp ?mem1 aspath_cmp) (table st) new = Some q
      \<longleftrightarrow> (\<exists>y. objs st q = Some y \<and> aspath_cmp y x)" for q
    unfolding mem_def by (rule asi.lookup_iff [OF inv _ x(1)]; use fresh in auto)+
  show ?thesis
  proof (cases "\<exists>q y. objs st q = Some y \<and> aspath_cmp y x")
    case True
    then obtain q y where q: "objs st q = Some y" "aspath_cmp y x" by blast
    have ne: "q \<noteq> as" "q \<noteq> new" using q fresh by auto
    have "hash_get (pkey mem aspath_key) (pcmp mem aspath_cmp) (table st) as
        (Some (aspath_hash_alloc new)) mem = (Some q, table st, mem)"
      by (rule hash_get_hit) (use look(1) q in blast)
    moreover have "hash_get (pkey ?mem1 aspath_key) (pcmp ?mem1 aspath_cmp) (table st) new
        (Some hash_alloc_intern) () = (Some q, table st, ())"
      by (rule hash_get_hit) (use look(2) q in blast)
    then have "aspath_intern st1 new = Some (q,
        \<lparr>objs = (objs st)(q \<mapsto> y\<lparr>as_refcnt := as_refcnt y + 1\<rparr>), table = table st\<rparr>)"
      using q x(2) str ne fun_upd_idem [of "objs st", OF fresh(2)]
      by (simp add: aspath_intern_def st1_def)
    moreover have "(mem(q \<mapsto> z))(as := None) = (objs st)(q \<mapsto> z)" for z
      using fresh(1) ne by (auto simp: mem_def)
    ultimately show ?thesis using q(1) ne by (simp add: mem_def)
  next
    case False
    then have none: "hash_lookup (pkey mem aspath_key) (pcmp mem aspath_cmp) (table st) as = None"
      "hash_lookup (pkey ?mem1 aspath_key) (pcmp ?mem1 aspath_cmp) (table st) new = None"
      using look by (metis not_Some_eq)+
    have ok: "hash_ok (table st)" using inv by (simp add: intern_inv_def)
    let ?mem2 = "mem(new \<mapsto> \<lparr>as_refcnt = 0, as_segments = as_segments x, as_str = as_str x\<rparr>)"
    have alloc: "aspath_hash_alloc new mem as = (Some new, ?mem2)"
      using str by (simp add: aspath_hash_alloc_def mem_def)
    obtain tab where tab: "hash_get (pkey mem aspath_key) (pcmp mem aspath_cmp) (table st) as
        (Some (aspath_hash_alloc new)) mem = (Some new, tab, ?mem2)"
      using hash_get_miss [where alloc = "aspath_hash_alloc new", OF ok sz none(1) alloc] by blast
    have "hash_get (pkey ?mem1 aspath_key) (pcmp ?mem1 aspath_cmp) (table st) new
        (Some hash_alloc_intern) () = (Some new, tab, ())"
      by (rule hash_get_same [OF tab none])
         (simp_all add: pkey_def mem_def hash_alloc_intern_def)
    then have "aspath_intern st1 new = Some (new,
        \<lparr>objs = ?mem1(new \<mapsto> x\<lparr>as_refcnt := 1\<rparr>), table = tab\<rparr>)"
      using x(2) str by (simp add: aspath_intern_def st1_def)
    moreover have "(?mem2(new \<mapsto> z))(as := None) = ?mem1(new \<mapsto> z)" for z
      using fresh by (auto simp: mem_def)
    moreover have "x\<lparr>as_refcnt := Suc 0\<rparr> = \<lparr>as_refcnt = Suc 0, as_segments = as_segments x, as_str = as_str x\<rparr>"
      by (cases x) simp
    ultimately show ?thesis using tab by simp
  qed
qed

text \<open>
  C3. Reference counting of AS paths is sound: whatever sequence of \<open>aspath_intern\<close>,
  additional references and \<open>aspath_unintern\<close> a client goes through, the paths in
  memory are exactly the ones it refers to (nothing leaks and nothing dangles),
  the count of each is its number of references, and two references are to equal
  paths only if they are the same pointer, so that paths can be compared by address.
\<close>

theorem aspath_interning_sound:
  assumes "aspath_run st H"
  shows "dom (objs st) = set_mset H
     \<and> (\<forall>p x. objs st p = Some x \<longrightarrow> as_refcnt x = count H p)
     \<and> (\<forall>p q x y. objs st p = Some x \<longrightarrow> objs st q = Some y
          \<longrightarrow> as_segments x = as_segments y \<longrightarrow> p = q)
     \<and> hash_count (table st) = card (set_mset H)"
proof -
  have inv: "aspath_inv st H" using asi.run_inv [OF assms] .
  then have "image_mset backet_data (entries (table st)) = mset_set (set_mset H)" "hash_ok (table st)"
    by (simp_all add: intern_inv_def)
  then have "hash_count (table st) = card (set_mset H)"
    by (metis hash_ok_count size_image_mset size_mset_set)
  with inv show ?thesis by (simp add: intern_inv_def aspath_cmp_def segments_cmp_iff)
qed

lemma aspath_init_run: "\<exists>tab. aspath_init = Some tab \<and> hash_size tab = 32768
    \<and> aspath_run \<lparr>objs = (\<lambda>_. None), table = tab\<rparr> {#}"
  by (auto simp: aspath_init_def hash_create_size_def hash_ok_def entries_def
      intro!: intern_run.init exI [of _ 15])

theorem aspath_interning_sound_witness:
  "\<exists>st. aspath_run st {#7#} \<and> hash_count (table st) = 1
     \<and> (\<exists>x. objs st 7 = Some x \<and> as_refcnt x = 1)"
proof -
  let ?x = "\<lparr>as_refcnt = 0, as_segments = [\<lparr>seg_type = 2, seg_as = [65001]\<rparr>], as_str = Some ''65001''\<rparr>"
  obtain tab where "hash_size tab = 32768" and run: "aspath_run \<lparr>objs = (\<lambda>_. None), table = tab\<rparr> {#}"
    using aspath_init_run by blast
  have good: "aspath_good ?x"
    by (simp add: aspath_good_def path_str_def segs_valid_def segs_str_def seg_str_def seg_separator_def
        asn_str_def dec_string.simps)
  obtain q st' where i: "aspath_intern (\<lparr>objs = (\<lambda>_. None), table = tab\<rparr>\<lparr>objs := (\<lambda>_. None)(7 \<mapsto> ?x)\<rparr>) 7
      = Some (q, st')"
    using asi.run_intern_total [OF run, of 7 ?x] good \<open>hash_size tab = 32768\<close> by auto
  then have run': "aspath_run st' {#q#}"
    using intern_run.intern [OF run, of 7 ?x q st'] good \<open>hash_size tab = 32768\<close> by simp
  note s = aspath_interning_sound [OF run']
  have "q = 7" using i by (simp add: aspath_intern_def split: prod.splits bind_splits if_splits)
  moreover obtain x where "objs st' q = Some x" using s by (metis domD set_mset_single singletonI)
  ultimately show ?thesis using run' s by fastforce
qed

text \<open>
  C28. \<open>aspath_parse\<close> interns what it parsed: in every reachable state of the table, on
  a well-formed stream, it returns null exactly when the segments do not parse and
  leaves the table alone then; otherwise it returns a reference to an object with
  the parsed segments, whose count has gone up by one, and the new state with that
  reference added is again a reachable state. No assertion fails.
\<close>

theorem aspath_parse_interns:
  assumes "aspath_run st H" "stream_ok s"
    and "objs st as = None" "objs st new = None" "as \<noteq> new" "hash_size (table st) < 2 ^ 31"
  shows "\<exists>s' r. assegments_parse s len u = Some (s', r) \<and>
           (case r of
              None \<Rightarrow> aspath_parse s len u as new st = Some (s', None, st)
            | Some segs \<Rightarrow> \<exists>q st' y. aspath_parse s len u as new st = Some (s', Some q, st')
                \<and> objs st' q = Some y \<and> as_segments y = segs \<and> as_refcnt y = count H q + 1
                \<and> aspath_run st' (add_mset q H))"
proof (cases "len mod AS16_VALUE_SIZE = 0")
  case False
  then have "assegments_parse s len u = Some (s, None)" 
    by (cases "len = 0") (simp_all add: assegments_parse_def)
  then show ?thesis using False by (simp add: aspath_parse_def)
next
  case even: True
  obtain s' r where parse: "assegments_parse s len u = Some (s', r)"
    using assegments_parse_accepts [OF assms(2)] assegments_parse_rejects [OF assms(2)] by blast
  show ?thesis
  proof (cases r)
    case None
    then show ?thesis using even parse by (simp add: aspath_parse_def)
  next
    case (Some segs)
    define x where "x = \<lparr>as_refcnt = 0, as_segments = segs, as_str = path_str segs\<rparr>"
    have good: "aspath_good x" "as_refcnt x = 0"
      using parsed_segs_valid [OF assms(2)] parse Some by (simp_all add: x_def aspath_good_def path_str_def)
    obtain q tab mem y where h: "hash_get (pkey ((objs st)(as \<mapsto> x)) aspath_key)
          (pcmp ((objs st)(as \<mapsto> x)) aspath_cmp) (table st) as
          (Some (aspath_hash_alloc new)) ((objs st)(as \<mapsto> x)) = (Some q, tab, mem)" "mem q = Some y"
        "aspath_intern (st\<lparr>objs := (objs st)(new \<mapsto> x)\<rparr>) new = Some (q,
           \<lparr>objs = (mem(q \<mapsto> y\<lparr>as_refcnt := as_refcnt y + 1\<rparr>))(as := None), table = tab\<rparr>)"
      using parse_as_intern [OF asi.run_inv [OF assms(1)] assms(3-5) good assms(6)] by blast
    define st' where "st' = \<lparr>objs = (mem(q \<mapsto> y\<lparr>as_refcnt := as_refcnt y + 1\<rparr>))(as := None), table = tab\<rparr>"
    have "aspath_parse s len u as new st = Some (s', Some q, st')"
      using even parse Some h(1,2)
      by (simp add: aspath_parse_def aspath_key_make_def x_def st'_def Let_def)
    moreover have "aspath_run st' (add_mset q H)"
      using intern_run.intern [OF assms(1,4) good(2,1) assms(6)] h(3) by (simp add: st'_def)
    moreover obtain z where "objs st' q = Some z" "aspath_cmp z x" "as_refcnt z = count H q + 1"
      using asi.run_intern_total [OF assms(1,4) good(2,1) assms(6)] h(3) by (auto simp: st'_def)
    ultimately show ?thesis
      using parse Some by (auto simp: x_def aspath_cmp_def segments_cmp_iff)
  qed
qed

theorem aspath_parse_interns_witness:
  "\<exists>tab s' q st'. aspath_init = Some tab
     \<and> aspath_parse \<lparr>getp = 0, endp = 4, stream_size = 4, stream_data = [2, 1, 0, 7]\<rparr> 4 False 1 2
         \<lparr>objs = (\<lambda>_. None), table = tab\<rparr> = Some (s', Some q, st') \<and> aspath_run st' {#q#}"
proof -
  let ?s = "\<lparr>getp = 0, endp = 4, stream_size = 4, stream_data = [2, 1, 0, 7]\<rparr> :: stream"
  obtain tab where tab: "aspath_init = Some tab" "hash_size tab = 32768"
    and run: "aspath_run \<lparr>objs = (\<lambda>_. None), table = tab\<rparr> {#}"
    using aspath_init_run by blast
  have ok: "stream_ok ?s" by (simp add: stream_ok_def szmod_def)
  have "encodes False (unread ?s) 4 [\<lparr>seg_type = 2, seg_as = [7]\<rparr>]"
    by (simp add: unread_def span_def encodes_def chunk_ok_def segment_type_known_def asn_on_wire_def
        chunk_wire_def asn_wire_def be16_def)
  from assegments_parse_accepts [OF ok this] obtain s1 segs
    where p: "assegments_parse ?s 4 False = Some (s1, Some segs)" by blast
  then show ?thesis
    using aspath_parse_interns [OF run ok, of 1 2 4 False] tab by auto
qed

end
