(* ===== verification/Bgp_Base.thy ===== *)
theory Bgp_Base
  imports Byte_Stream
begin

text \<open>
  The parts of \<open>struct bgp\<close> and \<open>struct peer\<close> of \<open>bgpd/bgpd.h\<close> that the modelled code
  reads, the flags of an instance, and the socket addresses of \<open>lib/sockunion.c\<close>
  with their comparison. A \<open>struct in_addr\<close> is the number it stands for in host
  byte order, so that \<open>ntohl\<close> on it is the identity. \<open>bgp_peer_sort\<close> is the
  enumeration \<open>bgp_peer_sort_t\<close>.
\<close>

datatype bgp_peer_sort = BGP_PEER_IBGP | BGP_PEER_EBGP | BGP_PEER_INTERNAL | BGP_PEER_CONFED

datatype sockunion = AF_INET u32 | AF_INET6 "u8 list"

record bgp =
  bgp_as :: as_t
  router_id :: u32
  cluster_id :: u32
  confed_id :: as_t
  bgp_config :: u16
  bgp_flags :: u16
  default_local_pref :: u32

record peer =
  peer_bgp :: bgp
  peer_as :: as_t
  peer_sort :: bgp_peer_sort
  remote_id :: u32
  su_remote :: sockunion

abbreviation (input) BGP_FLAG_ALWAYS_COMPARE_MED :: u16 where "BGP_FLAG_ALWAYS_COMPARE_MED \<equiv> 0x0001"
abbreviation (input) BGP_FLAG_DETERMINISTIC_MED :: u16 where "BGP_FLAG_DETERMINISTIC_MED \<equiv> 0x0002"
abbreviation (input) BGP_FLAG_MED_MISSING_AS_WORST :: u16 where "BGP_FLAG_MED_MISSING_AS_WORST \<equiv> 0x0004"
abbreviation (input) BGP_FLAG_MED_CONFED :: u16 where "BGP_FLAG_MED_CONFED \<equiv> 0x0008"
abbreviation (input) BGP_FLAG_COMPARE_ROUTER_ID :: u16 where "BGP_FLAG_COMPARE_ROUTER_ID \<equiv> 0x0080"
abbreviation (input) BGP_FLAG_ASPATH_IGNORE :: u16 where "BGP_FLAG_ASPATH_IGNORE \<equiv> 0x0100"
abbreviation (input) BGP_FLAG_ASPATH_CONFED :: u16 where "BGP_FLAG_ASPATH_CONFED \<equiv> 0x2000"
abbreviation (input) BGP_FLAG_ASPATH_MULTIPATH_RELAX :: u16 where "BGP_FLAG_ASPATH_MULTIPATH_RELAX \<equiv> 0x4000"
abbreviation (input) BGP_CONFIG_CLUSTER_ID :: u16 where "BGP_CONFIG_CLUSTER_ID \<equiv> 0x0002"
abbreviation (input) BGP_CONFIG_CONFEDERATION :: u16 where "BGP_CONFIG_CONFEDERATION \<equiv> 0x0004"

definition CHECK_FLAG :: "'a :: len word \<Rightarrow> 'a word \<Rightarrow> bool" where
  "CHECK_FLAG flags f \<longleftrightarrow> flags AND f \<noteq> 0"

definition SET_FLAG :: "'a :: len word \<Rightarrow> 'a word \<Rightarrow> 'a word" where
  "SET_FLAG flags f = flags OR f"

definition UNSET_FLAG :: "'a :: len word \<Rightarrow> 'a word \<Rightarrow> 'a word" where
  "UNSET_FLAG flags f = flags AND NOT f"

definition bgp_flag_check :: "bgp \<Rightarrow> u16 \<Rightarrow> bool" where
  "bgp_flag_check bgp flag = CHECK_FLAG (bgp_flags bgp) flag"

lemma CHECK_SET_FLAG: "CHECK_FLAG (SET_FLAG a b) c \<longleftrightarrow> CHECK_FLAG a c \<or> CHECK_FLAG b c"
  by (simp add: CHECK_FLAG_def SET_FLAG_def bit.conj_disj_distrib2 or_eq_0_iff)

lemma CHECK_UNSET_FLAG_other: "b AND c = 0 \<Longrightarrow> CHECK_FLAG (UNSET_FLAG a b) c \<longleftrightarrow> CHECK_FLAG a c"
proof -
  assume bc: "b AND c = 0"
  have "a AND NOT b AND c = a AND c"
  proof (rule bit_word_eqI)
    fix n
    have "\<not> (bit b n \<and> bit c n)" using bc by (metis bit_and_iff bit_0_eq bot_apply bot_bool_def)
    then show "bit (a AND NOT b AND c) n \<longleftrightarrow> bit (a AND c) n" if "n < LENGTH('a)"
      using that by (auto simp: bit_simps)
  qed
  then show ?thesis by (simp add: CHECK_FLAG_def UNSET_FLAG_def and.assoc)
qed

lemma CHECK_UNSET_FLAG_same [simp]: "\<not> CHECK_FLAG (UNSET_FLAG a b) b"
  by (simp add: CHECK_FLAG_def UNSET_FLAG_def and.assoc)

subsection \<open>Socket addresses\<close>

fun in6addr_cmp :: "u8 list \<Rightarrow> u8 list \<Rightarrow> int" where
  "in6addr_cmp (p1 # ps1) (p2 # ps2) =
     (if p2 < p1 then 1 else if p1 < p2 then -1 else in6addr_cmp ps1 ps2)"
| "in6addr_cmp _ _ = 0"

text \<open>The number of \<open>AF_INET\<close> is below that of \<open>AF_INET6\<close>.\<close>

fun sockunion_cmp :: "sockunion \<Rightarrow> sockunion \<Rightarrow> int" where
  "sockunion_cmp (AF_INET a) (AF_INET b) = (if a = b then 0 else if b < a then 1 else -1)"
| "sockunion_cmp (AF_INET a) (AF_INET6 b) = -1"
| "sockunion_cmp (AF_INET6 a) (AF_INET b) = 1"
| "sockunion_cmp (AF_INET6 a) (AF_INET6 b) = in6addr_cmp a b"

text \<open>An IPv6 address has 16 bytes.\<close>

fun sockunion_ok :: "sockunion \<Rightarrow> bool" where
  "sockunion_ok (AF_INET a) = True"
| "sockunion_ok (AF_INET6 a) = (length a = 16)"

lemma in6addr_cmp_range: "in6addr_cmp a b \<in> {-1, 0, 1}"
  by (induction a b rule: in6addr_cmp.induct) auto

lemma in6addr_cmp_sym: "in6addr_cmp b a = - in6addr_cmp a b"
  by (induction a b rule: in6addr_cmp.induct) auto

lemma in6addr_cmp_0: "length a = length b \<Longrightarrow> in6addr_cmp a b = 0 \<longleftrightarrow> a = b"
  by (induction a b rule: in6addr_cmp.induct) auto

lemma sockunion_cmp_range: "sockunion_cmp a b \<in> {-1, 0, 1}"
proof (cases a)
  case (AF_INET x)
  then show ?thesis by (cases b) simp_all
next
  case (AF_INET6 x)
  then show ?thesis
  proof (cases b)
    case (AF_INET6 y)
    with \<open>a = AF_INET6 x\<close> show ?thesis using in6addr_cmp_range [of x y] by simp
  qed simp
qed

lemma sockunion_cmp_sym: "sockunion_cmp b a = - sockunion_cmp a b"
proof (cases a)
  case (AF_INET x)
  then show ?thesis by (cases b) auto
next
  case (AF_INET6 x)
  then show ?thesis
  proof (cases b)
    case (AF_INET6 y)
    with \<open>a = AF_INET6 x\<close> show ?thesis using in6addr_cmp_sym [of y x] by simp
  qed simp
qed

lemma sockunion_cmp_0:
  assumes "sockunion_ok a" "sockunion_ok b"
  shows "sockunion_cmp a b = 0 \<longleftrightarrow> a = b"
proof (cases a)
  case (AF_INET x)
  then show ?thesis by (cases b) auto
next
  case (AF_INET6 x)
  then show ?thesis
  proof (cases b)
    case (AF_INET6 y)
    with \<open>a = AF_INET6 x\<close> show ?thesis using in6addr_cmp_0 [of x y] assms by simp
  qed simp
qed

end
