(* ===== verification/Wiser.thy ===== *)
theory Wiser
  imports Bgp_Base Complex_Main
begin

text \<open>
  The Wiser protocol: \<open>bgpd/wiser.cpp\<close> (its packet handlers),
  \<open>bgpd/wiser_static_path_costs.hpp\<close> (the configured costs of links) and
  \<open>bgpd/wiser_costs.hpp\<close> (the tables of advertised costs and the cost portal).

  The three static hash maps are the record \<open>wiser_state\<close>. A protocol buffer message
  is a record with the fields of \<open>attr_tarpan.proto\<close>; a field the schema does not
  name is kept in \<open>unknown_fields\<close>, as the protobuf runtime keeps it. A handler
  returns the state and the message after it. Contacting the cost portal of
  another AS is a job given to the thread pool; the handler returns it as the triple
  of destination address, own AS and cost that the job sends.
  The threads that share the tables of advertised costs, and the mutex around each
  access, are the record \<open>cost_pool\<close> with its steps.
\<close>

record wiser_data =
  path_cost :: u32
  sender_as :: u32
  sender_address :: u32

record tarpan_msg =
  version :: u32
  msg_wiser :: "wiser_data option"
  pathlets :: "u32 list option"
  unknown_fields :: "u8 list"

record wiser_state =
  path_costs :: "u64 \<rightharpoonup> u32"
  advcost_sent :: "as_t \<rightharpoonup> u32"
  advcost_recv :: "as_t \<rightharpoonup> u32"

type_synonym portal_job = "u32 \<times> as_t \<times> u32"

subsection \<open>Static path costs\<close>

text \<open>
  Input from a string stream. A number is read as the C++ library does: white space
  is skipped, an optional sign and the longest run of decimal digits are taken. The
  result is the value assigned, if one is, and the rest of the stream, \<open>None\<close> when
  the stream has failed. At the end of the input nothing is assigned; without a
  digit 0 is; on overflow the largest number.
\<close>

definition is_space :: "char \<Rightarrow> bool" where
  "is_space c \<longleftrightarrow> c \<in> {CHR '' '', CHR 0x09, CHR 0x0A, CHR 0x0B, CHR 0x0C, CHR 0x0D}"

definition read_word :: "string \<Rightarrow> string \<times> string" where
  "read_word s = (let s = dropWhile is_space s
                  in (takeWhile (\<lambda>c. \<not> is_space c) s, dropWhile (\<lambda>c. \<not> is_space c) s))"

definition extract_u32 :: "string option \<Rightarrow> u32 option \<times> string option" where
  "extract_u32 stream =
     (case stream of
        None \<Rightarrow> (None, None)
      | Some s \<Rightarrow>
          (case dropWhile is_space s of
             [] \<Rightarrow> (None, None)
           | c # cs \<Rightarrow>
               (let negative = (c = CHR ''-'');
                    body = (if c = CHR ''-'' \<or> c = CHR ''+'' then cs else c # cs);
                    (n, v, rest) = read_digits 0 body
                in if n = 0 then (Some 0, None)
                   else if 2 ^ 32 \<le> v then (Some (- 1), None)
                   else (Some (if negative then - of_nat v else of_nat v), Some rest))))"

definition as_pair_insert :: "u32 \<Rightarrow> u32 \<Rightarrow> u64" where
  "as_pair_insert as1 as2 = push_bit 32 (ucast (min as1 as2)) OR ucast (max as1 as2)"

text \<open>\<open>insert\<close> of an unordered map keeps an entry that is there.\<close>

definition map_insert :: "('k \<rightharpoonup> 'v) \<Rightarrow> 'k \<Rightarrow> 'v \<Rightarrow> ('k \<rightharpoonup> 'v)" where
  "map_insert m k v = (case m k of None \<Rightarrow> m(k \<mapsto> v) | Some _ \<Rightarrow> m)"

text \<open>
  One line of the file. A variable that no extraction assigned is uninitialised, and
  its use undefined.
\<close>

definition static_cost_line :: "(u64 \<rightharpoonup> u32) \<Rightarrow> string \<Rightarrow> (u64 \<rightharpoonup> u32) option" where
  "static_cost_line costs line =
     (if line = [] then Some costs
      else if hd line = CHR ''#'' then Some costs
      else
        (let (directive, rest) = read_word line
         in if directive = ''path_cost'' then
              (let (v1, s1) = extract_u32 (Some rest);
                   (v2, s2) = extract_u32 s1;
                   (v3, s3) = extract_u32 s2
               in do {
                 as1 \<leftarrow> v1;
                 as2 \<leftarrow> v2;
                 cost \<leftarrow> v3;
                 Some (map_insert costs (as_pair_insert as1 as2) cost) })
            else Some costs))"

fun wiser_static_path_costs_init :: "string list \<Rightarrow> (u64 \<rightharpoonup> u32) \<Rightarrow> (u64 \<rightharpoonup> u32) option" where
  "wiser_static_path_costs_init [] costs = Some costs"
| "wiser_static_path_costs_init (line # lines) costs = do {
     costs \<leftarrow> static_cost_line costs line;
     wiser_static_path_costs_init lines costs }"

text \<open>The lookup takes its arguments as signed integers and builds the key from these.\<close>

definition as_pair_lookup :: "u32 \<Rightarrow> u32 \<Rightarrow> u64" where
  "as_pair_lookup as1 as2 =
     (let lo = (if sint as2 < sint as1 then as2 else as1);
          hi = (if sint as1 < sint as2 then as2 else as1)
      in push_bit 32 (scast lo) OR scast hi)"

definition wiser_get_path_cost :: "(u64 \<rightharpoonup> u32) \<Rightarrow> u32 \<Rightarrow> u32 \<Rightarrow> u32" where
  "wiser_get_path_cost costs as1 as2 =
     (case costs (as_pair_lookup as1 as2) of None \<Rightarrow> 32767 | Some cost \<Rightarrow> cost)"

subsection \<open>Advertised costs\<close>

definition wiser_costs_table_init :: "wiser_state \<Rightarrow> wiser_state" where
  "wiser_costs_table_init st = st\<lparr>advcost_sent := Map.empty, advcost_recv := Map.empty\<rparr>"

definition increment_map_value :: "(as_t \<rightharpoonup> u32) \<Rightarrow> as_t \<Rightarrow> u32 \<Rightarrow> (as_t \<rightharpoonup> u32)" where
  "increment_map_value m key delta =
     (case m key of None \<Rightarrow> m(key \<mapsto> delta) | Some v \<Rightarrow> m(key \<mapsto> v + delta))"

definition update_sent_cost :: "wiser_state \<Rightarrow> as_t \<Rightarrow> u32 \<Rightarrow> wiser_state" where
  "update_sent_cost st dest cost =
     st\<lparr>advcost_sent := increment_map_value (advcost_sent st) dest cost\<rparr>"

definition update_recv_cost :: "wiser_state \<Rightarrow> as_t \<Rightarrow> u32 \<Rightarrow> wiser_state" where
  "update_recv_cost st from cost =
     st\<lparr>advcost_recv := increment_map_value (advcost_recv st) from cost\<rparr>"

definition normalization :: "as_t \<Rightarrow> rat" where
  "normalization peer = 1"

definition scale_cost :: "u32 \<Rightarrow> rat \<Rightarrow> u32" where
  "scale_cost cost factor = of_int \<lfloor>of_int (uint cost) * factor\<rfloor>"

subsection \<open>The cost mutex\<close>

text \<open>
  The main thread and the jobs of the thread pool share the tables. Each call of
  \<open>update_sent_cost\<close>, \<open>update_recv_cost\<close> and \<open>normalization\<close> takes \<open>cost_mutex\<close> for its
  duration. A thread has the calls it still makes and the point it has reached in the
  first of them: outside the lock, behind it, after an unsuccessful and a successful
  \<open>find\<close>, after the load of the old value by \<open>+=\<close>, and before the release of the lock.
  \<open>thread_step i\<close> is one step of thread \<open>i\<close>, \<open>None\<close> when it cannot take one.
\<close>

datatype cost_call = Sent_Cost as_t u32 | Recv_Cost as_t u32 | Normalization as_t

datatype call_point = Outside | Locked | Absent | Present | Loaded u32 | Leaving

record cost_thread =
  calls :: "cost_call list"
  point :: call_point

record cost_pool =
  tables :: wiser_state
  cost_mutex :: "nat option"
  threads :: "cost_thread list"

fun call_entry :: "wiser_state \<Rightarrow> cost_call \<Rightarrow> u32 option" where
  "call_entry st (Sent_Cost key delta) = advcost_sent st key"
| "call_entry st (Recv_Cost key delta) = advcost_recv st key"
| "call_entry st (Normalization peer) = None"

fun call_delta :: "cost_call \<Rightarrow> u32" where
  "call_delta (Sent_Cost key delta) = delta"
| "call_delta (Recv_Cost key delta) = delta"
| "call_delta (Normalization peer) = 0"

fun call_store :: "wiser_state \<Rightarrow> cost_call \<Rightarrow> u32 \<Rightarrow> wiser_state" where
  "call_store st (Sent_Cost key delta) v = st\<lparr>advcost_sent := (advcost_sent st)(key \<mapsto> v)\<rparr>"
| "call_store st (Recv_Cost key delta) v = st\<lparr>advcost_recv := (advcost_recv st)(key \<mapsto> v)\<rparr>"
| "call_store st (Normalization peer) v = st"

fun is_increment :: "cost_call \<Rightarrow> bool" where
  "is_increment (Normalization peer) = False"
| "is_increment call = True"

definition move :: "nat \<Rightarrow> call_point \<Rightarrow> cost_pool \<Rightarrow> cost_pool" where
  "move i pt c = c\<lparr>threads := (threads c)[i := (threads c ! i)\<lparr>point := pt\<rparr>]\<rparr>"

definition thread_step :: "nat \<Rightarrow> cost_pool \<Rightarrow> cost_pool option" where
  "thread_step i c =
     (if length (threads c) \<le> i then None
      else
        (case calls (threads c ! i) of
           [] \<Rightarrow> None
         | call # rest \<Rightarrow>
             (case point (threads c ! i) of
                Outside \<Rightarrow>
                  (if cost_mutex c = None then Some (move i Locked (c\<lparr>cost_mutex := Some i\<rparr>)) else None)
              | Locked \<Rightarrow>
                  Some (move i (if \<not> is_increment call then Leaving
                                else if call_entry (tables c) call = None then Absent
                                else Present) c)
              | Absent \<Rightarrow>
                  Some (move i Leaving (c\<lparr>tables := call_store (tables c) call (call_delta call)\<rparr>))
              | Present \<Rightarrow> do {
                  v \<leftarrow> call_entry (tables c) call;
                  Some (move i (Loaded v) c) }
              | Loaded v \<Rightarrow>
                  Some (move i Leaving (c\<lparr>tables := call_store (tables c) call (v + call_delta call)\<rparr>))
              | Leaving \<Rightarrow>
                  Some (c\<lparr>cost_mutex := None,
                          threads := (threads c)[i := \<lparr>calls = rest, point = Outside\<rparr>]\<rparr>))))"

text \<open>A schedule names the thread that takes each step.\<close>

fun run_schedule :: "nat list \<Rightarrow> cost_pool \<Rightarrow> cost_pool option" where
  "run_schedule [] c = Some c"
| "run_schedule (i # is) c = do {
     c \<leftarrow> thread_step i c;
     run_schedule is c }"

definition pool_start :: "wiser_state \<Rightarrow> cost_call list list \<Rightarrow> cost_pool" where
  "pool_start st callss =
     \<lparr>tables = st, cost_mutex = None, threads = map (\<lambda>cs. \<lparr>calls = cs, point = Outside\<rparr>) callss\<rparr>"

text \<open>A whole call at once.\<close>

fun exec_call :: "cost_call \<Rightarrow> wiser_state \<Rightarrow> wiser_state" where
  "exec_call (Sent_Cost key delta) st = update_sent_cost st key delta"
| "exec_call (Recv_Cost key delta) st = update_recv_cost st key delta"
| "exec_call (Normalization peer) st = st"

subsection \<open>Packet handlers\<close>

definition wiser_new_default :: wiser_data where
  "wiser_new_default = \<lparr>path_cost = 0, sender_as = 0, sender_address = 0\<rparr>"

definition wiser_packet_received_handler ::
  "wiser_state \<Rightarrow> peer \<Rightarrow> tarpan_msg \<Rightarrow> wiser_state \<times> tarpan_msg \<times> portal_job list" where
  "wiser_packet_received_handler st peer msg =
     (let previous_supported = (msg_wiser msg \<noteq> None);
          w = (case msg_wiser msg of None \<Rightarrow> wiser_new_default | Some w \<Rightarrow> w);
          w = w\<lparr>path_cost := path_cost w
                  + wiser_get_path_cost (path_costs st) (peer_as peer) (bgp_as (peer_bgp peer))\<rparr>;
          st = update_recv_cost st (sender_as w) (path_cost w)
      in if \<not> previous_supported then (st, msg\<lparr>msg_wiser := Some w\<rparr>, [])
         else if peer_as peer = sender_as w then (st, msg\<lparr>msg_wiser := Some w\<rparr>, [])
         else (st,
               msg\<lparr>msg_wiser := Some (w\<lparr>path_cost := scale_cost (path_cost w) (normalization (peer_as peer))\<rparr>)\<rparr>,
               [(sender_address w, bgp_as (peer_bgp peer), path_cost w)]))"

definition wiser_initialize_packet :: "wiser_state \<Rightarrow> peer \<Rightarrow> tarpan_msg \<Rightarrow> wiser_state \<times> tarpan_msg" where
  "wiser_initialize_packet st peer msg =
     (let w = wiser_new_default\<lparr>path_cost := 0\<rparr>;
          st = update_sent_cost st (peer_as peer) (path_cost w);
          w = w\<lparr>sender_address := router_id (peer_bgp peer), sender_as := bgp_as (peer_bgp peer)\<rparr>
      in (st, msg\<lparr>msg_wiser := Some w\<rparr>))"

definition wiser_update_packet :: "wiser_state \<Rightarrow> peer \<Rightarrow> tarpan_msg \<Rightarrow> wiser_state \<times> tarpan_msg" where
  "wiser_update_packet st peer msg =
     (case msg_wiser msg of
        None \<Rightarrow> wiser_initialize_packet st peer msg
      | Some w \<Rightarrow>
          (let st = update_sent_cost st (peer_as peer) (path_cost w)
           in (st, msg\<lparr>msg_wiser := Some (w\<lparr>sender_as := bgp_as (peer_bgp peer),
                                            sender_address := router_id (peer_bgp peer)\<rparr>)\<rparr>)))"

subsection \<open>The cost portal\<close>

text \<open>
  A connection to the portal delivers the bytes \<open>input\<close> and is then shut down by its
  client. A message follows its length, sent as the memory of a \<open>uint32_t\<close>; a
  shorter read leaves the upper bytes of the zero-initialised variable alone. The
  message is the record \<open>backprop\<close> of \<open>tarpan_backpropagation.proto\<close>; \<open>unpack\<close> is the
  generated function that decodes it and returns null on malformed input. The
  result of \<open>unpack\<close> is dereferenced unchecked.
\<close>

record backprop =
  ping :: "u32 option"
  close_conn :: "bool option"
  wiser_back :: "(as_t \<times> u32) option"

fun le_value :: "u8 list \<Rightarrow> nat" where
  "le_value [] = 0"
| "le_value (b # bs) = unat b + 256 * le_value bs"

definition apply_wiser_back :: "wiser_state \<Rightarrow> backprop \<Rightarrow> wiser_state" where
  "apply_wiser_back st msg =
     (case wiser_back msg of None \<Rightarrow> st | Some (as, cost) \<Rightarrow> update_sent_cost st as cost)"

function cost_portal_handle_connection ::
  "(u8 list \<Rightarrow> backprop option) \<Rightarrow> u8 list \<Rightarrow> wiser_state \<Rightarrow> wiser_state option" where
  "cost_portal_handle_connection unpack input st =
     (if input = [] then Some st
      else
        (let message_size = le_value (take 4 input);
             input = drop 4 input
         in if 4000000 < message_size then Some st
            else if length (take message_size input) \<noteq> message_size then Some st
            else do {
              msg \<leftarrow> unpack (take message_size input);
              let st = apply_wiser_back st msg;
              if close_conn msg = Some True then Some st
              else cost_portal_handle_connection unpack (drop message_size input) st }))"
  by pat_completeness auto
termination
  by (relation "measure (\<lambda>(unpack, input, st). length input)") auto

declare cost_portal_handle_connection.simps [simp del]

text \<open>What a client sends: each message behind its length.\<close>

definition frame :: "u8 list \<Rightarrow> u8 list" where
  "frame body = [of_nat (length body), of_nat (length body div 256), of_nat (length body div 65536),
                 of_nat (length body div 16777216)] @ body"

text \<open>
  The client's side: the bytes that a job of the thread pool writes on its connection.
  \<open>pack\<close> is the generated encoder.
\<close>

definition wiser_contact_cost_portal :: "(backprop \<Rightarrow> u8 list) \<Rightarrow> portal_job \<Rightarrow> u8 list" where
  "wiser_contact_cost_portal pack job = (case job of (address, own_as, cost) \<Rightarrow>
     frame (pack \<lparr>ping = None, close_conn = None, wiser_back = Some (own_as, cost)\<rparr>))"

subsection \<open>Keys of AS pairs\<close>

definition pair_key :: "u32 \<Rightarrow> u32 \<Rightarrow> u64" where
  "pair_key hi lo = push_bit 32 (ucast hi) OR ucast lo"

lemma pair_key_parts:
  "ucast (drop_bit 32 (pair_key hi lo)) = hi" "ucast (pair_key hi lo) = lo"
  by (rule bit_word_eqI; auto simp: pair_key_def bit_simps dest: bit_imp_le_length)+

lemma pair_key_inject [simp]: "pair_key a b = pair_key c d \<longleftrightarrow> a = c \<and> b = d"
  by (metis pair_key_parts)

lemma as_pair_insert_key: "as_pair_insert a b = pair_key (min a b) (max a b)"
  by (simp add: as_pair_insert_def pair_key_def)

lemma bit_31_iff: "bit (a :: u32) 31 \<longleftrightarrow> 2 ^ 31 \<le> a"
proof -
  have "bit a 31 \<longleftrightarrow> odd (unat a div 2 ^ 31)"
    using bit_iff_odd [of "unat a" 31] bit_unsigned_iff [of a 31, where ?'a = nat] by simp
  moreover have "unat a div 2 ^ 31 < 2"
    using unsigned_less [of a, where ?'a = nat] by (simp add: less_mult_imp_div_less)
  moreover have "2 ^ 31 \<le> a \<longleftrightarrow> unat a div 2 ^ 31 \<noteq> 0"
    by (simp add: word_le_nat_alt div_eq_0_iff not_less)
  ultimately show ?thesis by (auto simp: less_2_cases_iff)
qed

lemma bit_small: "(a :: u32) < 2 ^ 31 \<Longrightarrow> bit a n \<Longrightarrow> n < 31"
  using bit_31_iff [of a] bit_imp_le_length [of a n] by (cases "n = 31") (auto simp: not_le)

lemma sint_large: "2 ^ 31 \<le> (a :: u32) \<Longrightarrow> sint a < 0"
  using bit_31_iff [of a] bit_last_iff [of a] by simp

lemma sint_small: "(a :: u32) < 2 ^ 31 \<Longrightarrow> sint a = uint a"
proof -
  have "- 2147483648 \<le> uint a" using unsigned_greater_eq [of a, where ?'a = int] by linarith
  then show "a < 2 ^ 31 \<Longrightarrow> sint a = uint a"
    by (simp add: sint_uint signed_take_bit_int_eq_self_iff word_less_def)
qed

lemma scast_small: "(a :: u32) < 2 ^ 31 \<Longrightarrow> (scast a :: u64) = ucast a"
  by (rule bit_word_eqI)
     (auto simp: bit_simps min_def dest: bit_small [simplified])

lemma push_scast: "push_bit 32 (scast (a :: u32) :: u64) = push_bit 32 (ucast a)"
proof (rule bit_word_eqI)
  fix n
  assume "n < LENGTH(64)"
  then have "31 \<le> n - 32 \<Longrightarrow> n - 32 = 31" by simp
  then show "bit (push_bit 32 (scast a :: u64)) n \<longleftrightarrow> bit (push_bit 32 (ucast a :: u64)) n"
    by (auto simp: bit_simps min_def)
qed

lemma as_pair_lookup_small:
  assumes "a < 2 ^ 31" "b < 2 ^ 31"
  shows "as_pair_lookup a b = as_pair_insert a b"
proof -
  have "sint a < sint b \<longleftrightarrow> a < b" "sint b < sint a \<longleftrightarrow> b < a"
    using assms by (simp_all add: sint_small word_less_def)
  then show ?thesis
    using assms by (auto simp: as_pair_lookup_def as_pair_insert_def scast_small Let_def min_def max_def)
qed

lemma as_pair_lookup_mixed:
  assumes "2 ^ 31 \<le> a" "b < 2 ^ 31"
  shows "as_pair_lookup a b = pair_key a b"
proof -
  have "sint a < sint b" 
    using sint_large [OF assms(1)] sint_small [OF assms(2)] unsigned_greater_eq [of b, where ?'a = int]
    by linarith
  then show ?thesis
    using assms(2) by (simp add: as_pair_lookup_def pair_key_def push_scast scast_small)
qed

subsection \<open>Properties of the configured costs\<close>

lemma as_pair_insert_eq_iff: "as_pair_insert a b = as_pair_insert x y \<longleftrightarrow> {a, b} = {x, y}"
  by (auto simp: as_pair_insert_key min_def max_def doubleton_eq_iff split: if_splits)

lemma space_not_digit: "is_space c \<Longrightarrow> \<not> is_digit c"
  by (auto simp: is_space_def is_digit_def digit_value_def)

lemma extract_u32_dec_string:
  assumes "rest = [] \<or> \<not> is_digit (hd rest)"
  shows "extract_u32 (Some (CHR '' '' # dec_string (unat (a :: u32)) @ rest)) = (Some a, Some rest)"
proof -
  obtain c cs where c: "dec_string (unat a) = c # cs" by (cases "dec_string (unat a)") simp_all
  have d: "is_digit c" using dec_string_digits [of c "unat a"] by (simp add: c)
  have "\<not> is_space c" "c \<noteq> CHR ''-''" "c \<noteq> CHR ''+''"
    using d space_not_digit by (auto simp: is_digit_def digit_value_def)
  moreover have "is_space CHR '' ''" by (simp add: is_space_def)
  moreover have "unat a < 2 ^ 32" using unsigned_less [of a, where ?'a = nat] by simp
  ultimately show ?thesis
    using read_digits_dec_string [OF assms, of "unat a"]
    by (simp add: extract_u32_def c)
qed

text \<open>The line that configures a cost.\<close>

definition path_cost_line :: "u32 \<Rightarrow> u32 \<Rightarrow> u32 \<Rightarrow> string" where
  "path_cost_line as1 as2 cost = ''path_cost'' @ CHR '' '' # dec_string (unat as1)
     @ CHR '' '' # dec_string (unat as2) @ CHR '' '' # dec_string (unat cost)"

lemma static_cost_line_path_cost:
  "static_cost_line costs (path_cost_line as1 as2 cost)
     = Some (map_insert costs (as_pair_insert as1 as2) cost)"
proof -
  have w: "read_word (path_cost_line as1 as2 cost) = (''path_cost'', CHR '' '' # dec_string (unat as1)
     @ CHR '' '' # dec_string (unat as2) @ CHR '' '' # dec_string (unat cost))"
    by (simp add: path_cost_line_def read_word_def is_space_def)
  have "\<not> is_digit CHR '' ''" by (simp add: is_digit_def digit_value_def)
  then show ?thesis
    using extract_u32_dec_string [of "[]" cost] w
    by (simp add: static_cost_line_def extract_u32_dec_string) (simp add: path_cost_line_def)
qed

text \<open>
  What a line of the file says: a cost, written as above, or nothing, for an empty line,
  a comment and a line with another directive.
\<close>

definition line_says :: "string \<Rightarrow> (u32 \<times> u32 \<times> u32) option \<Rightarrow> bool" where
  "line_says line entry \<longleftrightarrow>
     (case entry of
        Some (as1, as2, cost) \<Rightarrow> line = path_cost_line as1 as2 cost
      | None \<Rightarrow> line = [] \<or> hd line = CHR ''#'' \<or> fst (read_word line) \<noteq> ''path_cost'')"

lemma static_cost_line_says:
  "line_says line entry \<Longrightarrow> static_cost_line costs line =
     Some (case entry of None \<Rightarrow> costs | Some (a, b, c) \<Rightarrow> map_insert costs (as_pair_insert a b) c)"
proof (cases entry)
  case None
  then show "line_says line entry \<Longrightarrow> ?thesis"
    by (auto simp: line_says_def static_cost_line_def Let_def split: prod.splits)
qed (auto simp: line_says_def static_cost_line_path_cost)

text \<open>The first cost given for a pair of AS numbers, in either order.\<close>

definition first_cost :: "(u32 \<times> u32 \<times> u32) option list \<Rightarrow> u32 \<Rightarrow> u32 \<Rightarrow> u32 option" where
  "first_cost entries x y =
     map_option (snd \<circ> snd) (find (\<lambda>(a, b, c). {a, b} = {x, y}) (List.map_filter id entries))"

lemma first_cost_simps [simp]:
  "first_cost [] x y = None" "first_cost (None # es) x y = first_cost es x y"
  "first_cost (Some (a, b, c) # es) x y = (if {a, b} = {x, y} then Some c else first_cost es x y)"
  by (simp_all add: first_cost_def List.map_filter_simps)

lemma static_costs_file:
  "list_all2 line_says lines entries \<Longrightarrow> \<exists>costs'. wiser_static_path_costs_init lines costs = Some costs'
     \<and> costs' (as_pair_insert x y)
       = (case costs (as_pair_insert x y) of None \<Rightarrow> first_cost entries x y | Some c \<Rightarrow> Some c)"
proof (induction lines entries arbitrary: costs rule: list_all2_induct)
  case Nil
  then show ?case by (simp split: option.splits)
next
  case (Cons line lines entry entries)
  let ?c = "case entry of None \<Rightarrow> costs | Some (a, b, c) \<Rightarrow> map_insert costs (as_pair_insert a b) c"
  have "(case ?c (as_pair_insert x y) of None \<Rightarrow> first_cost entries x y | Some c \<Rightarrow> Some c)
      = (case costs (as_pair_insert x y) of None \<Rightarrow> first_cost (entry # entries) x y | Some c \<Rightarrow> Some c)"
    by (auto simp: map_insert_def as_pair_insert_eq_iff [symmetric] split: option.splits prod.splits)
  then show ?case
    using Cons.IH [of ?c] static_cost_line_says [OF Cons.hyps(1), of costs] by simp
qed



lemma dom_map_insert: "dom (map_insert m k v) = insert k (dom m)"
  by (auto simp: map_insert_def split: option.splits)

text \<open>Every key the configuration puts in the table has its smaller half in front.\<close>

lemma static_cost_line_shape:
  assumes "static_cost_line costs line = Some costs'"
  shows "costs' = costs \<or> (\<exists>a b v. costs' = map_insert costs (as_pair_insert a b) v)"
proof -
  obtain directive rest where r: "read_word line = (directive, rest)" by fastforce
  obtain v1 s1 where e1: "extract_u32 (Some rest) = (v1, s1)" by fastforce
  obtain v2 s2 where e2: "extract_u32 s1 = (v2, s2)" by fastforce
  obtain v3 s3 where e3: "extract_u32 s2 = (v3, s3)" by fastforce
  show ?thesis
    using assms unfolding static_cost_line_def Let_def r e1 e2 e3 prod.case bind_eq_Some_conv
    by (auto simp only: bind_eq_Some_conv option.inject split: if_split_asm)
qed

lemma static_costs_keys:
  "wiser_static_path_costs_init lines costs = Some costs' \<Longrightarrow> \<forall>k\<in>dom costs. \<exists>a b. k = as_pair_insert a b \<Longrightarrow>
     \<forall>k\<in>dom costs'. \<exists>a b. k = as_pair_insert a b"
proof (induction lines arbitrary: costs)
  case (Cons line lines)
  from Cons.prems(1) obtain c1 where c1: "static_cost_line costs line = Some c1"
      "wiser_static_path_costs_init lines c1 = Some costs'"
    by (auto simp only: wiser_static_path_costs_init.simps bind_eq_Some_conv)
  from static_cost_line_shape [OF c1(1)]
  have "\<forall>k\<in>dom c1. \<exists>a b. k = as_pair_insert a b"
  proof (elim disjE exE)
    fix a b v assume "c1 = map_insert costs (as_pair_insert a b) v"
    then have "dom c1 = insert (as_pair_insert a b) (dom costs)" by (simp only: dom_map_insert)
    then show ?thesis using Cons.prems(2) by (metis insert_iff)
  next
    assume "c1 = costs"
    with Cons.prems(2) show ?thesis by (simp only:)
  qed
  then show ?case by (rule Cons.IH [OF c1(2)])
next
  case Nil
  then show ?case by (simp only: wiser_static_path_costs_init.simps option.inject)
qed

lemma as_pair_lookup_commute: "as_pair_lookup a b = as_pair_lookup b a"
proof (cases "a = b")
  case False
  then have "sint a \<noteq> sint b" using signed_word_eqI by blast
  then show ?thesis by (auto simp: as_pair_lookup_def Let_def)
qed simp

lemma push_ones: "push_bit 32 (ucast (a :: u32)) OR scast b = pair_key (- 1) b" if "2 ^ 31 \<le> b"
  for b :: u32
proof (rule bit_word_eqI)
  fix n
  assume "n < LENGTH(64)"
  then show "bit (push_bit 32 (ucast a) OR scast b :: u64) n \<longleftrightarrow> bit (pair_key (- 1) b) n"
    using that bit_31_iff [of b]
    by (cases "n = 31") (auto simp: pair_key_def bit_simps min_def dest: bit_imp_le_length)
qed

lemma as_pair_lookup_large:
  assumes "2 ^ 31 \<le> a" "2 ^ 31 \<le> b"
  shows "as_pair_lookup a b = pair_key (- 1) (max a b)"
proof -
  have s: "sint x = uint x - 2 ^ 32" if "2 ^ 31 \<le> x" for x :: u32
    using that bit_31_iff [of x]
    by (simp add: sint_uint signed_take_bit_eq_take_bit_minus bit_uint_iff)
       (simp add: unsigned_take_bit_eq [symmetric] take_bit_word_eq_self)
  have "sint a < sint b \<longleftrightarrow> a < b" using s [OF assms(1)] s [OF assms(2)] by (simp add: word_less_def)
  then have "as_pair_lookup a b = push_bit 32 (ucast (if sint b < sint a then b else a)) OR scast (max a b)"
    by (cases "a < b") (simp_all add: as_pair_lookup_def Let_def push_scast max_def not_less less_imp_le)
  also have "\<dots> = pair_key (- 1) (max a b)" by (rule push_ones) (use assms in \<open>simp add: max_def\<close>)
  finally show ?thesis .
qed

text \<open>The key a lookup builds for a large AS number has the halves in an order no line gives.\<close>

lemma as_pair_lookup_unordered:
  assumes "2 ^ 31 \<le> max a b" "max a b \<noteq> - 1 \<or> min a b < 2 ^ 31"
  shows "\<exists>hi lo. as_pair_lookup a b = pair_key hi lo \<and> lo < hi"
proof (cases "2 ^ 31 \<le> min a b")
  case True
  then have "2 ^ 31 \<le> a" "2 ^ 31 \<le> b" by (simp_all only: min.bounded_iff)
  moreover have "max a b \<noteq> - 1" using True assms(2) by (metis leD)
  then have "max a b < - 1" by (simp only: word_order.not_eq_extremum)
  ultimately show ?thesis using as_pair_lookup_large by blast
next
  case False
  then have "(2 ^ 31 \<le> a \<and> b < 2 ^ 31) \<or> (2 ^ 31 \<le> b \<and> a < 2 ^ 31)"
    using assms(1) by (auto simp: min_def max_def not_le split: if_splits)
  then show ?thesis
  proof (elim disjE conjE)
    assume "2 ^ 31 \<le> a" "b < 2 ^ 31"
    then show ?thesis using as_pair_lookup_mixed [of a b] order.strict_trans2 [of b "2 ^ 31" a] by blast
  next
    assume "2 ^ 31 \<le> b" "a < 2 ^ 31"
    then show ?thesis
      using as_pair_lookup_mixed [of b a] order.strict_trans2 [of a "2 ^ 31" b]
        as_pair_lookup_commute [of a b] by metis
  qed
qed



subsection \<open>Advertised costs under concurrency\<close>

lemma exec_call_store:
  "is_increment call \<Longrightarrow> exec_call call st = call_store st call
     (case call_entry st call of None \<Rightarrow> call_delta call | Some v \<Rightarrow> v + call_delta call)"
  by (cases call) (auto simp: update_sent_cost_def update_recv_cost_def increment_map_value_def
      split: option.splits)

lemma exec_call_idle: "\<not> is_increment call \<Longrightarrow> exec_call call st = st"
  by (cases call) simp_all

lemma increment_commute:
  "increment_map_value (increment_map_value m k d) k' d' = increment_map_value (increment_map_value m k' d') k d"
  by (cases "k = k'") (auto simp: increment_map_value_def fun_upd_twist add_ac split: option.splits)

lemma exec_call_commute: "exec_call a \<circ> exec_call b = exec_call b \<circ> exec_call a"
  by (rule ext; cases a; cases b) (simp_all add: update_sent_cost_def update_recv_cost_def increment_commute)

lemma exec_calls_order: "mset xs = mset ys \<Longrightarrow> fold exec_call xs = fold exec_call ys"
  by (rule fold_multiset_equiv) (simp_all add: exec_call_commute)

text \<open>The calls of a thread whose effect is still to come, and the steps it has left.\<close>

definition pending :: "cost_thread \<Rightarrow> cost_call list" where
  "pending t = (if point t = Leaving then tl (calls t) else calls t)"

primrec point_rank :: "call_point \<Rightarrow> nat" where
  "point_rank Outside = 0" | "point_rank Locked = 1" | "point_rank Present = 2"
| "point_rank Absent = 3" | "point_rank (Loaded v) = 3" | "point_rank Leaving = 4"

definition steps_left :: "cost_thread \<Rightarrow> nat" where
  "steps_left t = 5 * length (calls t) - point_rank (point t)"

text \<open>
  The invariant: one thread at most is inside the lock, the one the mutex names; what it
  knows of its entry is so; and the tables are the result of the calls that are done.
\<close>

definition point_ok :: "wiser_state \<Rightarrow> cost_thread \<Rightarrow> bool" where
  "point_ok st t \<longleftrightarrow>
     (point t = Outside \<or> calls t \<noteq> []) \<and>
     (case point t of
        Absent \<Rightarrow> is_increment (hd (calls t)) \<and> call_entry st (hd (calls t)) = None
      | Present \<Rightarrow> is_increment (hd (calls t)) \<and> call_entry st (hd (calls t)) \<noteq> None
      | Loaded v \<Rightarrow> is_increment (hd (calls t)) \<and> call_entry st (hd (calls t)) = Some v
      | _ \<Rightarrow> True)"

definition mutex_ok :: "cost_pool \<Rightarrow> bool" where
  "mutex_ok c \<longleftrightarrow> (\<forall>i < length (threads c). (cost_mutex c = Some i) = (point (threads c ! i) \<noteq> Outside)
                      \<and> point_ok (tables c) (threads c ! i))
     \<and> (\<forall>i. cost_mutex c = Some i \<longrightarrow> i < length (threads c))"

definition accounted :: "wiser_state \<Rightarrow> cost_call multiset \<Rightarrow> cost_pool \<Rightarrow> bool" where
  "accounted st all c \<longleftrightarrow>
     (\<exists>ended. mset ended + (\<Sum>t\<leftarrow>threads c. mset (pending t)) = all \<and> tables c = fold exec_call ended st)"

lemma sum_list_update:
  fixes f :: "'a \<Rightarrow> 'b :: comm_monoid_add"
  shows "i < length xs \<Longrightarrow> sum_list (map f (xs[i := x])) + f (xs ! i) = sum_list (map f xs) + f x"
  by (induction xs arbitrary: i) (auto simp: ac_simps split: nat.splits)

lemma point_ok_outside [simp]: "point t = Outside \<Longrightarrow> point_ok st t"
  by (simp add: point_ok_def)

text \<open>
  What a step of thread \<open>i\<close> does: the thread changes from \<open>t\<close> to \<open>t'\<close>, with the lock or
  taking it, and either no call takes effect or the first pending one of \<open>t\<close> does.
\<close>

definition step_effect :: "nat \<Rightarrow> cost_pool \<Rightarrow> cost_pool \<Rightarrow> cost_thread \<Rightarrow> bool" where
  "step_effect i c c' t' \<longleftrightarrow>
     threads c' = (threads c)[i := t'] \<and> point_ok (tables c') t' \<and>
     steps_left t' < steps_left (threads c ! i) \<and>
     (cost_mutex c = Some i \<or> (cost_mutex c = None \<and> tables c' = tables c)) \<and>
     cost_mutex c' = (if point t' = Outside then None else Some i) \<and>
     ((tables c' = tables c \<and> pending (threads c ! i) = pending t') \<or>
      (\<exists>call. tables c' = exec_call call (tables c) \<and> pending (threads c ! i) = call # pending t'))"

lemma thread_step_effect:
  assumes s: "thread_step i c = Some c'" and m: "mutex_ok c"
  shows "i < length (threads c) \<and> (\<exists>t'. step_effect i c c' t')"
proof -
  let ?t = "threads c ! i"
  have i: "i < length (threads c)" using s by (simp add: thread_step_def split: if_splits)
  obtain call rest where cs: "calls ?t = call # rest" using s i by (auto simp: thread_step_def split: list.splits)
  have ok: "point_ok (tables c) ?t" "cost_mutex c = Some i \<longleftrightarrow> point ?t \<noteq> Outside"
    using m i by (simp_all add: mutex_ok_def)
  note d = thread_step_def move_def step_effect_def point_ok_def pending_def steps_left_def
  have "\<exists>t'. step_effect i c c' t'"
  proof (cases "point ?t")
    case Outside
    with s i cs ok show ?thesis by (intro exI [of _ "?t\<lparr>point := Locked\<rparr>"]) (auto simp: d split: if_splits)
  next
    case Locked
    let ?p = "if \<not> is_increment call then Leaving
              else if call_entry (tables c) call = None then Absent else Present"
    from Locked s i cs ok show ?thesis
      by (intro exI [of _ "?t\<lparr>point := ?p\<rparr>"]) (auto simp: d exec_call_idle)
  next
    case Absent
    with s i cs ok show ?thesis
      by (intro exI [of _ "?t\<lparr>point := Leaving\<rparr>"]) (auto simp: d exec_call_store)
  next
    case Present
    with s i cs ok obtain v where v: "call_entry (tables c) call = Some v" by (auto simp: point_ok_def)
    with Present s i cs ok show ?thesis by (intro exI [of _ "?t\<lparr>point := Loaded v\<rparr>"]) (auto simp: d)
  next
    case (Loaded v)
    with s i cs ok show ?thesis
      by (intro exI [of _ "?t\<lparr>point := Leaving\<rparr>"]) (auto simp: d exec_call_store)
  next
    case Leaving
    with s i cs ok show ?thesis
      by (intro exI [of _ "\<lparr>calls = rest, point = Outside\<rparr>"]) (auto simp: d)
  qed
  with i show ?thesis by simp
qed

lemma mutex_ok_step:
  assumes "mutex_ok c" "i < length (threads c)" "step_effect i c c' t'"
  shows "mutex_ok c'"
  unfolding mutex_ok_def
proof (intro conjI allI impI)
  fix j
  assume j: "j < length (threads c')"
  have l: "j < length (threads c)" using j assms(3) by (simp add: step_effect_def)
  have "point_ok (tables c') (threads c' ! j) \<and> (cost_mutex c' = Some j) = (point (threads c' ! j) \<noteq> Outside)"
  proof (cases "j = i")
    case True
    then show ?thesis using assms(2,3) by (auto simp: step_effect_def)
  next
    case False
    have "cost_mutex c \<noteq> Some j" using False assms(3) by (auto simp: step_effect_def)
    then have "point (threads c ! j) = Outside" using assms(1) l by (simp add: mutex_ok_def)
    then show ?thesis using False assms(3) by (auto simp: step_effect_def)
  qed
  then show "point_ok (tables c') (threads c' ! j)"
    "(cost_mutex c' = Some j) = (point (threads c' ! j) \<noteq> Outside)" by simp_all
next
  fix j
  assume "cost_mutex c' = Some j"
  then show "j < length (threads c')" using assms(2,3) by (auto simp: step_effect_def split: if_splits)
qed

lemma accounted_step:
  assumes "accounted st all c" "i < length (threads c)" "step_effect i c c' t'"
  shows "accounted st all c'"
proof -
  obtain ended where e: "mset ended + (\<Sum>t\<leftarrow>threads c. mset (pending t)) = all"
      "tables c = fold exec_call ended st"
    using assms(1) by (auto simp: accounted_def)
  have s: "(\<Sum>t\<leftarrow>threads c'. mset (pending t)) + mset (pending (threads c ! i))
      = (\<Sum>t\<leftarrow>threads c. mset (pending t)) + mset (pending t')"
    using sum_list_update [OF assms(2), of "\<lambda>t. mset (pending t)" t'] assms(3) by (simp add: step_effect_def)
  from assms(3) consider "tables c' = tables c" "pending (threads c ! i) = pending t'"
    | call where "tables c' = exec_call call (tables c)" "pending (threads c ! i) = call # pending t'"
    unfolding step_effect_def by blast
  then show ?thesis
  proof cases
    case 1
    then show ?thesis using e s by (auto simp: accounted_def)
  next
    case 2
    then have "mset (ended @ [call]) + (\<Sum>t\<leftarrow>threads c'. mset (pending t)) = all"
      using e(1) s by (simp flip: e(1))
    then show ?thesis unfolding accounted_def using 2(1) e(2) by (intro exI [of _ "ended @ [call]"]) simp
  qed
qed

lemma run_schedule_invariant:
  "run_schedule is c = Some c' \<Longrightarrow> mutex_ok c \<Longrightarrow> accounted st all c \<Longrightarrow>
     mutex_ok c' \<and> accounted st all c'
     \<and> length is + sum_list (map steps_left (threads c')) \<le> sum_list (map steps_left (threads c))"
proof (induction "is" arbitrary: c)
  case (Cons i "is")
  then obtain c1 where c1: "thread_step i c = Some c1" "run_schedule is c1 = Some c'"
    by (auto simp: bind_eq_Some_conv)
  obtain t' where t: "i < length (threads c)" "step_effect i c c1 t'"
    using thread_step_effect [OF c1(1) Cons.prems(2)] by blast
  have "sum_list (map steps_left (threads c1)) < sum_list (map steps_left (threads c))"
    using sum_list_update [OF t(1), of steps_left t'] t(2) by (simp add: step_effect_def)
  then show ?case
    using Cons.IH [OF c1(2) mutex_ok_step [OF Cons.prems(2) t] accounted_step [OF Cons.prems(3) t]] by simp
qed simp

text \<open>No deadlock: while a thread has a call to make, some thread can take a step.\<close>

lemma thread_can_step:
  assumes "mutex_ok c" "i < length (threads c)" "calls (threads c ! i) \<noteq> []"
  shows "\<exists>j. thread_step j c \<noteq> None"
proof (cases "cost_mutex c")
  case None
  then have "point (threads c ! i) = Outside" using assms by (auto simp: mutex_ok_def)
  then show ?thesis
    using assms(2,3) None by (intro exI [of _ i]) (simp add: thread_step_def split: list.splits)
next
  case (Some j)
  then have j: "j < length (threads c)" using assms(1) by (auto simp: mutex_ok_def)
  then have "point (threads c ! j) \<noteq> Outside" "point_ok (tables c) (threads c ! j)"
    using assms(1) Some by (auto simp: mutex_ok_def)
  then show ?thesis
    using j by (intro exI [of _ j])
      (auto simp: thread_step_def point_ok_def split: list.splits call_point.splits)
qed

text \<open>
  C37. The mutex makes the tables of advertised costs independent of the scheduling. Let
  several threads each make a sequence of calls of \<open>update_sent_cost\<close>, \<open>update_recv_cost\<close> and
  \<open>normalization\<close>, with their steps, from taking the lock over the lookup, the load and the
  store to the release, interleaved in any way. A run has at most five steps for
  every call, and when no thread can take a step any more, every thread has made all
  its calls, the mutex is free, and the tables are those after the calls of the first
  thread, then those of the second, and so on, each done at once: no increment is lost.
\<close>

theorem advcost_interleaving:
  assumes "run_schedule schedule (pool_start st callss) = Some c"
  shows "length schedule \<le> 5 * length (concat callss)
     \<and> ((\<exists>i. thread_step i c \<noteq> None)
        \<or> (list_all (\<lambda>t. calls t = []) (threads c) \<and> cost_mutex c = None
           \<and> tables c = fold exec_call (concat callss) st))"
proof -
  have st: "mutex_ok (pool_start st callss)" "accounted st (mset (concat callss)) (pool_start st callss)"
    "sum_list (map steps_left (threads (pool_start st callss))) = 5 * length (concat callss)"
    by (auto simp: mutex_ok_def pool_start_def accounted_def pending_def steps_left_def mset_concat
        length_concat sum_list_const_mult o_def)
  note inv = run_schedule_invariant [OF assms st(1,2)]
  have "list_all (\<lambda>t. calls t = []) (threads c) \<and> cost_mutex c = None
       \<and> tables c = fold exec_call (concat callss) st" if stuck: "\<not> (\<exists>i. thread_step i c \<noteq> None)"
  proof -
    have e: "\<forall>t\<in>set (threads c). calls t = []"
      using thread_can_step [of c] inv stuck by (metis in_set_conv_nth)
    then have "\<forall>t\<in>set (threads c). point t = Outside"
      using inv by (metis in_set_conv_nth mutex_ok_def point_ok_def)
    then have f: "cost_mutex c = None" using inv by (metis mutex_ok_def nth_mem option.exhaust)
    have "map (\<lambda>t. mset (pending t)) (threads c) = map (\<lambda>t. {#}) (threads c)"
      using e by (simp add: pending_def)
    then obtain ended where "mset ended = mset (concat callss)" "tables c = fold exec_call ended st"
      using inv unfolding accounted_def by (metis add.right_neutral sum_list_0)
    then show ?thesis using e f exec_calls_order [of ended "concat callss"] by (simp add: list_all_iff)
  qed
  moreover have "length schedule \<le> 5 * length (concat callss)" using inv st(3) by simp
  ultimately show ?thesis by blast
qed

theorem advcost_interleaving_witness:
  "map_option (\<lambda>c. advcost_sent (tables c) 7)
     (run_schedule [0, 0, 0, 0, 1, 1, 1, 1, 1]
        (pool_start \<lparr>path_costs = Map.empty, advcost_sent = Map.empty, advcost_recv = Map.empty\<rparr>
           [[Sent_Cost 7 1], [Sent_Cost 7 3]])) = Some (Some 4)"
proof -
  let ?st = "\<lparr>path_costs = Map.empty, advcost_sent = Map.empty, advcost_recv = Map.empty\<rparr>"
  let ?p = "pool_start ?st [[Sent_Cost 7 1], [Sent_Cost 7 3]]"
  let ?done = "\<lparr>calls = [], point = Outside\<rparr>"
  let ?c = "\<lparr>tables = ?st\<lparr>advcost_sent := [7 \<mapsto> 4]\<rparr>, cost_mutex = None, threads = [?done, ?done]\<rparr>"
  have r: "run_schedule [0, 0, 0, 0, 1, 1, 1, 1, 1] ?p = Some ?c"
    by (simp add: pool_start_def thread_step_def move_def)
  have "thread_step i ?c = None" for i by (auto simp: thread_step_def less_Suc_eq not_le)
  then show ?thesis
    using advcost_interleaving [OF r] unfolding r by (simp add: update_sent_cost_def increment_map_value_def)
qed

subsection \<open>The portal\<close>

lemma base256_join:
  fixes n :: nat
  shows "n mod 256 + 256 * (n div 256 mod 256 + 256 * (n div 65536)) = n"
proof -
  have "256 * (n div 65536) + n div 256 mod 256 = n div 256"
    using mult_div_mod_eq [of 256 "n div 256"] by (simp only: div_mult2_eq [symmetric]) simp
  then have "n div 256 mod 256 + 256 * (n div 65536) = n div 256" by simp
  then show ?thesis using mult_div_mod_eq [of 256 n] by simp
qed

lemma le_value_frame:
  assumes "length body \<le> 4000000"
  shows "le_value (take 4 (frame body @ rest)) = length body"
proof -
  define n where "n = length body"
  have u: "unat (of_nat m :: u8) = m mod 256" for m by (simp add: unat_of_nat)
  have z: "n div 65536 mod 256 = n div 65536" "n div 16777216 = 0"
    using assms unfolding n_def by (simp_all add: div_less_iff_less_mult div_eq_0_iff)
  have "take 4 (frame body @ rest) = [of_nat n, of_nat (n div 256), of_nat (n div 65536), of_nat (n div 16777216)]"
    by (simp add: frame_def n_def)
  then have "le_value (take 4 (frame body @ rest))
      = n mod 256 + 256 * (n div 256 mod 256 + 256 * (n div 65536))"
    by (simp only: le_value.simps u z) simp
  then show ?thesis unfolding base256_join n_def .
qed

lemma portal_frame:
  assumes "length body \<le> 4000000"
  shows "cost_portal_handle_connection unpack (frame body @ rest) st = do {
     msg \<leftarrow> unpack body;
     if close_conn msg = Some True then Some (apply_wiser_back st msg)
     else cost_portal_handle_connection unpack rest (apply_wiser_back st msg) }"
proof -
  have d: "drop 4 (frame body @ rest) = body @ rest" "(frame body @ rest = []) = False"
    "drop (length body) (body @ rest) = rest" "take (length body) (body @ rest) = body"
    by (simp_all add: frame_def)
  show ?thesis
    by (subst cost_portal_handle_connection.simps)
       (simp only: Let_def le_value_frame [OF assms] d, use assms in \<open>simp add: not_less\<close>)
qed

text \<open>
  The state after the reports of some messages: the entry of an AS grows, modulo
  \<open>2 ^ 32\<close>, by the sum of the costs reported for it.
\<close>

definition account :: "wiser_state \<Rightarrow> backprop list \<Rightarrow> wiser_state" where
  "account st msgs =
     (let reports = List.map_filter wiser_back msgs
      in st\<lparr>advcost_sent := (\<lambda>as.
           if advcost_sent st as = None \<and> as \<notin> fst ` set reports then None
           else Some ((case advcost_sent st as of None \<Rightarrow> 0 | Some v \<Rightarrow> v)
                      + sum_list (map snd (filter (\<lambda>r. fst r = as) reports))))\<rparr>)"

lemma account_Nil [simp]: "account st [] = st"
proof -
  have "(\<lambda>as. if advcost_sent st as = None then None
              else Some (case advcost_sent st as of None \<Rightarrow> 0 | Some v \<Rightarrow> v)) = advcost_sent st"
    by (auto split: option.splits)
  then show ?thesis by (simp add: account_def List.map_filter_simps cong: if_cong)
qed

lemma account_Cons: "account st (m # msgs) = account (apply_wiser_back st m) msgs"
proof (cases "wiser_back m")
  case None
  then show ?thesis by (simp add: account_def apply_wiser_back_def List.map_filter_simps)
next
  case (Some r)
  obtain as cost where "r = (as, cost)" by fastforce
  with Some show ?thesis
    by (auto simp: account_def apply_wiser_back_def update_sent_cost_def increment_map_value_def
        List.map_filter_simps Let_def fun_eq_iff add_ac split: option.splits)
qed

lemma account_snoc: "apply_wiser_back (account st msgs) m = account st (msgs @ [m])"
  by (induction msgs arbitrary: st) (simp_all add: account_Cons)

lemma portal_frames:
  "list_all (\<lambda>b. length b \<le> 4000000) bodies \<Longrightarrow> map unpack bodies = map Some msgs \<Longrightarrow>
     list_all (\<lambda>m. close_conn m \<noteq> Some True) msgs \<Longrightarrow>
     cost_portal_handle_connection unpack (concat (map frame bodies) @ rest) st
     = cost_portal_handle_connection unpack rest (account st msgs)"
proof (induction bodies arbitrary: msgs st)
  case (Cons b bodies)
  then obtain m ms where m: "msgs = m # ms" "unpack b = Some m" "map unpack bodies = map Some ms"
    by (cases msgs) auto
  have "cost_portal_handle_connection unpack (concat (map frame (b # bodies)) @ rest) st
      = cost_portal_handle_connection unpack (concat (map frame bodies) @ rest) (apply_wiser_back st m)"
    using Cons.prems(1,3) m portal_frame [of b unpack "concat (map frame bodies) @ rest" st] by simp
  then show ?case using Cons.IH [OF _ m(3)] Cons.prems(1,3) m(1) by (simp add: account_Cons)
qed simp


text \<open>A decoder for the witness: the empty message reports 30, the one with byte 1 reports 5 and closes.\<close>

definition tiny_unpack :: "u8 list \<Rightarrow> backprop option" where
  "tiny_unpack b =
     (if b = [] then Some \<lparr>ping = None, close_conn = None, wiser_back = Some (7, 30)\<rparr>
      else if b = [1] then Some \<lparr>ping = None, close_conn = Some True, wiser_back = Some (7, 5)\<rparr>
      else None)"


text \<open>
  C39. A report crosses the gulf: what a router sends to the portal of another AS, when
  the generated codec restores the message and it is not larger than the portal
  accepts, increments the sender's entry in the table of that AS by the reported
  cost and changes nothing else.
\<close>

theorem wiser_portal_exchange:
  assumes "\<And>m. unpack (pack m) = Some m" "length (pack \<lparr>ping = None, close_conn = None, wiser_back = Some (own, cost)\<rparr>) \<le> 4000000"
  shows "cost_portal_handle_connection unpack (wiser_contact_cost_portal pack (address, own, cost)) st
           = Some (update_sent_cost st own cost)"
  using portal_frame [OF assms(2), of unpack "[]" st]
  by (simp add: wiser_contact_cost_portal_def assms(1) apply_wiser_back_def
      cost_portal_handle_connection.simps [of unpack "[]"])

text \<open>A codec for the reports alone, to show that the hypotheses can hold.\<close>

definition report_pack :: "backprop \<Rightarrow> u8 list" where
  "report_pack m = (case ping m of None \<Rightarrow> [0, 0, 0, 0, 0] | Some p \<Rightarrow> 1 # be32 p)
     @ (case close_conn m of None \<Rightarrow> [0] | Some b \<Rightarrow> [if b then 2 else 1])
     @ (case wiser_back m of None \<Rightarrow> [0] | Some (as, cost) \<Rightarrow> [1] @ be32 as @ be32 cost)"

definition report_unpack :: "u8 list \<Rightarrow> backprop option" where
  "report_unpack b = Some
     \<lparr>ping = (if b ! 0 = 0 then None else Some (of_be32 (take 4 (drop 1 b)))),
      close_conn = (if b ! 5 = 0 then None else Some (b ! 5 = 2)),
      wiser_back = (if b ! 6 = 0 then None
                    else Some (of_be32 (take 4 (drop 7 b)), of_be32 (take 4 (drop 11 b))))\<rparr>"

lemma report_codec: "report_unpack (report_pack m) = Some m"
  by (cases m; cases "ping m"; cases "close_conn m"; cases "wiser_back m")
     (auto simp: report_pack_def report_unpack_def be32_def nth_append of_be32_be32 [unfolded be32_def])

theorem wiser_portal_exchange_witness:
  "cost_portal_handle_connection report_unpack (wiser_contact_cost_portal report_pack (167772161, 65001, 30))
     \<lparr>path_costs = Map.empty, advcost_sent = Map.empty, advcost_recv = Map.empty\<rparr>
   = Some \<lparr>path_costs = Map.empty, advcost_sent = [65001 \<mapsto> 30], advcost_recv = Map.empty\<rparr>"
proof -
  have "length (report_pack \<lparr>ping = None, close_conn = None, wiser_back = Some (65001, 30)\<rparr>) \<le> 4000000"
    by (simp add: report_pack_def)
  from wiser_portal_exchange [of report_unpack report_pack, OF report_codec this] show ?thesis
    by (simp add: update_sent_cost_def increment_map_value_def)
qed

end
