(* ===== verification/Tarpan.thy ===== *)
theory Tarpan
  imports Wiser Interning
begin

text \<open>
  The Tarpan attribute: \<open>bgpd/bgp_tarpan.c\<close> and the code of \<open>bgpd/bgp_attr.c\<close> that
  parses the attribute of an UPDATE, supplies a default one and writes it.

  A \<open>struct tarpan\<close> owns the message it points to, so the model keeps the message
  beside its address. \<open>pack\<close> and \<open>unpack\<close> are the generated functions
  \<open>tarpan_msg__pack\<close> and \<open>tarpan_msg__unpack\<close>. The addresses an allocation returns are
  arguments of the operations. The protocol API is the record
  \<open>tarpan_protocol_handler\<close> of functions on a protocol's state.
\<close>

record tarpan =
  tp_refcnt :: nat
  tp_message :: "(u64 \<times> tarpan_msg) option"

record 's tarpan_protocol_handler =
  packet_received_handler :: "'s \<Rightarrow> peer \<Rightarrow> tarpan_msg \<Rightarrow> 's \<times> tarpan_msg \<times> portal_job list"
  initialize_packet :: "'s \<Rightarrow> peer \<Rightarrow> tarpan_msg \<Rightarrow> 's \<times> tarpan_msg"
  update_packet :: "'s \<Rightarrow> peer \<Rightarrow> tarpan_msg \<Rightarrow> 's \<times> tarpan_msg"

record 's tarpan_state =
  tarpan_hash :: "tarpan interned"
  tarpan_active_handler :: "'s tarpan_protocol_handler option"
  tarpan_protocol_data :: 's

definition wiser_protocol_handler :: "wiser_state tarpan_protocol_handler" where
  "wiser_protocol_handler =
     \<lparr>packet_received_handler = wiser_packet_received_handler,
      initialize_packet = wiser_initialize_packet,
      update_packet = wiser_update_packet\<rparr>"

definition wiser_protocol_init :: "string list \<Rightarrow> wiser_state \<Rightarrow> wiser_state option" where
  "wiser_protocol_init conf st = do {
     costs \<leftarrow> wiser_static_path_costs_init conf (path_costs st);
     Some (wiser_costs_table_init (st\<lparr>path_costs := costs\<rparr>)) }"

definition tarpan_set_protocol_handler ::
  "'s tarpan_protocol_handler \<Rightarrow> 's tarpan_state \<Rightarrow> 's tarpan_state" where
  "tarpan_set_protocol_handler handler st = st\<lparr>tarpan_active_handler := Some handler\<rparr>"

definition tarpan_protocol_init :: "string list \<Rightarrow> wiser_state tarpan_state \<Rightarrow> wiser_state tarpan_state option" where
  "tarpan_protocol_init conf st = do {
     w \<leftarrow> wiser_protocol_init conf (tarpan_protocol_data st);
     Some (tarpan_set_protocol_handler wiser_protocol_handler (st\<lparr>tarpan_protocol_data := w\<rparr>)) }"

abbreviation (input) TARPAN_VERSION :: u32 where "TARPAN_VERSION \<equiv> 12"

definition tarpan_new :: tarpan where
  "tarpan_new = \<lparr>tp_refcnt = 0, tp_message = None\<rparr>"

definition tarpan_message_new :: tarpan_msg where
  "tarpan_message_new =
     \<lparr>version = TARPAN_VERSION, msg_wiser = None, pathlets = None, unknown_fields = []\<rparr>"

definition tarpan_copy :: "(tarpan_msg \<Rightarrow> u8 list) \<Rightarrow> (u8 list \<Rightarrow> tarpan_msg option) \<Rightarrow> u64
    \<Rightarrow> tarpan \<Rightarrow> tarpan option" where
  "tarpan_copy pack unpack newmsg tarp =
     (case tp_message tarp of
        None \<Rightarrow> Some tarpan_new
      | Some (_, m) \<Rightarrow> do {
          m \<leftarrow> unpack (pack m);
          Some (tarpan_new\<lparr>tp_message := Some (newmsg, m)\<rparr>) })"

subsection \<open>The table of attributes\<close>

text \<open>The hash is the address of the message, cut to 32 bits.\<close>

definition tarpan_hash_make :: "tarpan \<Rightarrow> u32" where
  "tarpan_hash_make t = (case tp_message t of None \<Rightarrow> 0 | Some (ptr, _) \<Rightarrow> ucast ptr)"

definition tarpan_cmp :: "tarpan \<Rightarrow> tarpan \<Rightarrow> bool" where
  "tarpan_cmp p1 p2 \<longleftrightarrow> tarpan_hash_make p1 = tarpan_hash_make p2"

definition tarpan_intern :: "tarpan interned \<Rightarrow> nat \<Rightarrow> (nat \<times> tarpan interned) option" where
  "tarpan_intern st tarp = do {
     x \<leftarrow> objs st tarp;
     assert_that (tp_refcnt x = 0);
     let (find, tab, u) = hash_get (pkey (objs st) tarpan_hash_make) (pcmp (objs st) tarpan_cmp)
                            (table st) tarp (Some hash_alloc_intern) ();
     find \<leftarrow> find;
     let mem = (if find \<noteq> tarp then (objs st)(tarp := None) else objs st);
     y \<leftarrow> mem find;
     Some (find, \<lparr>objs = mem(find \<mapsto> y\<lparr>tp_refcnt := tp_refcnt y + 1\<rparr>), table = tab\<rparr>) }"

definition tarpan_unintern :: "tarpan interned \<Rightarrow> nat \<Rightarrow> tarpan interned option" where
  "tarpan_unintern st tarp = do {
     x \<leftarrow> objs st tarp;
     let x = (if tp_refcnt x \<noteq> 0 then x\<lparr>tp_refcnt := tp_refcnt x - 1\<rparr> else x);
     let mem = (objs st)(tarp \<mapsto> x);
     if tp_refcnt x = 0 then do {
       let (ret, tab) = hash_release (pkey mem tarpan_hash_make) (pcmp mem tarpan_cmp) (table st) tarp;
       assert_that (ret \<noteq> None);
       Some \<lparr>objs = mem(tarp := None), table = tab\<rparr> }
     else Some (st\<lparr>objs := mem\<rparr>) }"

definition tarpan_init :: "tarpan interned option" where
  "tarpan_init = do { tab \<leftarrow> hash_create; Some \<lparr>objs = (\<lambda>_. None), table = tab\<rparr> }"

text \<open>\<open>tarpan_finish\<close> drops the table and what is left in it.\<close>

definition tarpan_parse :: "(u8 list \<Rightarrow> tarpan_msg option) \<Rightarrow> nat \<Rightarrow> u64 \<Rightarrow> u8 list
    \<Rightarrow> tarpan interned \<Rightarrow> (nat \<times> tarpan interned) option" where
  "tarpan_parse unpack new newmsg pnt st = do {
     msg \<leftarrow> unpack pnt;
     tarpan_intern (st\<lparr>objs := (objs st)(new \<mapsto> tarpan_new\<lparr>tp_message := Some (newmsg, msg)\<rparr>)\<rparr>) new }"

subsection \<open>Packets\<close>

definition tarpan_initialize_packet :: "u64 \<Rightarrow> 's tarpan_state \<Rightarrow> peer \<Rightarrow> tarpan
    \<Rightarrow> 's tarpan_state \<times> tarpan" where
  "tarpan_initialize_packet newmsg st peer tarp =
     (case tarpan_active_handler st of
        None \<Rightarrow> (st, tarp\<lparr>tp_message := Some (newmsg, tarpan_message_new)\<rparr>)
      | Some h \<Rightarrow>
          (let (s, m) = initialize_packet h (tarpan_protocol_data st) peer tarpan_message_new
           in (st\<lparr>tarpan_protocol_data := s\<rparr>, tarp\<lparr>tp_message := Some (newmsg, m)\<rparr>)))"

text \<open>A handler that is given an attribute without a message dereferences null.\<close>

definition tarpan_update_packet :: "(tarpan_msg \<Rightarrow> u8 list) \<Rightarrow> (u8 list \<Rightarrow> tarpan_msg option) \<Rightarrow> u64
    \<Rightarrow> 's tarpan_state \<Rightarrow> peer \<Rightarrow> tarpan \<Rightarrow> ('s tarpan_state \<times> tarpan) option" where
  "tarpan_update_packet pack unpack newmsg st peer tarp = do {
     t \<leftarrow> tarpan_copy pack unpack newmsg tarp;
     case tarpan_active_handler st of
       None \<Rightarrow> Some (st, t)
     | Some h \<Rightarrow> do {
         (ptr, m) \<leftarrow> tp_message t;
         let (s, m) = update_packet h (tarpan_protocol_data st) peer m;
         Some (st\<lparr>tarpan_protocol_data := s\<rparr>, t\<lparr>tp_message := Some (ptr, m)\<rparr>) } }"

text \<open>
  The call of \<open>packet_received_handler\<close>: it changes the message of the interned
  attribute in place.
\<close>

definition tarpan_received :: "peer \<Rightarrow> nat \<Rightarrow> 's tarpan_state \<Rightarrow> ('s tarpan_state \<times> portal_job list) option" where
  "tarpan_received peer tarp st =
     (case tarpan_active_handler st of
        None \<Rightarrow> Some (st, [])
      | Some h \<Rightarrow> do {
          x \<leftarrow> objs (tarpan_hash st) tarp;
          (ptr, m) \<leftarrow> tp_message x;
          let (s, m, jobs) = packet_received_handler h (tarpan_protocol_data st) peer m;
          Some (st\<lparr>tarpan_hash := (tarpan_hash st)\<lparr>objs := (objs (tarpan_hash st))
                      (tarp \<mapsto> x\<lparr>tp_message := Some (ptr, m)\<rparr>)\<rparr>,
                   tarpan_protocol_data := s\<rparr>, jobs) })"

abbreviation (input) BGP_ATTR_TARPAN :: u8 where "BGP_ATTR_TARPAN \<equiv> 19"
abbreviation (input) ATTR_FLAG_BIT_TARPAN :: u32 where "ATTR_FLAG_BIT_TARPAN \<equiv> 0x40000"
abbreviation (input) TARPAN_ATTR_FLAGS :: u8 where "TARPAN_ATTR_FLAGS \<equiv> 0xD0"

text \<open>
  \<open>bgp_tarpan_parse\<close> on the pair of \<open>attr->tarpan\<close> and \<open>attr->flag\<close>. \<open>tarpan_parse\<close> never
  returns null, so the branch on a malformed attribute is not taken.
\<close>

definition bgp_tarpan_parse :: "(u8 list \<Rightarrow> tarpan_msg option) \<Rightarrow> nat \<Rightarrow> u64 \<Rightarrow> peer \<Rightarrow> nat
    \<Rightarrow> 's tarpan_state \<Rightarrow> stream \<Rightarrow> u32
    \<Rightarrow> ('s tarpan_state \<times> stream \<times> nat option \<times> u32 \<times> portal_job list) option" where
  "bgp_tarpan_parse unpack new newmsg peer len st ibuf flag =
     (if len = 0 then Some (st, ibuf, None, flag, [])
      else do {
        pnt \<leftarrow> stream_pnt ibuf;
        assert_that (len \<le> length pnt);
        (tarp, tab) \<leftarrow> tarpan_parse unpack new newmsg (take len pnt) (tarpan_hash st);
        ibuf \<leftarrow> stream_forward_getp ibuf len;
        let flag = SET_FLAG flag ATTR_FLAG_BIT_TARPAN;
        (st, jobs) \<leftarrow> tarpan_received peer tarp (st\<lparr>tarpan_hash := tab\<rparr>);
        Some (st, ibuf, Some tarp, flag, jobs) })"

text \<open>The end of \<open>bgp_attr_parse\<close>: an UPDATE without the attribute is given a fresh one.\<close>

definition bgp_attr_ensure_tarpan :: "nat \<Rightarrow> u64 \<Rightarrow> peer \<Rightarrow> 's tarpan_state \<Rightarrow> nat option \<Rightarrow> u32
    \<Rightarrow> ('s tarpan_state \<times> nat option \<times> u32 \<times> portal_job list) option" where
  "bgp_attr_ensure_tarpan new newmsg peer st tarp flag =
     (if CHECK_FLAG flag ATTR_FLAG_BIT_TARPAN then Some (st, tarp, flag, [])
      else do {
        let t = tarpan_new\<lparr>tp_message := Some (newmsg, tarpan_message_new)\<rparr>;
        let tab = tarpan_hash st;
        (tarp, tab) \<leftarrow> tarpan_intern (tab\<lparr>objs := (objs tab)(new \<mapsto> t)\<rparr>) new;
        (st, jobs) \<leftarrow> tarpan_received peer tarp (st\<lparr>tarpan_hash := tab\<rparr>);
        Some (st, Some tarp, SET_FLAG flag ATTR_FLAG_BIT_TARPAN, jobs) })"

text \<open>
  The part of \<open>bgp_packet_attribute\<close> that writes the attribute. \<open>tarp\<close> is the object
  that \<open>attr->tarpan\<close> points to; the length field is the low half of \<open>len\<close>.
\<close>

definition bgp_packet_tarpan :: "(tarpan_msg \<Rightarrow> u8 list) \<Rightarrow> (u8 list \<Rightarrow> tarpan_msg option) \<Rightarrow> u64
    \<Rightarrow> 's tarpan_state \<Rightarrow> peer \<Rightarrow> u32 \<Rightarrow> tarpan option \<Rightarrow> stream \<Rightarrow> ('s tarpan_state \<times> stream) option" where
  "bgp_packet_tarpan pack unpack newmsg st peer flag tarp s = do {
     (st, t) \<leftarrow> (if \<not> CHECK_FLAG flag ATTR_FLAG_BIT_TARPAN
                 then Some (tarpan_initialize_packet newmsg st peer tarpan_new)
                 else do { t \<leftarrow> tarp; tarpan_update_packet pack unpack newmsg st peer t });
     s \<leftarrow> stream_putc s TARPAN_ATTR_FLAGS;
     s \<leftarrow> stream_putc s BGP_ATTR_TARPAN;
     (ptr, m) \<leftarrow> tp_message t;
     let buf = pack m;
     s \<leftarrow> stream_putw s (of_nat (length buf));
     s \<leftarrow> stream_put s (Some buf) (length buf);
     Some (st, s) }"

subsection \<open>Reference counting\<close>

definition tarpan_set_refcnt :: "nat \<Rightarrow> tarpan \<Rightarrow> tarpan" where
  "tarpan_set_refcnt n x = x\<lparr>tp_refcnt := n\<rparr>"

abbreviation tarpan_good :: "tarpan \<Rightarrow> bool" where
  "tarpan_good x \<equiv> tp_message x \<noteq> None"

lemma tarpan_hash_make_set [simp]: "tarpan_hash_make (x\<lparr>tp_refcnt := n\<rparr>) = tarpan_hash_make x"
  by (simp add: tarpan_hash_make_def)

interpretation tpi: interning tp_refcnt tarpan_set_refcnt tarpan_hash_make tarpan_cmp tarpan_good
  tarpan_intern tarpan_unintern
proof
  show "tarpan_intern st p = intern_object tp_refcnt tarpan_set_refcnt tarpan_hash_make tarpan_cmp st p"
    for st p
    by (simp add: tarpan_intern_def intern_object_def tarpan_set_refcnt_def)
  show "tarpan_unintern st p = unintern_object tp_refcnt tarpan_set_refcnt tarpan_hash_make tarpan_cmp st p"
    for st p
    by (simp add: tarpan_unintern_def unintern_object_def tarpan_set_refcnt_def [abs_def])
qed (auto simp: tarpan_set_refcnt_def tarpan_cmp_def)

abbreviation tarpan_run :: "tarpan interned \<Rightarrow> nat multiset \<Rightarrow> bool" where
  "tarpan_run \<equiv> intern_run tp_refcnt tarpan_set_refcnt tarpan_good tarpan_intern tarpan_unintern"

abbreviation tarpan_inv :: "tarpan interned \<Rightarrow> nat multiset \<Rightarrow> bool" where
  "tarpan_inv \<equiv> intern_inv tp_refcnt tarpan_hash_make tarpan_cmp tarpan_good"

lemma tarpan_inv_message_ex:
  assumes "tarpan_inv st H" "objs st p = Some x"
  shows "\<exists>a m. tp_message x = Some (a, m)"
proof -
  have "tp_message x \<noteq> None" using assms unfolding intern_inv_def by blast
  then show ?thesis by auto
qed

lemma tarpan_cmp_iff:
  "tp_message x = Some (a, m) \<Longrightarrow> tp_message y = Some (b, n) \<Longrightarrow>
     tarpan_cmp x y \<longleftrightarrow> (ucast a :: u32) = ucast b"
  by (simp add: tarpan_cmp_def tarpan_hash_make_def)

text \<open>
  C35. The attribute table identifies attributes by 32 bits of an address. In every
  reachable state, interning a new attribute always succeeds. It returns the new
  object exactly when the address of its message differs in the low 32 bits from
  those of all messages in the table; otherwise it frees the new object with the
  message just received and returns an object with another message.
\<close>

theorem tarpan_intern_by_address:
  assumes run: "tarpan_run st H" and fresh: "objs st p = None"
    and x: "tp_refcnt x = 0" "tp_message x = Some (a, m)" and sz: "hash_size (table st) < 2 ^ 31"
  shows "\<exists>q st'. tarpan_intern (st\<lparr>objs := (objs st)(p \<mapsto> x)\<rparr>) p = Some (q, st')
     \<and> (q = p \<longleftrightarrow> (\<forall>r y b n. objs st r = Some y \<longrightarrow> tp_message y = Some (b, n) \<longrightarrow> (ucast b :: u32) \<noteq> ucast a))
     \<and> (if q = p then objs st' = (objs st)(p \<mapsto> x\<lparr>tp_refcnt := 1\<rparr>)
        else \<exists>y. objs st q = Some y \<and> objs st' = (objs st)(q \<mapsto> y\<lparr>tp_refcnt := tp_refcnt y + 1\<rparr>))"
proof -
  have inv: "tarpan_inv st H" by (rule tpi.run_inv [OF run])
  have good: "tarpan_good x" using x(2) by simp
  have shape: "tarpan_intern (st\<lparr>objs := (objs st)(p \<mapsto> x)\<rparr>) p
      = intern_object tp_refcnt tarpan_set_refcnt tarpan_hash_make tarpan_cmp (st\<lparr>objs := (objs st)(p \<mapsto> x)\<rparr>) p"
    by (rule tpi.intern_shape [of _ _ x]) (use good in simp_all)
  have all: "\<exists>b n. tp_message y = Some (b, n)" if "objs st r = Some y" for r y
    by (rule tarpan_inv_message_ex [OF inv that])
  show ?thesis
  proof (cases "\<exists>q y. objs st q = Some y \<and> tarpan_cmp y x")
    case True
    then obtain q y where q: "objs st q = Some y" "tarpan_cmp y x" by blast
    then obtain b n where b: "tp_message y = Some (b, n)" "(ucast b :: u32) = ucast a"
      using all tarpan_cmp_iff x(2) by blast
    have "tarpan_intern (st\<lparr>objs := (objs st)(p \<mapsto> x)\<rparr>) p
        = Some (q, \<lparr>objs = (objs st)(q \<mapsto> y\<lparr>tp_refcnt := tp_refcnt y + 1\<rparr>), table = table st\<rparr>)"
      using tpi.intern_hit [OF inv fresh x(1) good q] unfolding shape tarpan_set_refcnt_def .
    moreover have "q \<noteq> p" using q(1) fresh by auto
    ultimately show ?thesis using q(1) b by auto
  next
    case False
    then obtain tab where "tarpan_intern (st\<lparr>objs := (objs st)(p \<mapsto> x)\<rparr>) p
        = Some (p, \<lparr>objs = (objs st)(p \<mapsto> x\<lparr>tp_refcnt := 1\<rparr>), table = tab\<rparr>)"
      using tpi.intern_miss [OF inv fresh x(1) good sz] unfolding shape tarpan_set_refcnt_def by blast
    moreover have "\<forall>r y b n. objs st r = Some y \<longrightarrow> tp_message y = Some (b, n) \<longrightarrow> (ucast b :: u32) \<noteq> ucast a"
      using False tarpan_cmp_iff x(2) by blast
    ultimately show ?thesis by simp
  qed
qed

lemma tarpan_init_run: "\<exists>st. tarpan_init = Some st \<and> hash_size (table st) = HASH_INITIAL_SIZE
    \<and> objs st = (\<lambda>_. None) \<and> tarpan_run st {#}"
  by (auto simp: tarpan_init_def hash_create_def hash_create_size_def HASH_INITIAL_SIZE_def hash_ok_def
      entries_def intro!: intern_run.init exI [of _ 8])

theorem tarpan_intern_by_address_witness:
  "\<exists>st st1 st2. tarpan_init = Some st
     \<and> tarpan_intern (st\<lparr>objs := (objs st)(1 \<mapsto> \<lparr>tp_refcnt = 0, tp_message = Some (16, tarpan_message_new)\<rparr>)\<rparr>) 1 = Some (1, st1)
     \<and> tarpan_intern (st1\<lparr>objs := (objs st1)(2 \<mapsto> \<lparr>tp_refcnt = 0, tp_message = Some (4294967312, tarpan_message_new\<lparr>version := 99\<rparr>)\<rparr>)\<rparr>) 2
         = Some (1, st2)"
proof -
  let ?x = "\<lparr>tp_refcnt = 0, tp_message = Some (16, tarpan_message_new)\<rparr>"
  let ?y = "\<lparr>tp_refcnt = 0, tp_message = Some (4294967312, tarpan_message_new\<lparr>version := 99\<rparr>)\<rparr>"
  obtain st where st: "tarpan_init = Some st" "hash_size (table st) = HASH_INITIAL_SIZE"
      "objs st = (\<lambda>_. None)" "tarpan_run st {#}"
    using tarpan_init_run by blast
  obtain st1 where st1: "tarpan_intern (st\<lparr>objs := (objs st)(1 \<mapsto> ?x)\<rparr>) 1 = Some (1, st1)"
      "objs st1 = (objs st)(1 \<mapsto> ?x\<lparr>tp_refcnt := 1\<rparr>)"
    using tarpan_intern_by_address [OF st(4), of 1 ?x] st(2,3) by (auto simp: HASH_INITIAL_SIZE_def)
  have sz: "hash_size (table st1) = 256"
    using st st1(1)
    by (auto simp: tarpan_intern_def hash_get_def HASH_INITIAL_SIZE_def tarpan_init_def hash_create_def
        hash_create_size_def pkey_def tarpan_hash_make_def slot_of_def hash_alloc_intern_def Let_def
        HASH_THRESHOLD_def push_backet_def)
  have "tarpan_run st1 {#1#}"
    using intern_run.intern [OF st(4), of 1 ?x 1 st1] st st1 by (simp add: HASH_INITIAL_SIZE_def)
  from tarpan_intern_by_address [OF this, of 2 ?y] sz
  show ?thesis using st st1 by (auto split: if_splits)
qed

subsection \<open>Receiving\<close>

text \<open>
  The key of an attribute is the address of its message, so changing the message in
  place keeps the table in order.
\<close>

lemma tarpan_inv_message:
  assumes "tarpan_inv st H" "objs st p = Some x" "tp_message x = Some (a, m)"
  shows "tarpan_inv (st\<lparr>objs := (objs st)(p \<mapsto> x\<lparr>tp_message := Some (a, m')\<rparr>)\<rparr>) H"
proof -
  have "tarpan_hash_make (x\<lparr>tp_message := Some (a, m')\<rparr>) = tarpan_hash_make x"
    using assms(3) by (simp add: tarpan_hash_make_def)
  then show ?thesis
    using assms(1,2) unfolding intern_inv_def tarpan_cmp_def by (auto split: if_splits)
qed

definition address_free :: "tarpan interned \<Rightarrow> u64 \<Rightarrow> bool" where
  "address_free st a \<longleftrightarrow>
     (\<forall>r y b n. objs st r = Some y \<longrightarrow> tp_message y = Some (b, n) \<longrightarrow> (ucast b :: u32) \<noteq> ucast a)"

definition message_at :: "'s tarpan_state \<Rightarrow> nat \<Rightarrow> tarpan_msg option" where
  "message_at st p = do {
     x \<leftarrow> objs (tarpan_hash st) p;
     map_option snd (tp_message x) }"

lemma tarpan_intern_inv:
  assumes inv: "tarpan_inv st H" and fresh: "objs st p = None"
    and x: "tp_refcnt x = 0" "tp_message x = Some (a, m)" and sz: "hash_size (table st) < 2 ^ 31"
  shows "\<exists>q st' y b n. tarpan_intern (st\<lparr>objs := (objs st)(p \<mapsto> x)\<rparr>) p = Some (q, st')
     \<and> tarpan_inv st' (add_mset q H) \<and> objs st' q = Some y \<and> tp_message y = Some (b, n)
     \<and> (address_free st a \<longrightarrow> q = p \<and> y = x\<lparr>tp_refcnt := 1\<rparr>)"
proof -
  have good: "tarpan_good x" using x(2) by simp
  have shape: "tarpan_intern (st\<lparr>objs := (objs st)(p \<mapsto> x)\<rparr>) p
      = intern_object tp_refcnt tarpan_set_refcnt tarpan_hash_make tarpan_cmp (st\<lparr>objs := (objs st)(p \<mapsto> x)\<rparr>) p"
    by (rule tpi.intern_shape [of _ _ x]) (use good in simp_all)
  obtain q st' y where q: "tarpan_intern (st\<lparr>objs := (objs st)(p \<mapsto> x)\<rparr>) p = Some (q, st')"
      "tarpan_inv st' (add_mset q H)" "objs st' q = Some y"
    using tpi.inv_intern [OF inv fresh x(1) good sz] unfolding shape by blast
  moreover from q(2,3) obtain b n where "tp_message y = Some (b, n)"
    using tarpan_inv_message_ex by blast
  moreover have "q = p \<and> y = x\<lparr>tp_refcnt := 1\<rparr>" if "address_free st a"
  proof -
    have "\<nexists>r z. objs st r = Some z \<and> tarpan_cmp z x"
    proof (intro notI, elim exE conjE)
      fix r z assume z: "objs st r = Some z" "tarpan_cmp z x"
      then obtain b n where "tp_message z = Some (b, n)" using tarpan_inv_message_ex [OF inv] by blast
      with z that x(2) tarpan_cmp_iff show False unfolding address_free_def by blast
    qed
    from tpi.intern_miss [OF inv fresh x(1) good sz this] q(1,3)
    show ?thesis unfolding shape by (auto simp: tarpan_set_refcnt_def)
  qed
  ultimately show ?thesis by blast
qed

lemma tarpan_received_inv:
  assumes "tarpan_inv (tarpan_hash st) H" "objs (tarpan_hash st) p = Some x" "tp_message x = Some (a, m)"
    and "tarpan_active_handler st = Some h"
    and "packet_received_handler h (tarpan_protocol_data st) peer m = (d, m', jobs)"
  shows "\<exists>st'. tarpan_received peer p st = Some (st', jobs)
     \<and> tarpan_inv (tarpan_hash st') H \<and> message_at st' p = Some m'
     \<and> tarpan_protocol_data st' = d \<and> tarpan_active_handler st' = Some h"
  using assms tarpan_inv_message [OF assms(1-3), of m']
  by (simp add: tarpan_received_def message_at_def)

lemma bgp_tarpan_parse_result:
  assumes inv: "tarpan_inv (tarpan_hash st) H" and h: "tarpan_active_handler st = Some h"
    and s: "stream_ok ibuf" "len \<le> length (unread ibuf)" "0 < len"
    and new: "objs (tarpan_hash st) new = None" "hash_size (table (tarpan_hash st)) < 2 ^ 31"
  shows "case unpack (take len (unread ibuf)) of
      None \<Rightarrow> bgp_tarpan_parse unpack new newmsg peer len st ibuf flag = None
    | Some m \<Rightarrow> \<exists>st' q jobs.
        bgp_tarpan_parse unpack new newmsg peer len st ibuf flag
          = Some (st', ibuf\<lparr>getp := getp ibuf + len\<rparr>, Some q, flag OR 0x40000, jobs)
        \<and> tarpan_inv (tarpan_hash st') (add_mset q H)
        \<and> (address_free (tarpan_hash st) newmsg \<longrightarrow> q = new
             \<and> (\<exists>m' d. packet_received_handler h (tarpan_protocol_data st) peer m = (d, m', jobs)
                  \<and> message_at st' q = Some m' \<and> tarpan_protocol_data st' = d
                  \<and> tarpan_active_handler st' = Some h))"
proof -
  have pnt: "stream_pnt ibuf = Some (drop (getp ibuf) (stream_data ibuf))"
      "len \<le> length (drop (getp ibuf) (stream_data ibuf))"
      "take len (drop (getp ibuf) (stream_data ibuf)) = take len (unread ibuf)"
    using s data_ge_unread [OF s(1)] unread_drop_data [OF s(1,2)]
    by (simp_all add: stream_pnt_def stream_ok_sane)
  have fwd: "stream_forward_getp ibuf len = Some (ibuf\<lparr>getp := getp ibuf + len\<rparr>)"
    using s length_unread [OF s(1)]
    by (auto simp: stream_forward_getp_def stream_ok_sane stream_ok_def GETP_VALID_def szadd_exact)
  show ?thesis
  proof (cases "unpack (take len (unread ibuf))")
    case None
    then show ?thesis using s(3) pnt by (simp add: bgp_tarpan_parse_def tarpan_parse_def)
  next
    case (Some m)
    let ?x = "tarpan_new\<lparr>tp_message := Some (newmsg, m)\<rparr>"
    obtain q tab y b n where q: "tarpan_intern ((tarpan_hash st)\<lparr>objs := (objs (tarpan_hash st))(new \<mapsto> ?x)\<rparr>) new
          = Some (q, tab)" "tarpan_inv tab (add_mset q H)" "objs tab q = Some y" "tp_message y = Some (b, n)"
        "address_free (tarpan_hash st) newmsg \<longrightarrow> q = new \<and> y = ?x\<lparr>tp_refcnt := 1\<rparr>"
      using tarpan_intern_inv [OF inv new(1) _ _ new(2), of ?x newmsg m] by (auto simp: tarpan_new_def)
    obtain d m' jobs where r: "packet_received_handler h (tarpan_protocol_data st) peer n = (d, m', jobs)"
      by (cases "packet_received_handler h (tarpan_protocol_data st) peer n") auto
    obtain st' where st': "tarpan_received peer q (st\<lparr>tarpan_hash := tab\<rparr>) = Some (st', jobs)"
        "tarpan_inv (tarpan_hash st') (add_mset q H)" "message_at st' q = Some m'"
        "tarpan_protocol_data st' = d" "tarpan_active_handler st' = Some h"
      using tarpan_received_inv [of "st\<lparr>tarpan_hash := tab\<rparr>" "add_mset q H" q y b n h peer d m' jobs] q h r by auto
    have "bgp_tarpan_parse unpack new newmsg peer len st ibuf flag
        = Some (st', ibuf\<lparr>getp := getp ibuf + len\<rparr>, Some q, flag OR 0x40000, jobs)"
      using s(3) pnt fwd Some q(1) st'(1)
      by (simp add: bgp_tarpan_parse_def tarpan_parse_def SET_FLAG_def)
    moreover have "address_free (tarpan_hash st) newmsg \<longrightarrow> n = m" using q(4,5) by auto
    ultimately show ?thesis using Some st' q(5) r by auto
  qed
qed

text \<open>
  C34. What a received attribute does. On a well-formed input buffer that holds the
  \<open>len > 0\<close> bytes of the attribute, an attribute that does not decode ends the
  process. One that decodes is interned, with one more reference, and the table
  stays in order; when the address of the message is free in the table, the
  attribute is a new object whose message is what the protocol's handler made of
  the received one.
\<close>

theorem bgp_tarpan_parse_cases:
  assumes inv: "tarpan_inv (tarpan_hash st) H" and h: "tarpan_active_handler st = Some h"
    and s: "stream_ok ibuf" "len \<le> length (unread ibuf)" "0 < len"
    and new: "objs (tarpan_hash st) new = None" "hash_size (table (tarpan_hash st)) < 2 ^ 31"
  shows "case unpack (take len (unread ibuf)) of
      None \<Rightarrow> bgp_tarpan_parse unpack new newmsg peer len st ibuf flag = None
    | Some m \<Rightarrow> \<exists>st' q jobs.
        bgp_tarpan_parse unpack new newmsg peer len st ibuf flag
          = Some (st', ibuf\<lparr>getp := getp ibuf + len\<rparr>, Some q, flag OR 0x40000, jobs)
        \<and> tarpan_inv (tarpan_hash st') (add_mset q H)
        \<and> (address_free (tarpan_hash st) newmsg \<longrightarrow> q = new
             \<and> (\<exists>m' d. packet_received_handler h (tarpan_protocol_data st) peer m = (d, m', jobs)
                  \<and> message_at st' q = Some m' \<and> tarpan_protocol_data st' = d
                  \<and> tarpan_active_handler st' = Some h))"
  by (rule bgp_tarpan_parse_result [OF assms])

text \<open>A router of AS \<open>own\<close> and its session with a neighbour of AS \<open>remote\<close>, for the examples.\<close>

definition ebgp_peer :: "as_t \<Rightarrow> as_t \<Rightarrow> peer" where
  "ebgp_peer own remote =
     \<lparr>peer_bgp = \<lparr>bgp_as = own, router_id = own, cluster_id = 0, confed_id = 0, bgp_config = 0,
                  bgp_flags = 0, default_local_pref = 100\<rparr>,
      peer_as = remote, peer_sort = BGP_PEER_EBGP, remote_id = remote, su_remote = AF_INET remote\<rparr>"

theorem bgp_tarpan_parse_cases_witness:
  "\<exists>tab. tarpan_init = Some tab \<and>
     bgp_tarpan_parse (\<lambda>_. None) 1 16 (ebgp_peer 65001 65002) 1
       \<lparr>tarpan_hash = tab, tarpan_active_handler = Some wiser_protocol_handler,
        tarpan_protocol_data = \<lparr>path_costs = Map.empty, advcost_sent = Map.empty, advcost_recv = Map.empty\<rparr>\<rparr>
       \<lparr>getp = 0, endp = 1, stream_size = 1, stream_data = [255]\<rparr> 0 = None"
proof -
  obtain tab where tab: "tarpan_init = Some tab" "hash_size (table tab) = HASH_INITIAL_SIZE"
      "objs tab = (\<lambda>_. None)" "tarpan_run tab {#}"
    using tarpan_init_run by blast
  let ?st = "\<lparr>tarpan_hash = tab, tarpan_active_handler = Some wiser_protocol_handler,
      tarpan_protocol_data = \<lparr>path_costs = Map.empty, advcost_sent = Map.empty, advcost_recv = Map.empty\<rparr>\<rparr>"
  have "stream_ok \<lparr>getp = 0, endp = 1, stream_size = 1, stream_data = [255]\<rparr>"
    by (simp add: stream_ok_def szmod_def)
  then show ?thesis
    using bgp_tarpan_parse_cases [of ?st "{#}" wiser_protocol_handler
        "\<lparr>getp = 0, endp = 1, stream_size = 1, stream_data = [255]\<rparr>" 1 1 "\<lambda>_. None"]
      tab tpi.run_inv [OF tab(4)]
    by (auto simp: unread_def span_def HASH_INITIAL_SIZE_def)
qed

subsection \<open>The protocol interface\<close>

text \<open>
  What Tarpan asks of a protocol: its handlers leave alone the parts of the message
  that belong to others, including fields they do not know.
\<close>

definition foreign :: "tarpan_msg \<Rightarrow> u32 \<times> u32 list option \<times> u8 list" where
  "foreign m = (version m, pathlets m, unknown_fields m)"

lemma stream_put_all:
  assumes "stream_ok s" "length b \<le> room s"
  shows "stream_put s (Some b) (length b) = Some (stream_append s b)"
proof -
  have "szadd (endp s) (length b) = endp s + length b" "endp s + length b \<le> stream_size s"
    using assms by (auto simp: stream_ok_def room_def intro!: szadd_exact)
  then show ?thesis using assms by (simp add: stream_put_def CHECK_SIZE_def stream_ok_simps)
qed

lemma stream_put_header:
  assumes "stream_ok s" "4 + length b \<le> room s"
  shows "\<exists>s'. (do { s \<leftarrow> stream_putc s x; s \<leftarrow> stream_putc s y; s \<leftarrow> stream_putw s w;
                   stream_put s (Some b) (length b) }) = Some s'
     \<and> stream_ok s' \<and> unread s' = unread s @ [x, y] @ be16 w @ b"
proof -
  define s1 where "s1 = stream_append s [x]"
  define s2 where "s2 = stream_append s1 [y]"
  define s3 where "s3 = stream_append s2 (be16 w)"
  have 1: "stream_ok s1" "unread s1 = unread s @ [x]" "room s1 = room s - 1"
    using stream_append_ok [OF assms(1), of "[x]"] assms(2) by (simp_all add: s1_def)
  have 2: "stream_ok s2" "unread s2 = unread s @ [x, y]" "room s2 = room s - 2"
    using stream_append_ok [OF 1(1), of "[y]"] 1 assms(2) by (simp_all add: s2_def)
  have 3: "stream_ok s3" "unread s3 = unread s @ [x, y] @ be16 w" "room s3 = room s - 4"
    using stream_append_ok [OF 2(1), of "be16 w"] 2 assms(2) by (simp_all add: s3_def be16_def)
  have "stream_putc s x = Some s1" "stream_putc s1 y = Some s2" "stream_putw s2 w = Some s3"
    using assms 1 2 by (simp_all add: stream_putc_def stream_putw_def stream_ok_simps s1_def s2_def s3_def)
  moreover have "stream_put s3 (Some b) (length b) = Some (stream_append s3 b)"
    using stream_put_all [OF 3(1)] 3(3) assms(2) by simp
  moreover have "stream_ok (stream_append s3 b)" "unread (stream_append s3 b) = unread s @ [x, y] @ be16 w @ b"
    using stream_append_ok [OF 3(1), of b] 3 assms(2) by simp_all
  ultimately show ?thesis by simp
qed

text \<open>What is written for an attribute with message \<open>m\<close>: the header and the updated message.\<close>

lemma bgp_packet_tarpan_writes:
  assumes "tarpan_active_handler st = Some h" "CHECK_FLAG flag 0x40000"
    and "tp_message t = Some (a, m)" "unpack (pack m) = Some m"
    and "update_packet h (tarpan_protocol_data st) peer m = (d, m')"
    and "stream_ok s" "4 + length (pack m') \<le> room s"
  shows "\<exists>s'. bgp_packet_tarpan pack unpack newmsg st peer flag (Some t) s
           = Some (st\<lparr>tarpan_protocol_data := d\<rparr>, s')
     \<and> stream_ok s'
     \<and> unread s' = unread s @ [0xD0, 19] @ be16 (of_nat (length (pack m'))) @ pack m'"
  using assms(1-5) stream_put_header [OF assms(6,7), of "0xD0" 19 "of_nat (length (pack m'))"]
  by (auto simp: bgp_packet_tarpan_def tarpan_update_packet_def tarpan_copy_def bind_eq_Some_conv)

end
