(* ===== verification/Tarpan_Path.thy ===== *)
theory Tarpan_Path
  imports Tarpan
begin

text \<open>
  The attribute on its way through the network: a router writes it into an UPDATE, the
  next one parses it, and so on along a path of routers. The definitions here only
  compose those of the components; \<open>pack\<close> and \<open>unpack\<close> stay parameters, with the
  round trip of the messages at hand as the hypothesis \<open>codec_for\<close>.
\<close>

text \<open>A router that receives: its state, its sessions with the previous and the next
  router, and the addresses its allocator hands out.\<close>

record 's router =
  r_state :: "'s tarpan_state"
  r_in :: peer
  r_out :: peer
  r_new :: nat
  r_newmsg :: u64

definition tarpan_hop :: "(tarpan_msg \<Rightarrow> u8 list) \<Rightarrow> (u8 list \<Rightarrow> tarpan_msg option)
    \<Rightarrow> 's tarpan_state \<Rightarrow> peer \<Rightarrow> u32 \<Rightarrow> tarpan option \<Rightarrow> 's router
    \<Rightarrow> ('s tarpan_state \<times> 's tarpan_state \<times> nat option \<times> u32 \<times> portal_job list) option" where
  "tarpan_hop pack unpack st out flag tarp r = do {
     s \<leftarrow> stream_new (\<lambda>_. 0) 4096;
     (st, s) \<leftarrow> bgp_packet_tarpan pack unpack (r_newmsg r) st out flag tarp s;
     (attr_flags, s) \<leftarrow> stream_getc s;
     (attr_type, s) \<leftarrow> stream_getc s;
     (len, s) \<leftarrow> stream_getw s;
     (st', s, q, flag, jobs) \<leftarrow> bgp_tarpan_parse unpack (r_new r) (r_newmsg r) (r_in r) (unat len) (r_state r) s 0;
     Some (st, st', q, flag, jobs) }"

fun tarpan_path :: "(tarpan_msg \<Rightarrow> u8 list) \<Rightarrow> (u8 list \<Rightarrow> tarpan_msg option)
    \<Rightarrow> 's tarpan_state \<Rightarrow> peer \<Rightarrow> u32 \<Rightarrow> nat option \<Rightarrow> 's router list
    \<Rightarrow> ('s tarpan_state \<times> nat option \<times> portal_job list) option" where
  "tarpan_path pack unpack st out flag tarp [] = Some (st, tarp, [])"
| "tarpan_path pack unpack st out flag tarp (r # rs) = do {
     (st, st', q, flag, jobs) \<leftarrow> tarpan_hop pack unpack st out flag (Option.bind tarp (objs (tarpan_hash st))) r;
     (st, q, jobs') \<leftarrow> tarpan_path pack unpack st' (r_out r) flag q rs;
     Some (st, q, jobs @ jobs') }"

definition codec_for :: "(tarpan_msg \<Rightarrow> u8 list) \<Rightarrow> (u8 list \<Rightarrow> tarpan_msg option) \<Rightarrow> tarpan_msg \<Rightarrow> bool" where
  "codec_for pack unpack m0 \<longleftrightarrow>
     (\<forall>m. foreign m = foreign m0 \<longrightarrow>
        unpack (pack m) = Some m \<and> 0 < length (pack m) \<and> length (pack m) \<le> 4000)"

definition router_ready :: "'s tarpan_protocol_handler \<Rightarrow> 's router \<Rightarrow> bool" where
  "router_ready h r \<longleftrightarrow>
     (\<exists>H. tarpan_inv (tarpan_hash (r_state r)) H)
     \<and> tarpan_active_handler (r_state r) = Some h
     \<and> objs (tarpan_hash (r_state r)) (r_new r) = None
     \<and> hash_size (table (tarpan_hash (r_state r))) < 2 ^ 31
     \<and> address_free (tarpan_hash (r_state r)) (r_newmsg r)"

subsection \<open>One hop\<close>

text \<open>The message a router writes: its own when it originates the route, else the updated one.\<close>

definition outgoing :: "'s tarpan_protocol_handler \<Rightarrow> 's \<Rightarrow> peer \<Rightarrow> tarpan_msg option \<Rightarrow> tarpan_msg" where
  "outgoing h d out m = (case m of None \<Rightarrow> snd (initialize_packet h d out tarpan_message_new)
                                 | Some m \<Rightarrow> snd (update_packet h d out m))"

lemma fresh_stream:
  "\<exists>s. stream_new (\<lambda>_. 0) 4096 = Some s \<and> stream_ok s \<and> unread s = [] \<and> room s = 4096"
  by (auto simp: stream_new_def stream_ok_def unread_def room_def span_def szmod_def)

lemma bgp_packet_tarpan_originates:
  assumes "tarpan_active_handler st = Some h"
    and "initialize_packet h (tarpan_protocol_data st) peer tarpan_message_new = (d, m')"
    and "stream_ok s" "4 + length (pack m') \<le> room s"
  shows "\<exists>s'. bgp_packet_tarpan pack unpack newmsg st peer 0 None s
           = Some (st\<lparr>tarpan_protocol_data := d\<rparr>, s')
     \<and> stream_ok s'
     \<and> unread s' = unread s @ [0xD0, 19] @ be16 (of_nat (length (pack m'))) @ pack m'"
  using assms(1,2) stream_put_header [OF assms(3,4), of "0xD0" 19 "of_nat (length (pack m'))"]
  by (auto simp: bgp_packet_tarpan_def tarpan_initialize_packet_def CHECK_FLAG_def bind_eq_Some_conv)

lemma bgp_packet_tarpan_outgoing:
  assumes h: "tarpan_active_handler st = Some h" and s: "stream_ok s" "4004 \<le> room s"
    and t: "(flag = 0 \<and> tarp = None \<and> m = None)
      \<or> (flag = 0x40000 \<and> (\<exists>t a m1. tarp = Some t \<and> tp_message t = Some (a, m1) \<and> m = Some m1
            \<and> unpack (pack m1) = Some m1))"
    and len: "length (pack (outgoing h (tarpan_protocol_data st) out m)) \<le> 4000"
  shows "\<exists>st' s'. bgp_packet_tarpan pack unpack newmsg st out flag tarp s = Some (st', s')
     \<and> stream_ok s'
     \<and> unread s' = unread s @ [0xD0, 19]
         @ be16 (of_nat (length (pack (outgoing h (tarpan_protocol_data st) out m))))
         @ pack (outgoing h (tarpan_protocol_data st) out m)"
  using t
proof (elim disjE conjE exE)
  assume "flag = 0" "tarp = None" "m = None"
  then show ?thesis
    using bgp_packet_tarpan_originates [where peer = out and pack = pack and unpack = unpack
        and newmsg = newmsg, OF h prod.collapse [symmetric] s(1)] len s(2)
    by (auto simp: outgoing_def)
next
  fix t a m1
  assume "flag = 0x40000" "tarp = Some t" and m1: "tp_message t = Some (a, m1)" "m = Some m1"
    "unpack (pack m1) = Some m1"
  then show ?thesis
    using bgp_packet_tarpan_writes [where peer = out and newmsg = newmsg and flag = flag
        and pack = pack and unpack = unpack,
        OF h _ m1(1,3) prod.collapse [symmetric] s(1)] len s(2)
    by (auto simp: outgoing_def CHECK_FLAG_def)
qed

lemma tarpan_hop_ok:
  assumes h: "tarpan_active_handler st = Some h" and r: "router_ready h r"
    and t: "(flag = 0 \<and> tarp = None \<and> m = None)
      \<or> (flag = 0x40000 \<and> (\<exists>t a m1. tarp = Some t \<and> tp_message t = Some (a, m1) \<and> m = Some m1
            \<and> unpack (pack m1) = Some m1))"
    and codec: "codec_for pack unpack (outgoing h (tarpan_protocol_data st) out m)"
  shows "\<exists>st1 st' jobs d m'. tarpan_hop pack unpack st out flag tarp r = Some (st1, st', Some (r_new r), 0x40000, jobs)
     \<and> packet_received_handler h (tarpan_protocol_data (r_state r)) (r_in r)
          (outgoing h (tarpan_protocol_data st) out m) = (d, m', jobs)
     \<and> message_at st' (r_new r) = Some m' \<and> tarpan_protocol_data st' = d
     \<and> tarpan_active_handler st' = Some h"
proof -
  define mo where "mo = outgoing h (tarpan_protocol_data st) out m"
  have mo: "unpack (pack mo) = Some mo" "0 < length (pack mo)" "length (pack mo) \<le> 4000"
    using codec unfolding codec_for_def mo_def by auto
  obtain s0 where s0: "stream_new (\<lambda>_. 0) 4096 = Some s0" "stream_ok s0" "unread s0 = []" "room s0 = 4096"
    using fresh_stream by blast
  obtain st1 s1 where s1: "bgp_packet_tarpan pack unpack (r_newmsg r) st out flag tarp s0 = Some (st1, s1)"
      "stream_ok s1" "unread s1 = [0xD0] @ [19] @ be16 (of_nat (length (pack mo))) @ pack mo"
    using bgp_packet_tarpan_outgoing [where newmsg = "r_newmsg r" and out = out, OF h s0(2) _ t] mo(3) s0(3,4)
    by (auto simp: mo_def)
  obtain s2 where s2: "stream_getc s1 = Some (0xD0, s2)" "stream_ok s2"
      "unread s2 = [19] @ be16 (of_nat (length (pack mo))) @ pack mo"
    using sc.get_ok [OF s1(2,3)] by blast
  obtain s3 where s3: "stream_getc s2 = Some (19, s3)" "stream_ok s3"
      "unread s3 = be16 (of_nat (length (pack mo))) @ pack mo"
    using sc.get_ok [OF s2(2,3)] by blast
  obtain s4 where s4: "stream_getw s3 = Some (of_nat (length (pack mo)), s4)" "stream_ok s4" "unread s4 = pack mo"
    using sw.get_ok [OF s3(2,3)] by blast
  have len: "unat (of_nat (length (pack mo)) :: u16) = length (pack mo)"
    using mo(3) by (simp add: unat_of_nat)
  obtain H where rr: "tarpan_inv (tarpan_hash (r_state r)) H" "tarpan_active_handler (r_state r) = Some h"
      "objs (tarpan_hash (r_state r)) (r_new r) = None" "hash_size (table (tarpan_hash (r_state r))) < 2 ^ 31"
      "address_free (tarpan_hash (r_state r)) (r_newmsg r)"
    using r unfolding router_ready_def by blast
  have un: "unpack (take (length (pack mo)) (unread s4)) = Some mo" using s4(3) mo(1) by simp
  have "length (pack mo) \<le> length (unread s4)" using s4(3) by simp
  from bgp_tarpan_parse_result [OF rr(1,2) s4(2) this mo(2) rr(3,4), of unpack "r_newmsg r" "r_in r" 0] rr(5)
  obtain st' jobs m' d where "bgp_tarpan_parse unpack (r_new r) (r_newmsg r) (r_in r) (length (pack mo)) (r_state r) s4 0
      = Some (st', s4\<lparr>getp := getp s4 + length (pack mo)\<rparr>, Some (r_new r), 0x40000, jobs)"
    "packet_received_handler h (tarpan_protocol_data (r_state r)) (r_in r) mo = (d, m', jobs)"
    "message_at st' (r_new r) = Some m'" "tarpan_protocol_data st' = d" "tarpan_active_handler st' = Some h"
    unfolding un by auto
  then show ?thesis
    using s0(1) s1(1) s2(1) s3(1) s4(1) len by (simp add: tarpan_hop_def mo_def)
qed

subsection \<open>Protocols\<close>

text \<open>What becomes of the message on a path, as a computation on messages alone.\<close>

fun path_message :: "'s tarpan_protocol_handler \<Rightarrow> 's \<Rightarrow> peer \<Rightarrow> tarpan_msg option \<Rightarrow> 's router list
    \<Rightarrow> tarpan_msg option \<times> portal_job list" where
  "path_message h d out m [] = (m, [])"
| "path_message h d out m (r # rs) =
     (let (d', m', jobs) = packet_received_handler h (tarpan_protocol_data (r_state r)) (r_in r) (outgoing h d out m);
          (m'', jobs') = path_message h d' (r_out r) (Some m') rs
      in (m'', jobs @ jobs'))"

text \<open>The message behind \<open>attr->flag\<close> and \<open>attr->tarpan\<close>, if there is one.\<close>

definition carries :: "'s tarpan_state \<Rightarrow> u32 \<Rightarrow> nat option \<Rightarrow> tarpan_msg option \<Rightarrow> bool" where
  "carries st flag tarp m \<longleftrightarrow> (flag = 0 \<and> tarp = None \<and> m = None)
     \<or> (flag = 0x40000 \<and> (\<exists>p. tarp = Some p \<and> message_at st p = m \<and> m \<noteq> None))"

locale tarpan_protocol =
  fixes h :: "'s tarpan_protocol_handler"
  assumes received_foreign: "packet_received_handler h d peer m = (d', m', jobs) \<Longrightarrow> foreign m' = foreign m"
    and initialize_foreign: "foreign (snd (initialize_packet h d peer m)) = foreign m"
    and update_foreign: "foreign (snd (update_packet h d peer m)) = foreign m"
begin

lemma outgoing_foreign:
  "foreign (outgoing h d out m) = foreign (case m of None \<Rightarrow> tarpan_message_new | Some m \<Rightarrow> m)"
  by (simp add: outgoing_def initialize_foreign update_foreign split: option.splits)

lemma path_ok:
  assumes "codec_for pack unpack m0"
  shows "tarpan_active_handler st = Some h \<Longrightarrow> list_all (router_ready h) rs \<Longrightarrow> carries st flag tarp m \<Longrightarrow>
     foreign (case m of None \<Rightarrow> tarpan_message_new | Some m \<Rightarrow> m) = foreign m0 \<Longrightarrow>
     \<exists>st' tarp' m' jobs. tarpan_path pack unpack st out flag tarp rs = Some (st', tarp', jobs)
       \<and> path_message h (tarpan_protocol_data st) out m rs = (m', jobs)
       \<and> Option.bind tarp' (message_at st') = m'
       \<and> foreign (case m' of None \<Rightarrow> tarpan_message_new | Some m \<Rightarrow> m) = foreign m0"
proof (induction rs arbitrary: st flag tarp m out)
  case Nil
  then show ?case by (auto simp: carries_def)
next
  case (Cons r rs)
  let ?t = "Option.bind tarp (objs (tarpan_hash st))"
  have t: "(flag = 0 \<and> ?t = None \<and> m = None)
      \<or> (flag = 0x40000 \<and> (\<exists>t a m1. ?t = Some t \<and> tp_message t = Some (a, m1) \<and> m = Some m1
            \<and> unpack (pack m1) = Some m1))"
    using Cons.prems(3,4) assms
    by (auto simp: carries_def message_at_def codec_for_def bind_eq_Some_conv)
  have "codec_for pack unpack (outgoing h (tarpan_protocol_data st) out m)"
    using assms Cons.prems(4) outgoing_foreign by (simp add: codec_for_def)
  moreover have "router_ready h r" using Cons.prems(2) by simp
  ultimately obtain st1 st2 jobs d m' where hop: "tarpan_hop pack unpack st out flag ?t r
        = Some (st1, st2, Some (r_new r), 0x40000, jobs)"
      "packet_received_handler h (tarpan_protocol_data (r_state r)) (r_in r)
         (outgoing h (tarpan_protocol_data st) out m) = (d, m', jobs)"
      "message_at st2 (r_new r) = Some m'" "tarpan_protocol_data st2 = d" "tarpan_active_handler st2 = Some h"
    using tarpan_hop_ok [OF Cons.prems(1) _ t] by blast
  have "foreign m' = foreign m0"
    using received_foreign [OF hop(2)] outgoing_foreign Cons.prems(4) by simp
  with Cons.IH [where flag = "0x40000" and tarp = "Some (r_new r)" and m = "Some m'" and out = "r_out r", OF hop(5)] Cons.prems(2) hop
  obtain st' tarp' m'' jobs' where "tarpan_path pack unpack st2 (r_out r) 0x40000 (Some (r_new r)) rs
        = Some (st', tarp', jobs')"
      "path_message h d (r_out r) (Some m') rs = (m'', jobs')"
      "Option.bind tarp' (message_at st') = m''"
      "foreign (case m'' of None \<Rightarrow> tarpan_message_new | Some m \<Rightarrow> m) = foreign m0"
    by (auto simp: carries_def)
  then show ?case using hop by simp
qed

end

interpretation wp: tarpan_protocol wiser_protocol_handler
  by unfold_locales
     (auto simp: wiser_protocol_handler_def foreign_def wiser_packet_received_handler_def
       wiser_initialize_packet_def wiser_update_packet_def Let_def split: if_splits option.splits)

subsection \<open>Wiser costs along a path\<close>

definition link_cost :: "wiser_state router \<Rightarrow> u32" where
  "link_cost r = wiser_get_path_cost (path_costs (tarpan_protocol_data (r_state r)))
                   (peer_as (r_in r)) (bgp_as (peer_bgp (r_in r)))"

text \<open>
  The reports to cost portals: a router whose neighbour is not the last router that
  wrote Wiser data reports the cost so far to the portal of the latter.
\<close>

fun portal_reports :: "peer \<Rightarrow> u32 \<Rightarrow> wiser_state router list \<Rightarrow> portal_job list" where
  "portal_reports out c [] = []"
| "portal_reports out c (r # rs) =
     (if peer_as (r_in r) = bgp_as (peer_bgp out) then []
      else [(router_id (peer_bgp out), bgp_as (peer_bgp (r_in r)), c + link_cost r)])
     @ portal_reports (r_out r) (c + link_cost r) rs"

lemma scale_cost_normalization [simp]: "scale_cost c (normalization p) = c"
  unfolding scale_cost_def normalization_def mult_1_right floor_of_int by simp

definition msg_cost :: "tarpan_msg option \<Rightarrow> u32" where
  "msg_cost m = (case Option.bind m msg_wiser of None \<Rightarrow> 0 | Some w \<Rightarrow> path_cost w)"

lemma wiser_outgoing:
  "\<exists>w. msg_wiser (outgoing wiser_protocol_handler d out m) = Some w \<and> path_cost w = msg_cost m
     \<and> sender_as w = bgp_as (peer_bgp out) \<and> sender_address w = router_id (peer_bgp out)"
  by (simp add: outgoing_def wiser_protocol_handler_def wiser_initialize_packet_def wiser_update_packet_def
      msg_cost_def wiser_new_default_def Let_def split: option.splits)

lemma wiser_received:
  assumes "msg_wiser m = Some w"
  shows "\<exists>d' m' w'. packet_received_handler wiser_protocol_handler d peer m
      = (d', m', if peer_as peer = sender_as w then []
                 else [(sender_address w, bgp_as (peer_bgp peer), path_cost w')])
     \<and> msg_wiser m' = Some w'
     \<and> path_cost w' = path_cost w + wiser_get_path_cost (path_costs d) (peer_as peer) (bgp_as (peer_bgp peer))"
  using assms by (simp add: wiser_protocol_handler_def wiser_packet_received_handler_def Let_def)

lemma path_message_wiser:
  "rs \<noteq> [] \<Longrightarrow> \<exists>m' w. path_message wiser_protocol_handler d out m rs
       = (Some m', portal_reports out (msg_cost m) rs)
     \<and> msg_wiser m' = Some w \<and> path_cost w = msg_cost m + sum_list (map link_cost rs)"
proof (induction rs arbitrary: d out m)
  case (Cons r rs)
  obtain w where w: "msg_wiser (outgoing wiser_protocol_handler d out m) = Some w" "path_cost w = msg_cost m"
      "sender_as w = bgp_as (peer_bgp out)" "sender_address w = router_id (peer_bgp out)"
    using wiser_outgoing by blast
  obtain d' m' w' where r: "packet_received_handler wiser_protocol_handler (tarpan_protocol_data (r_state r)) (r_in r)
        (outgoing wiser_protocol_handler d out m)
      = (d', m', if peer_as (r_in r) = sender_as w then []
                 else [(sender_address w, bgp_as (peer_bgp (r_in r)), path_cost w')])"
      "msg_wiser m' = Some w'" "path_cost w' = path_cost w + link_cost r"
    using wiser_received [OF w(1), of "tarpan_protocol_data (r_state r)" "r_in r"] unfolding link_cost_def by blast
  then have c: "msg_cost (Some m') = msg_cost m + link_cost r" by (simp add: msg_cost_def w(2))
  show ?case
  proof (cases "rs = []")
    case True
    then show ?thesis using r w by simp
  next
    case False
    from Cons.IH [OF this, of d' "r_out r" "Some m'"] c
    show ?thesis using r w by (auto simp: add.assoc)
  qed
qed simp

text \<open>
  C1. Wiser computes the cost of the path. A router originates a route and it travels
  through the routers \<open>rs\<close>, each writing the attribute into its UPDATE and the next
  one parsing it. If the generated codec restores the messages at hand, every router
  accepts the attribute, and at the last one the path cost is the sum, modulo
  \<open>2 ^ 32\<close>, of the configured costs of the links crossed. Whenever the neighbour is not the
  AS that wrote the Wiser data, exactly one report goes to that AS's portal. The
  version and the data of other protocols arrive unchanged.
\<close>

theorem wiser_path_cost_is_sum:
  assumes "codec_for pack unpack tarpan_message_new"
    and "tarpan_active_handler st = Some wiser_protocol_handler"
    and "list_all (router_ready wiser_protocol_handler) rs" "rs \<noteq> []"
  shows "\<exists>st' p m w. tarpan_path pack unpack st out 0 None rs = Some (st', Some p, portal_reports out 0 rs)
     \<and> message_at st' p = Some m \<and> foreign m = foreign tarpan_message_new
     \<and> msg_wiser m = Some w \<and> path_cost w = sum_list (map link_cost rs)"
proof -
  obtain st' tarp' m' jobs where p: "tarpan_path pack unpack st out 0 None rs = Some (st', tarp', jobs)"
      "path_message wiser_protocol_handler (tarpan_protocol_data st) out None rs = (m', jobs)"
      "Option.bind tarp' (message_at st') = m'"
      "foreign (case m' of None \<Rightarrow> tarpan_message_new | Some m \<Rightarrow> m) = foreign tarpan_message_new"
    using wp.path_ok [OF assms(1-3), of 0 None None out] by (auto simp: carries_def)
  moreover obtain m w where m: "path_message wiser_protocol_handler (tarpan_protocol_data st) out None rs
        = (Some m, portal_reports out 0 rs)"
      "msg_wiser m = Some w" "path_cost w = sum_list (map link_cost rs)"
    using path_message_wiser [OF assms(4), of "tarpan_protocol_data st" out None]
    by (auto simp: msg_cost_def)
  ultimately have mm: "m' = Some m" "jobs = portal_reports out 0 rs" by simp_all
  have "Option.bind tarp' (message_at st') = Some m" using p(3) mm(1) by simp
  then obtain q where q: "tarp' = Some q" "message_at st' q = Some m"
    unfolding bind_eq_Some_conv by blast
  show ?thesis
    using p(1,4) mm m(2,3) q
    by (intro exI [of _ st'] exI [of _ q] exI [of _ m] exI [of _ w]) simp
qed

text \<open>A codec for messages with the data of Wiser only, to show that the hypotheses can hold.\<close>

definition wiser_pack :: "tarpan_msg \<Rightarrow> u8 list" where
  "wiser_pack m = (case msg_wiser m of
       None \<Rightarrow> [0]
     | Some w \<Rightarrow> [1] @ be32 (path_cost w) @ be32 (sender_as w) @ be32 (sender_address w))"

definition wiser_unpack :: "u8 list \<Rightarrow> tarpan_msg option" where
  "wiser_unpack b = (case b of
       [] \<Rightarrow> None
     | c # b \<Rightarrow> Some (tarpan_message_new\<lparr>msg_wiser := (if c = 0 then None
         else Some \<lparr>path_cost = of_be32 (take 4 b), sender_as = of_be32 (take 4 (drop 4 b)),
                     sender_address = of_be32 (drop 8 b)\<rparr>)\<rparr>))"

lemma wiser_codec: "codec_for wiser_pack wiser_unpack tarpan_message_new"
proof -
  have "m = tarpan_message_new\<lparr>msg_wiser := msg_wiser m\<rparr>" if "foreign m = foreign tarpan_message_new" for m
    using that by (cases m) (simp add: foreign_def tarpan_message_new_def)
  moreover have "wiser_unpack (wiser_pack m) = Some (tarpan_message_new\<lparr>msg_wiser := msg_wiser m\<rparr>)" for m
  proof (cases "msg_wiser m")
    case (Some w)
    then show ?thesis
      by (cases w) (simp add: wiser_pack_def wiser_unpack_def)
  qed (simp add: wiser_pack_def wiser_unpack_def)
  moreover have "0 < length (wiser_pack m)" "length (wiser_pack m) \<le> 4000" for m
    by (simp_all add: wiser_pack_def be32_def split: option.splits)
  ultimately show ?thesis unfolding codec_for_def by metis
qed

theorem wiser_path_cost_is_sum_witness:
  "\<exists>tab st' p m w. tarpan_init = Some tab
     \<and> (let st = \<lparr>tarpan_hash = tab, tarpan_active_handler = Some wiser_protocol_handler,
                   tarpan_protocol_data = \<lparr>path_costs = [as_pair_lookup 65001 65002 \<mapsto> 5],
                     advcost_sent = Map.empty, advcost_recv = Map.empty\<rparr>\<rparr>;
            r = \<lparr>r_state = st, r_in = ebgp_peer 65002 65001, r_out = ebgp_peer 65002 65003,
                  r_new = 1, r_newmsg = 16\<rparr>
        in tarpan_path wiser_pack wiser_unpack st (ebgp_peer 65001 65002) 0 None [r] = Some (st', Some p, []))
     \<and> message_at st' p = Some m \<and> msg_wiser m = Some w \<and> path_cost w = 5"
proof -
  obtain tab where tab: "tarpan_init = Some tab" "hash_size (table tab) = HASH_INITIAL_SIZE"
      "objs tab = (\<lambda>_. None)" "tarpan_run tab {#}"
    using tarpan_init_run by blast
  define st where "st = \<lparr>tarpan_hash = tab, tarpan_active_handler = Some wiser_protocol_handler,
      tarpan_protocol_data = \<lparr>path_costs = [as_pair_lookup 65001 65002 \<mapsto> 5],
        advcost_sent = Map.empty, advcost_recv = Map.empty\<rparr>\<rparr>"
  define r where "r = \<lparr>r_state = st, r_in = ebgp_peer 65002 65001, r_out = ebgp_peer 65002 65003,
      r_new = 1, r_newmsg = 16\<rparr>"
  have "router_ready wiser_protocol_handler r"
    unfolding router_ready_def using tab tpi.run_inv [OF tab(4)]
    by (auto simp: r_def st_def HASH_INITIAL_SIZE_def address_free_def)
  moreover have "tarpan_active_handler st = Some wiser_protocol_handler" by (simp add: st_def)
  moreover have "link_cost r = 5"
    by (simp add: link_cost_def r_def st_def ebgp_peer_def wiser_get_path_cost_def)
  moreover have "portal_reports (ebgp_peer 65001 65002) 0 [r] = []" by (simp add: r_def ebgp_peer_def)
  ultimately have "\<exists>st' p m w. tarpan_path wiser_pack wiser_unpack st (ebgp_peer 65001 65002) 0 None [r]
        = Some (st', Some p, [])
      \<and> message_at st' p = Some m \<and> msg_wiser m = Some w \<and> path_cost w = 5"
    using wiser_path_cost_is_sum [OF wiser_codec, of st "[r]" "ebgp_peer 65001 65002"] by auto
  then show ?thesis using tab(1) unfolding Let_def r_def st_def by blast
qed

end
