(* ===== verification/Route_Decision.thy ===== *)
theory Route_Decision
  imports Aspath Tarpan "HOL-Library.List_Lexorder"
begin

text \<open>
  The comparison of two routes: \<open>bgp_med_value\<close> and \<open>bgp_info_cmp\<close> of
  \<open>bgpd/bgp_route.c\<close>, and \<open>wiser_info_cmp\<close> of \<open>bgpd/wiser.cpp\<close>, which puts a comparison of
  Wiser costs behind the third step. A pointer to an attribute, a path or a peer is
  the object it points to; \<open>info_id\<close> is the address of a route. Each numbered step of
  the source is a definition; its result is \<open>None\<close> when the step does not decide.
\<close>

record attr_extra =
  cluster :: "u32 list option"
  originator_id :: u32
  weight :: u32

record attr =
  attr_aspath :: aspath
  attr_tarpan :: "tarpan option"
  attr_extra_of :: "attr_extra option"
  attr_flag :: u32
  attr_nexthop :: u32
  attr_med :: u32
  attr_local_pref :: u32
  attr_origin :: u8

record bgp_info =
  info_id :: nat
  info_peer :: peer
  info_attr :: attr
  info_igpmetric :: "u32 option"
  info_flags :: u16
  info_type :: u8
  info_sub_type :: u8

abbreviation (input) ATTR_FLAG_MULTI_EXIT_DISC :: u32 where "ATTR_FLAG_MULTI_EXIT_DISC \<equiv> 0x8"
abbreviation (input) ATTR_FLAG_LOCAL_PREF :: u32 where "ATTR_FLAG_LOCAL_PREF \<equiv> 0x10"
abbreviation (input) ATTR_FLAG_ORIGINATOR_ID :: u32 where "ATTR_FLAG_ORIGINATOR_ID \<equiv> 0x100"
abbreviation (input) ATTR_FLAG_CLUSTER_LIST :: u32 where "ATTR_FLAG_CLUSTER_LIST \<equiv> 0x200"
abbreviation (input) BGP_MED_MAX :: u32 where "BGP_MED_MAX \<equiv> 0xFFFFFFFF"
abbreviation (input) BGP_ROUTE_NORMAL :: u8 where "BGP_ROUTE_NORMAL \<equiv> 0"
abbreviation (input) BGP_INFO_SELECTED :: u16 where "BGP_INFO_SELECTED \<equiv> 0x8"

definition bgp_med_value :: "attr \<Rightarrow> bgp \<Rightarrow> u32" where
  "bgp_med_value attr bgp =
     (if CHECK_FLAG (attr_flag attr) ATTR_FLAG_MULTI_EXIT_DISC then attr_med attr
      else if bgp_flag_check bgp BGP_FLAG_MED_MISSING_AS_WORST then BGP_MED_MAX else 0)"

subsection \<open>The steps\<close>

definition prefer_high :: "'a :: linorder \<Rightarrow> 'a \<Rightarrow> bool option" where
  "prefer_high new exist = (if exist < new then Some True else if new < exist then Some False else None)"

definition prefer_low :: "'a :: linorder \<Rightarrow> 'a \<Rightarrow> bool option" where
  "prefer_low new exist = (if new < exist then Some True else if exist < new then Some False else None)"

definition or_else :: "bool option \<Rightarrow> bool option \<Rightarrow> bool option" where
  "or_else a b = (case a of None \<Rightarrow> b | Some r \<Rightarrow> Some r)"

definition weight_of :: "attr \<Rightarrow> u32" where
  "weight_of attr = (case attr_extra_of attr of None \<Rightarrow> 0 | Some e \<Rightarrow> weight e)"

definition step_weight :: "bgp_info \<Rightarrow> bgp_info \<Rightarrow> bool option" where
  "step_weight new exist = prefer_high (weight_of (info_attr new)) (weight_of (info_attr exist))"

definition pref_of :: "bgp \<Rightarrow> attr \<Rightarrow> u32" where
  "pref_of bgp attr = (if CHECK_FLAG (attr_flag attr) ATTR_FLAG_LOCAL_PREF then attr_local_pref attr
                       else default_local_pref bgp)"

definition step_local_pref :: "bgp \<Rightarrow> bgp_info \<Rightarrow> bgp_info \<Rightarrow> bool option" where
  "step_local_pref bgp new exist = prefer_high (pref_of bgp (info_attr new)) (pref_of bgp (info_attr exist))"

definition step_local_route :: "bgp_info \<Rightarrow> bgp_info \<Rightarrow> bool option" where
  "step_local_route new exist =
     (if info_sub_type new \<noteq> BGP_ROUTE_NORMAL then Some True
      else if info_sub_type exist \<noteq> BGP_ROUTE_NORMAL then Some False else None)"

definition path_length :: "bgp \<Rightarrow> attr \<Rightarrow> nat" where
  "path_length bgp attr =
     (if bgp_flag_check bgp BGP_FLAG_ASPATH_CONFED
      then aspath_count_hops (attr_aspath attr) + aspath_count_confeds (attr_aspath attr)
      else aspath_count_hops (attr_aspath attr))"

definition step_aspath_length :: "bgp \<Rightarrow> bgp_info \<Rightarrow> bgp_info \<Rightarrow> bool option" where
  "step_aspath_length bgp new exist =
     (if bgp_flag_check bgp BGP_FLAG_ASPATH_IGNORE then None
      else prefer_low (path_length bgp (info_attr new)) (path_length bgp (info_attr exist)))"

definition step_origin :: "bgp_info \<Rightarrow> bgp_info \<Rightarrow> bool option" where
  "step_origin new exist = prefer_low (attr_origin (info_attr new)) (attr_origin (info_attr exist))"

definition med_comparable :: "bgp \<Rightarrow> aspath \<Rightarrow> aspath \<Rightarrow> bool option" where
  "med_comparable bgp new exist =
     (let internal_as_route = (aspath_count_hops new = 0 \<and> aspath_count_hops exist = 0);
          confed_as_route = (0 < aspath_count_confeds new \<and> 0 < aspath_count_confeds exist
            \<and> aspath_count_hops new = 0 \<and> aspath_count_hops exist = 0)
      in if bgp_flag_check bgp BGP_FLAG_ALWAYS_COMPARE_MED
            \<or> (bgp_flag_check bgp BGP_FLAG_MED_CONFED \<and> confed_as_route) then Some True
         else do {
           l \<leftarrow> aspath_cmp_left (Some new) (Some exist);
           if l then Some True
           else do {
             c \<leftarrow> aspath_cmp_left_confed (Some new) (Some exist);
             Some (c \<or> internal_as_route) } })"

definition step_med :: "bgp \<Rightarrow> bgp_info \<Rightarrow> bgp_info \<Rightarrow> bool option option" where
  "step_med bgp new exist = do {
     comparable \<leftarrow> med_comparable bgp (attr_aspath (info_attr new)) (attr_aspath (info_attr exist));
     Some (if comparable then prefer_low (bgp_med_value (info_attr new) bgp) (bgp_med_value (info_attr exist) bgp)
           else None) }"

definition step_peer_type :: "bgp_info \<Rightarrow> bgp_info \<Rightarrow> bool option" where
  "step_peer_type new exist =
     (let new_sort = peer_sort (info_peer new);
          exist_sort = peer_sort (info_peer exist)
      in if new_sort = BGP_PEER_EBGP \<and> (exist_sort = BGP_PEER_IBGP \<or> exist_sort = BGP_PEER_CONFED) then Some True
         else if exist_sort = BGP_PEER_EBGP \<and> (new_sort = BGP_PEER_IBGP \<or> new_sort = BGP_PEER_CONFED)
         then Some False else None)"

definition igpmetric_of :: "bgp_info \<Rightarrow> u32" where
  "igpmetric_of ri = (case info_igpmetric ri of None \<Rightarrow> 0 | Some m \<Rightarrow> m)"

definition step_igp_metric :: "bgp_info \<Rightarrow> bgp_info \<Rightarrow> bool option" where
  "step_igp_metric new exist = prefer_low (igpmetric_of new) (igpmetric_of exist)"

definition paths_equal :: "bgp \<Rightarrow> bgp_info \<Rightarrow> bgp_info \<Rightarrow> bool" where
  "paths_equal bgp new exist =
     (if bgp_flag_check bgp BGP_FLAG_ASPATH_MULTIPATH_RELAX then True
      else if peer_sort (info_peer new) = BGP_PEER_IBGP
      then aspath_cmp (attr_aspath (info_attr new)) (attr_aspath (info_attr exist))
      else peer_as (info_peer new) = peer_as (info_peer exist))"

definition step_oldest :: "bgp \<Rightarrow> bgp_info \<Rightarrow> bgp_info \<Rightarrow> bool option" where
  "step_oldest bgp new exist =
     (if \<not> bgp_flag_check bgp BGP_FLAG_COMPARE_ROUTER_ID
         \<and> peer_sort (info_peer new) = BGP_PEER_EBGP \<and> peer_sort (info_peer exist) = BGP_PEER_EBGP
      then if CHECK_FLAG (info_flags new) BGP_INFO_SELECTED then Some True
           else if CHECK_FLAG (info_flags exist) BGP_INFO_SELECTED then Some False else None
      else None)"

text \<open>The flags of an attribute promise the extra part they are read from.\<close>

definition router_id_of :: "bgp_info \<Rightarrow> u32 option" where
  "router_id_of ri =
     (if CHECK_FLAG (attr_flag (info_attr ri)) ATTR_FLAG_ORIGINATOR_ID
      then map_option originator_id (attr_extra_of (info_attr ri))
      else Some (remote_id (info_peer ri)))"

definition cluster_length_of :: "bgp_info \<Rightarrow> nat option" where
  "cluster_length_of ri =
     (if CHECK_FLAG (attr_flag (info_attr ri)) ATTR_FLAG_CLUSTER_LIST
      then do { e \<leftarrow> attr_extra_of (info_attr ri); map_option length (cluster e) }
      else Some 0)"

definition step_neighbor :: "bgp_info \<Rightarrow> bgp_info \<Rightarrow> bool" where
  "step_neighbor new exist =
     (let ret = sockunion_cmp (su_remote (info_peer new)) (su_remote (info_peer exist))
      in if ret = 1 then False else if ret = -1 then True else True)"

subsection \<open>The comparisons\<close>

text \<open>The result is the decision for \<open>new\<close> and the output \<open>paths_eq\<close>.\<close>

definition cmp_tiebreak :: "bgp \<Rightarrow> bgp_info \<Rightarrow> bgp_info \<Rightarrow> (bool \<times> bool) option" where
  "cmp_tiebreak bgp new exist =
     (let paths_eq = paths_equal bgp new exist
      in case step_oldest bgp new exist of
           Some r \<Rightarrow> Some (r, paths_eq)
         | None \<Rightarrow> do {
             new_id \<leftarrow> router_id_of new;
             exist_id \<leftarrow> router_id_of exist;
             case prefer_low new_id exist_id of
               Some r \<Rightarrow> Some (r, paths_eq)
             | None \<Rightarrow> do {
                 new_cluster \<leftarrow> cluster_length_of new;
                 exist_cluster \<leftarrow> cluster_length_of exist;
                 case prefer_low new_cluster exist_cluster of
                   Some r \<Rightarrow> Some (r, paths_eq)
                 | None \<Rightarrow> Some (step_neighbor new exist, paths_eq) } })"

definition cmp_from_aspath :: "bgp \<Rightarrow> bgp_info \<Rightarrow> bgp_info \<Rightarrow> (bool \<times> bool) option" where
  "cmp_from_aspath bgp new exist =
     (case or_else (step_aspath_length bgp new exist) (step_origin new exist) of
        Some r \<Rightarrow> Some (r, False)
      | None \<Rightarrow> do {
          med \<leftarrow> step_med bgp new exist;
          case or_else med (or_else (step_peer_type new exist) (step_igp_metric new exist)) of
            Some r \<Rightarrow> Some (r, False)
          | None \<Rightarrow> cmp_tiebreak bgp new exist })"

definition cmp_to_local :: "bgp \<Rightarrow> bgp_info \<Rightarrow> bgp_info \<Rightarrow> bool option" where
  "cmp_to_local bgp new exist =
     or_else (step_weight new exist) (or_else (step_local_pref bgp new exist) (step_local_route new exist))"

definition bgp_info_cmp :: "bgp \<Rightarrow> bgp_info option \<Rightarrow> bgp_info option \<Rightarrow> (bool \<times> bool) option" where
  "bgp_info_cmp bgp new exist =
     (case (new, exist) of
        (None, _) \<Rightarrow> Some (False, False)
      | (Some _, None) \<Rightarrow> Some (True, False)
      | (Some new, Some exist) \<Rightarrow>
          (case cmp_to_local bgp new exist of
             Some r \<Rightarrow> Some (r, False)
           | None \<Rightarrow> cmp_from_aspath bgp new exist))"

definition wiser_cost_of :: "bgp_info \<Rightarrow> u32 option" where
  "wiser_cost_of ri = do {
     t \<leftarrow> attr_tarpan (info_attr ri);
     (ptr, m) \<leftarrow> tp_message t;
     w \<leftarrow> msg_wiser m;
     Some (path_cost w) }"

definition wiser_info_cmp :: "bgp \<Rightarrow> bgp_info option \<Rightarrow> bgp_info option \<Rightarrow> (bool \<times> bool) option" where
  "wiser_info_cmp bgp nw exist =
     (case (nw, exist) of
        (None, _) \<Rightarrow> Some (False, False)
      | (Some _, None) \<Rightarrow> Some (True, False)
      | (Some nw, Some exist) \<Rightarrow>
          (case cmp_to_local bgp nw exist of
             Some r \<Rightarrow> Some (r, False)
           | None \<Rightarrow>
               (case (wiser_cost_of nw, wiser_cost_of exist) of
                  (Some new_cost, Some exist_cost) \<Rightarrow> Some (new_cost < exist_cost, False)
                | _ \<Rightarrow> cmp_from_aspath bgp nw exist)))"

subsection \<open>The order behind the comparison\<close>

text \<open>What the comparison relies on.\<close>

definition info_ok :: "bgp_info \<Rightarrow> bool" where
  "info_ok ri \<longleftrightarrow> router_id_of ri \<noteq> None \<and> cluster_length_of ri \<noteq> None
     \<and> peer_sort (info_peer ri) \<noteq> BGP_PEER_INTERNAL \<and> sockunion_ok (su_remote (info_peer ri))"

fun address_key :: "sockunion \<Rightarrow> int list" where
  "address_key (AF_INET a) = [0, uint a]"
| "address_key (AF_INET6 a) = 1 # map uint a"

definition decision_key :: "bgp \<Rightarrow> bgp_info \<Rightarrow> int list" where
  "decision_key bgp ri =
     (let a = info_attr ri
      in [- uint (weight_of a), - uint (pref_of bgp a),
          if info_sub_type ri \<noteq> BGP_ROUTE_NORMAL then 0 else 1,
          if bgp_flag_check bgp BGP_FLAG_ASPATH_IGNORE then 0 else int (path_length bgp a),
          uint (attr_origin a), uint (bgp_med_value a bgp),
          if peer_sort (info_peer ri) = BGP_PEER_EBGP then 0 else 1,
          uint (igpmetric_of ri), uint (the (router_id_of ri)), int (the (cluster_length_of ri))]
         @ address_key (su_remote (info_peer ri)))"

lemma in6addr_cmp_key:
  "length a = length b \<Longrightarrow> in6addr_cmp a b \<noteq> 1 \<longleftrightarrow> map uint a \<le> map uint b"
  by (induction a b rule: in6addr_cmp.induct) (auto simp: word_less_def)

lemma step_neighbor_key:
  assumes "info_ok x" "info_ok y"
  shows "step_neighbor x y \<longleftrightarrow> address_key (su_remote (info_peer x)) \<le> address_key (su_remote (info_peer y))"
proof (cases "su_remote (info_peer x)")
  case (AF_INET a)
  then show ?thesis
    by (cases "su_remote (info_peer y)") (auto simp: step_neighbor_def word_less_def)
next
  case (AF_INET6 a)
  then show ?thesis
    using assms in6addr_cmp_key [of a]
    by (cases "su_remote (info_peer y)") (auto simp: step_neighbor_def info_ok_def)
qed

lemmas step_defs = step_weight_def step_local_pref_def step_local_route_def step_aspath_length_def
  step_origin_def step_med_def step_igp_metric_def prefer_low_def prefer_high_def or_else_def word_less_def

definition decision :: "(bool \<times> bool) option \<Rightarrow> bool option" where
  "decision r = (case r of None \<Rightarrow> None | Some (d, paths_eq) \<Rightarrow> Some d)"

lemma decision_simps [simp]: "decision None = None" "decision (Some (d, eq)) = Some d"
  by (simp_all add: decision_def)

definition tie_key :: "bgp_info \<Rightarrow> int list" where
  "tie_key ri = [uint (the (router_id_of ri)), int (the (cluster_length_of ri))]
     @ address_key (su_remote (info_peer ri))"

lemma cmp_tiebreak_key:
  assumes ok: "info_ok x" "info_ok y" and flag: "bgp_flag_check bgp BGP_FLAG_COMPARE_ROUTER_ID"
  shows "cmp_tiebreak bgp x y = Some (tie_key x \<le> tie_key y, paths_equal bgp x y)"
proof -
  obtain i j where i: "router_id_of x = Some i" "router_id_of y = Some j"
    using ok unfolding info_ok_def by blast
  obtain c d where c: "cluster_length_of x = Some c" "cluster_length_of y = Some d"
    using ok unfolding info_ok_def by blast
  show ?thesis
    using flag step_neighbor_key [OF ok]
    by (auto simp: cmp_tiebreak_def step_oldest_def i c tie_key_def prefer_low_def word_less_def Let_def)
qed

definition path_key :: "bgp \<Rightarrow> bgp_info \<Rightarrow> int list" where
  "path_key bgp ri =
     [if bgp_flag_check bgp BGP_FLAG_ASPATH_IGNORE then 0 else int (path_length bgp (info_attr ri)),
      uint (attr_origin (info_attr ri)), uint (bgp_med_value (info_attr ri) bgp),
      if peer_sort (info_peer ri) = BGP_PEER_EBGP then 0 else 1, uint (igpmetric_of ri)] @ tie_key ri"

lemma step_peer_type_key:
  assumes "info_ok x" "info_ok y"
  shows "step_peer_type x y = prefer_low (if peer_sort (info_peer x) = BGP_PEER_EBGP then 0 else 1 :: int)
                                         (if peer_sort (info_peer y) = BGP_PEER_EBGP then 0 else 1)"
  using assms
  by (cases "peer_sort (info_peer x)"; cases "peer_sort (info_peer y)")
     (simp_all add: step_peer_type_def prefer_low_def info_ok_def)

lemma cmp_from_aspath_key:
  assumes ok: "info_ok x" "info_ok y" and flag: "bgp_flag_check bgp BGP_FLAG_COMPARE_ROUTER_ID"
      "bgp_flag_check bgp BGP_FLAG_ALWAYS_COMPARE_MED"
  shows "decision (cmp_from_aspath bgp x y) = Some (path_key bgp x \<le> path_key bgp y)"
proof -
  have med: "step_med bgp x y = Some (prefer_low (bgp_med_value (info_attr x) bgp) (bgp_med_value (info_attr y) bgp))"
    using flag by (simp add: step_med_def med_comparable_def)
  show ?thesis
    unfolding cmp_from_aspath_def med step_peer_type_key [OF ok] cmp_tiebreak_key [OF ok flag(1)] path_key_def
    by (simp add: step_defs)
qed

lemma bgp_info_cmp_key:
  assumes "info_ok new" "info_ok exist"
    and "bgp_flag_check bgp BGP_FLAG_COMPARE_ROUTER_ID" "bgp_flag_check bgp BGP_FLAG_ALWAYS_COMPARE_MED"
    and "info_sub_type new = 0 \<or> info_sub_type exist = 0"
  shows "decision (bgp_info_cmp bgp (Some new) (Some exist))
           = Some (decision_key bgp new \<le> decision_key bgp exist)"
proof -
  have key: "decision_key bgp ri = [- uint (weight_of (info_attr ri)), - uint (pref_of bgp (info_attr ri)),
      if info_sub_type ri \<noteq> 0 then 0 else 1] @ path_key bgp ri" for ri
    by (simp add: decision_key_def path_key_def tie_key_def Let_def)
  show ?thesis
    using assms(5) cmp_from_aspath_key [OF assms(1-4)]
    by (auto simp: bgp_info_cmp_def cmp_to_local_def key step_defs)
qed

text \<open>
  A route with path \<open>path\<close> and MED \<open>med\<close> from the neighbouring router \<open>rid\<close>, for the examples.
\<close>

definition ebgp_route :: "as_t \<Rightarrow> as_t list \<Rightarrow> u32 \<Rightarrow> bgp_info" where
  "ebgp_route rid path med =
     \<lparr>info_id = unat rid,
      info_peer = (ebgp_peer 1 (hd path))\<lparr>remote_id := rid, su_remote := AF_INET rid\<rparr>,
      info_attr = \<lparr>attr_aspath = \<lparr>as_refcnt = 1, as_segments = [\<lparr>seg_type = AS_SEQUENCE, seg_as = path\<rparr>],
                                 as_str = None\<rparr>,
                   attr_tarpan = None, attr_extra_of = None, attr_flag = 0x8, attr_nexthop = rid,
                   attr_med = med, attr_local_pref = 0, attr_origin = 0\<rparr>,
      info_igpmetric = None, info_flags = 0x10, info_type = 9, info_sub_type = 0\<rparr>"

lemma ebgp_route_ok: "info_ok (ebgp_route remote path med)"
  by (simp add: info_ok_def ebgp_route_def ebgp_peer_def router_id_of_def cluster_length_of_def CHECK_FLAG_def)



subsection \<open>Symmetry\<close>

lemma prefer_low_sym: "prefer_low b a = map_option Not (prefer_low a b)"
  by (auto simp: prefer_low_def)

lemma prefer_high_sym: "prefer_high b a = map_option Not (prefer_high a b)"
  by (auto simp: prefer_high_def)

lemma or_else_sym: "or_else (map_option Not a) (map_option Not b) = map_option Not (or_else a b)"
  by (simp add: or_else_def split: option.splits)

lemma same_first_as_sym: "same_first_as seg2 seg1 = same_first_as seg1 seg2"
  by (auto simp: same_first_as_def)

lemma aspath_cmp_left_sym: "aspath_cmp_left b a = aspath_cmp_left a b"
proof (cases a; cases b)
  fix p q assume "a = Some p" "b = Some q"
  then show ?thesis
    by (cases "dropWhile is_confed_segment (as_segments p)"; cases "dropWhile is_confed_segment (as_segments q)")
       (auto simp: aspath_cmp_left_def same_first_as_sym simp del: dropWhile_eq_Nil_conv)
qed (simp_all add: aspath_cmp_left_def)

lemma aspath_cmp_left_confed_sym: "aspath_cmp_left_confed b a = aspath_cmp_left_confed a b"
proof (cases a; cases b)
  fix p q assume "a = Some p" "b = Some q"
  then show ?thesis
    by (cases "as_segments p"; cases "as_segments q")
       (auto simp: aspath_cmp_left_confed_def same_first_as_sym)
qed (simp_all add: aspath_cmp_left_confed_def)

lemma med_comparable_sym: "med_comparable bgp b a = med_comparable bgp a b"
  unfolding med_comparable_def Let_def aspath_cmp_left_sym [of "Some b" "Some a"]
    aspath_cmp_left_confed_sym [of "Some b" "Some a"]
  by (simp only: conj_ac)

lemma step_peer_type_sym: "step_peer_type y x = map_option Not (step_peer_type x y)"
  by (cases "peer_sort (info_peer x)"; cases "peer_sort (info_peer y)") (simp_all add: step_peer_type_def)

lemma step_sym:
  "step_weight y x = map_option Not (step_weight x y)"
  "step_local_pref bgp y x = map_option Not (step_local_pref bgp x y)"
  "step_aspath_length bgp y x = map_option Not (step_aspath_length bgp x y)"
  "step_origin y x = map_option Not (step_origin x y)"
  "step_med bgp y x = map_option (map_option Not) (step_med bgp x y)"
  "step_igp_metric y x = map_option Not (step_igp_metric x y)"
  unfolding step_weight_def step_local_pref_def step_aspath_length_def step_origin_def step_med_def
    step_igp_metric_def prefer_low_sym [of "igpmetric_of y"] prefer_low_sym [of "attr_origin (info_attr y)"]
    prefer_low_sym [of "path_length bgp (info_attr y)"] prefer_low_sym [of "bgp_med_value (info_attr y) bgp"]
    prefer_high_sym [of "weight_of (info_attr y)"] prefer_high_sym [of "pref_of bgp (info_attr y)"]
    med_comparable_sym [of bgp "attr_aspath (info_attr y)"]
  by (simp_all split: bind_split)

lemma step_local_route_sym:
  assumes "info_sub_type x = 0 \<or> info_sub_type y = 0"
  shows "step_local_route y x = map_option Not (step_local_route x y)"
  using assms by (auto simp: step_local_route_def)

lemma step_oldest_sym:
  assumes "\<not> (CHECK_FLAG (info_flags x) BGP_INFO_SELECTED \<and> CHECK_FLAG (info_flags y) BGP_INFO_SELECTED)"
  shows "step_oldest bgp y x = map_option Not (step_oldest bgp x y)"
  using assms by (auto simp: step_oldest_def)

lemma step_neighbor_sym:
  assumes "info_ok x" "info_ok y" "su_remote (info_peer x) \<noteq> su_remote (info_peer y)"
  shows "step_neighbor y x \<longleftrightarrow> \<not> step_neighbor x y"
  using assms sockunion_cmp_sym [of "su_remote (info_peer y)" "su_remote (info_peer x)"]
    sockunion_cmp_range [of "su_remote (info_peer x)" "su_remote (info_peer y)"]
    sockunion_cmp_0 [of "su_remote (info_peer x)" "su_remote (info_peer y)"]
  by (auto simp: step_neighbor_def info_ok_def Let_def)

lemma decision_tiebreak_sym:
  assumes "info_ok x" "info_ok y" "su_remote (info_peer x) \<noteq> su_remote (info_peer y)"
    and "\<not> (CHECK_FLAG (info_flags x) BGP_INFO_SELECTED \<and> CHECK_FLAG (info_flags y) BGP_INFO_SELECTED)"
  shows "decision (cmp_tiebreak bgp y x) = map_option Not (decision (cmp_tiebreak bgp x y))"
proof -
  obtain i j where i: "router_id_of x = Some i" "router_id_of y = Some j"
    using assms unfolding info_ok_def by blast
  obtain c d where c: "cluster_length_of x = Some c" "cluster_length_of y = Some d"
    using assms unfolding info_ok_def by blast
  show ?thesis
    unfolding cmp_tiebreak_def Let_def step_oldest_sym [OF assms(4)] i c
    by (cases "step_oldest bgp x y")
       (simp_all add: prefer_low_sym [of j i] prefer_low_sym [of d c] step_neighbor_sym [OF assms(1-3)]
          split: option.splits)
qed

lemma decision_from_aspath_sym:
  assumes "info_ok x" "info_ok y" "su_remote (info_peer x) \<noteq> su_remote (info_peer y)"
    and "\<not> (CHECK_FLAG (info_flags x) BGP_INFO_SELECTED \<and> CHECK_FLAG (info_flags y) BGP_INFO_SELECTED)"
  shows "decision (cmp_from_aspath bgp y x) = map_option Not (decision (cmp_from_aspath bgp x y))"
proof (cases "or_else (step_aspath_length bgp x y) (step_origin x y)")
  case (Some r)
  then show ?thesis
    unfolding cmp_from_aspath_def step_sym(3) [of bgp y x] step_sym(4) [of y x] or_else_sym by simp
next
  case None
  then show ?thesis
    using decision_tiebreak_sym [OF assms, of bgp]
    unfolding cmp_from_aspath_def step_sym(3,5) [of bgp y x] step_sym(4,6) [of y x]
      step_peer_type_sym [of y x] or_else_sym
    by (cases "step_med bgp x y") (simp_all add: or_else_sym split: option.splits)
qed

text \<open>
  C32. The decision between two routes does not depend on which of them is looked at
  first. Exchanging the arguments negates the decision, in every configuration, for
  routes of neighbours with different addresses that are not both local and not
  both selected; comparing one way is undefined exactly when the other way is.
\<close>

theorem bgp_info_cmp_antisym:
  assumes "info_ok new" "info_ok exist" "su_remote (info_peer new) \<noteq> su_remote (info_peer exist)"
    and "\<not> (CHECK_FLAG (info_flags new) BGP_INFO_SELECTED \<and> CHECK_FLAG (info_flags exist) BGP_INFO_SELECTED)"
    and "info_sub_type new = 0 \<or> info_sub_type exist = 0"
  shows "decision (bgp_info_cmp bgp (Some exist) (Some new))
           = map_option Not (decision (bgp_info_cmp bgp (Some new) (Some exist)))"
proof -
  have "cmp_to_local bgp exist new = map_option Not (cmp_to_local bgp new exist)"
    unfolding cmp_to_local_def step_sym(1) [of exist new] step_sym(2) [of bgp exist new]
      step_local_route_sym [OF assms(5)] or_else_sym ..
  then show ?thesis
    using decision_from_aspath_sym [OF assms(1-4), of bgp]
    by (cases "cmp_to_local bgp new exist") (simp_all add: bgp_info_cmp_def)
qed

theorem bgp_info_cmp_antisym_witness:
  "decision (bgp_info_cmp (peer_bgp (ebgp_peer 1 2)) (Some (ebgp_route 3 [3, 8] 5)) (Some (ebgp_route 2 [2, 7] 10)))
   = map_option Not (decision (bgp_info_cmp (peer_bgp (ebgp_peer 1 2)) (Some (ebgp_route 2 [2, 7] 10))
       (Some (ebgp_route 3 [3, 8] 5))))"
  by (rule bgp_info_cmp_antisym [OF ebgp_route_ok ebgp_route_ok])
     (simp_all add: ebgp_route_def ebgp_peer_def CHECK_FLAG_def)

lemmas cmp_eval = bgp_info_cmp_def cmp_to_local_def cmp_from_aspath_def cmp_tiebreak_def step_defs
  ebgp_route_def ebgp_peer_def weight_of_def pref_of_def CHECK_FLAG_def bgp_flag_check_def
  path_length_def aspath_count_hops_def hops_Cons seg_hops_def med_comparable_def bgp_med_value_def
  aspath_cmp_left_def aspath_cmp_left_confed_def same_first_as_def is_confed_segment_def step_peer_type_def
  igpmetric_of_def step_oldest_def router_id_of_def Let_def

text \<open>
  C33. By default the decision is not transitive. MEDs are compared only between routes
  through the same neighbour AS, so there are three valid routes each of which is
  preferred to the next one, and the last of which is preferred to the first.
\<close>

theorem bgp_info_cmp_med_cycle:
  "\<exists>a b c. info_ok a \<and> info_ok b \<and> info_ok c
     \<and> decision (bgp_info_cmp (peer_bgp (ebgp_peer 1 2)) (Some a) (Some b)) = Some True
     \<and> decision (bgp_info_cmp (peer_bgp (ebgp_peer 1 2)) (Some b) (Some c)) = Some True
     \<and> decision (bgp_info_cmp (peer_bgp (ebgp_peer 1 2)) (Some c) (Some a)) = Some True"
proof -
  let ?a = "ebgp_route 10 [2, 7] 20" and ?b = "ebgp_route 20 [3, 7] 0" and ?c = "ebgp_route 30 [2, 7] 10"
  have "decision (bgp_info_cmp (peer_bgp (ebgp_peer 1 2)) (Some ?a) (Some ?b)) = Some True"
    "decision (bgp_info_cmp (peer_bgp (ebgp_peer 1 2)) (Some ?b) (Some ?c)) = Some True"
    "decision (bgp_info_cmp (peer_bgp (ebgp_peer 1 2)) (Some ?c) (Some ?a)) = Some True"
    by (simp_all add: cmp_eval)
  then show ?thesis using ebgp_route_ok by blast
qed

end
