(* ===== verification/Rib.thy ===== *)
theory Rib
  imports Route_Decision "HOL-Library.Sublist"
begin

text \<open>
  The routes of one prefix: the part of \<open>bgpd/bgp_route.c\<close> that adds, marks and reaps the
  routes of a \<open>struct bgp_node\<close>, counts the prefixes of a peer, and selects the best
  route (\<open>bgp_best_selection\<close>, \<open>bgp_process_main\<close>).

  The linked list \<open>rn->info\<close> is a list of routes with distinct addresses \<open>info_id\<close>; a
  pointer to a route is its address. The prefix counts of the peers, which the
  flags of a route keep up to date, are \<open>pcount\<close>; a peer is known by its address.
  \<open>maximum-paths\<close> has its default, so no multipath list is built.
\<close>

abbreviation (input) BGP_INFO_IGP_CHANGED :: u16 where "BGP_INFO_IGP_CHANGED \<equiv> 0x1"
abbreviation (input) BGP_INFO_DAMPED :: u16 where "BGP_INFO_DAMPED \<equiv> 0x2"
abbreviation (input) BGP_INFO_HISTORY :: u16 where "BGP_INFO_HISTORY \<equiv> 0x4"
abbreviation (input) BGP_INFO_VALID :: u16 where "BGP_INFO_VALID \<equiv> 0x10"
abbreviation (input) BGP_INFO_ATTR_CHANGED :: u16 where "BGP_INFO_ATTR_CHANGED \<equiv> 0x20"
abbreviation (input) BGP_INFO_DMED_CHECK :: u16 where "BGP_INFO_DMED_CHECK \<equiv> 0x40"
abbreviation (input) BGP_INFO_DMED_SELECTED :: u16 where "BGP_INFO_DMED_SELECTED \<equiv> 0x80"
abbreviation (input) BGP_INFO_STALE :: u16 where "BGP_INFO_STALE \<equiv> 0x100"
abbreviation (input) BGP_INFO_REMOVED :: u16 where "BGP_INFO_REMOVED \<equiv> 0x200"
abbreviation (input) BGP_INFO_COUNTED :: u16 where "BGP_INFO_COUNTED \<equiv> 0x400"
abbreviation (input) BGP_INFO_MULTIPATH_CHG :: u16 where "BGP_INFO_MULTIPATH_CHG \<equiv> 0x1000"
abbreviation (input) BGP_INFO_UNUSEABLE :: u16 where "BGP_INFO_UNUSEABLE \<equiv> 0x206"
abbreviation (input) ZEBRA_ROUTE_BGP :: u8 where "ZEBRA_ROUTE_BGP \<equiv> 9"

datatype bgp_table_type = BGP_TABLE_MAIN | BGP_TABLE_RSCLIENT

record bgp_node =
  rn_table :: bgp_table_type
  rn_peer_self :: sockunion
  rn_info :: "bgp_info list"
  rn_lock :: nat
  rn_scheduled :: bool
  pcount :: "sockunion \<Rightarrow> nat"

definition BGP_INFO_HOLDDOWN :: "bgp_info \<Rightarrow> bool" where
  "BGP_INFO_HOLDDOWN ri \<longleftrightarrow> \<not> CHECK_FLAG (info_flags ri) BGP_INFO_VALID
     \<or> CHECK_FLAG (info_flags ri) BGP_INFO_UNUSEABLE"

abbreviation info_addr :: "bgp_info \<Rightarrow> sockunion" where
  "info_addr ri \<equiv> su_remote (info_peer ri)"

subsection \<open>Flags and prefix counts\<close>

text \<open>The operations on the flags of a route \<open>ri\<close> of the node, with the counts \<open>pc\<close>.\<close>

definition bgp_pcount_adjust :: "bgp_node \<Rightarrow> bgp_info \<times> (sockunion \<Rightarrow> nat) \<Rightarrow> bgp_info \<times> (sockunion \<Rightarrow> nat)" where
  "bgp_pcount_adjust rn = (\<lambda>(ri, pc).
     if rn_table rn \<noteq> BGP_TABLE_MAIN \<or> info_addr ri = rn_peer_self rn then (ri, pc)
     else if BGP_INFO_HOLDDOWN ri \<and> CHECK_FLAG (info_flags ri) BGP_INFO_COUNTED
     then (ri\<lparr>info_flags := UNSET_FLAG (info_flags ri) BGP_INFO_COUNTED\<rparr>,
           if pc (info_addr ri) \<noteq> 0 then pc(info_addr ri := pc (info_addr ri) - 1) else pc)
     else if \<not> BGP_INFO_HOLDDOWN ri \<and> \<not> CHECK_FLAG (info_flags ri) BGP_INFO_COUNTED
     then (ri\<lparr>info_flags := SET_FLAG (info_flags ri) BGP_INFO_COUNTED\<rparr>,
           pc(info_addr ri := pc (info_addr ri) + 1))
     else (ri, pc))"

definition bgp_info_set_flag :: "bgp_node \<Rightarrow> u16 \<Rightarrow> bgp_info \<times> (sockunion \<Rightarrow> nat)
    \<Rightarrow> bgp_info \<times> (sockunion \<Rightarrow> nat)" where
  "bgp_info_set_flag rn flag = (\<lambda>(ri, pc).
     let ri = ri\<lparr>info_flags := SET_FLAG (info_flags ri) flag\<rparr>
     in if \<not> CHECK_FLAG flag (BGP_INFO_VALID OR BGP_INFO_UNUSEABLE) then (ri, pc)
        else bgp_pcount_adjust rn (ri, pc))"

definition bgp_info_unset_flag :: "bgp_node \<Rightarrow> u16 \<Rightarrow> bgp_info \<times> (sockunion \<Rightarrow> nat)
    \<Rightarrow> bgp_info \<times> (sockunion \<Rightarrow> nat)" where
  "bgp_info_unset_flag rn flag = (\<lambda>(ri, pc).
     let ri = ri\<lparr>info_flags := UNSET_FLAG (info_flags ri) flag\<rparr>
     in if \<not> CHECK_FLAG flag (BGP_INFO_VALID OR BGP_INFO_UNUSEABLE) then (ri, pc)
        else bgp_pcount_adjust rn (ri, pc))"

definition bgp_info_delete :: "bgp_node \<Rightarrow> bgp_info \<times> (sockunion \<Rightarrow> nat) \<Rightarrow> bgp_info \<times> (sockunion \<Rightarrow> nat)" where
  "bgp_info_delete rn ri =
     (let (ri, pc) = bgp_info_set_flag rn BGP_INFO_REMOVED ri
      in (ri\<lparr>info_flags := UNSET_FLAG (info_flags ri) BGP_INFO_VALID\<rparr>, pc))"

definition bgp_info_restore :: "bgp_node \<Rightarrow> bgp_info \<times> (sockunion \<Rightarrow> nat) \<Rightarrow> bgp_info \<times> (sockunion \<Rightarrow> nat)" where
  "bgp_info_restore rn ri =
     (let (ri, pc) = bgp_info_unset_flag rn BGP_INFO_REMOVED ri
      in (ri\<lparr>info_flags := SET_FLAG (info_flags ri) BGP_INFO_VALID\<rparr>, pc))"

text \<open>An operation on the route at address \<open>p\<close>; a dangling address is \<open>None\<close>.\<close>

fun update_info :: "nat \<Rightarrow> (bgp_info \<times> (sockunion \<Rightarrow> nat) \<Rightarrow> bgp_info \<times> (sockunion \<Rightarrow> nat))
    \<Rightarrow> bgp_info list \<Rightarrow> (sockunion \<Rightarrow> nat) \<Rightarrow> (bgp_info list \<times> (sockunion \<Rightarrow> nat)) option" where
  "update_info p f [] pc = None"
| "update_info p f (ri # ris) pc =
     (if info_id ri = p then (let (ri, pc) = f (ri, pc) in Some (ri # ris, pc))
      else do { (ris, pc) \<leftarrow> update_info p f ris pc; Some (ri # ris, pc) })"

definition on_info :: "nat \<Rightarrow> (bgp_info \<times> (sockunion \<Rightarrow> nat) \<Rightarrow> bgp_info \<times> (sockunion \<Rightarrow> nat))
    \<Rightarrow> bgp_node \<Rightarrow> bgp_node option" where
  "on_info p f rn = do {
     (ris, pc) \<leftarrow> update_info p f (rn_info rn) (pcount rn);
     Some (rn\<lparr>rn_info := ris, pcount := pc\<rparr>) }"

definition bgp_info_add :: "bgp_node \<Rightarrow> bgp_info \<Rightarrow> bgp_node" where
  "bgp_info_add rn ri = rn\<lparr>rn_info := ri # rn_info rn, rn_lock := rn_lock rn + 1\<rparr>"

definition bgp_info_reap :: "bgp_node \<Rightarrow> nat \<Rightarrow> bgp_node" where
  "bgp_info_reap rn p = rn\<lparr>rn_info := filter (\<lambda>ri. info_id ri \<noteq> p) (rn_info rn), rn_lock := rn_lock rn - 1\<rparr>"

subsection \<open>Best path selection\<close>

text \<open>\<open>bgp deterministic-med\<close>: the best route of each neighbouring AS is marked.\<close>

definition same_neighbor_as :: "bgp_info \<Rightarrow> bgp_info \<Rightarrow> bool option" where
  "same_neighbor_as ri1 ri2 = do {
     l \<leftarrow> aspath_cmp_left (Some (attr_aspath (info_attr ri1))) (Some (attr_aspath (info_attr ri2)));
     if l then Some True
     else aspath_cmp_left_confed (Some (attr_aspath (info_attr ri1))) (Some (attr_aspath (info_attr ri2))) }"

fun dmed_inner :: "bgp \<Rightarrow> nat \<Rightarrow> nat list \<Rightarrow> nat \<Rightarrow> bgp_node \<Rightarrow> (nat \<times> bgp_node) option" where
  "dmed_inner bgp i [] new_select rn = Some (new_select, rn)"
| "dmed_inner bgp i (j # js) new_select rn =
     (let ri1 = rn_info rn ! i; ri2 = rn_info rn ! j
      in if CHECK_FLAG (info_flags ri2) BGP_INFO_DMED_CHECK \<or> BGP_INFO_HOLDDOWN ri2
         then dmed_inner bgp i js new_select rn
         else do {
           same \<leftarrow> same_neighbor_as ri1 ri2;
           if \<not> same then dmed_inner bgp i js new_select rn
           else do {
             (better, paths_eq) \<leftarrow> bgp_info_cmp bgp (Some ri2) (Some (rn_info rn ! new_select));
             (new_select, rn) \<leftarrow>
               (if better then do {
                  rn \<leftarrow> on_info (info_id (rn_info rn ! new_select)) (bgp_info_unset_flag rn BGP_INFO_DMED_SELECTED) rn;
                  Some (j, rn) }
                else Some (new_select, rn));
             rn \<leftarrow> on_info (info_id ri2) (bgp_info_set_flag rn BGP_INFO_DMED_CHECK) rn;
             dmed_inner bgp i js new_select rn } })"

fun dmed_outer :: "bgp \<Rightarrow> nat \<Rightarrow> nat list \<Rightarrow> bgp_node \<Rightarrow> bgp_node option" where
  "dmed_outer bgp n [] rn = Some rn"
| "dmed_outer bgp n (i # is) rn =
     (let ri1 = rn_info rn ! i
      in if CHECK_FLAG (info_flags ri1) BGP_INFO_DMED_CHECK \<or> BGP_INFO_HOLDDOWN ri1
         then dmed_outer bgp n is rn
         else do {
           (new_select, rn) \<leftarrow> dmed_inner bgp i [i + 1..<n] i rn;
           let p = info_id (rn_info rn ! new_select);
           rn \<leftarrow> on_info p (bgp_info_set_flag rn BGP_INFO_DMED_CHECK) rn;
           rn \<leftarrow> on_info p (bgp_info_set_flag rn BGP_INFO_DMED_SELECTED) rn;
           dmed_outer bgp n is rn })"

text \<open>
  The main loop over the list, which it rebuilds: removed routes are reaped unless
  they are still the selected one. \<open>new_select\<close> is the best route so far, \<open>old\<close> the
  address of the selected one. \<open>cmp\<close> is the comparison in force.
\<close>

fun select_loop :: "(bgp_info option \<Rightarrow> bgp_info option \<Rightarrow> (bool \<times> bool) option) \<Rightarrow> bool \<Rightarrow> bgp_node
    \<Rightarrow> bgp_info list \<Rightarrow> nat option \<Rightarrow> bgp_info option
    \<Rightarrow> (bgp_info list \<times> nat \<times> nat option \<times> bgp_info option) option" where
  "select_loop cmp dmed rn [] old new_select = Some ([], 0, old, new_select)"
| "select_loop cmp dmed rn (ri # ris) old new_select =
     (let old = (if CHECK_FLAG (info_flags ri) BGP_INFO_SELECTED then Some (info_id ri) else old)
      in if BGP_INFO_HOLDDOWN ri then do {
           (ris, reaped, r) \<leftarrow> select_loop cmp dmed rn ris old new_select;
           if CHECK_FLAG (info_flags ri) BGP_INFO_REMOVED \<and> Some (info_id ri) \<noteq> old
           then Some (ris, reaped + 1, r) else Some (ri # ris, reaped, r) }
         else if dmed \<and> \<not> CHECK_FLAG (info_flags ri) BGP_INFO_DMED_SELECTED then do {
           let ri = fst (bgp_info_unset_flag rn BGP_INFO_DMED_CHECK (ri, pcount rn));
           (ris, r) \<leftarrow> select_loop cmp dmed rn ris old new_select;
           Some (ri # ris, r) }
         else do {
           let ri = fst (bgp_info_unset_flag rn BGP_INFO_DMED_CHECK (ri, pcount rn));
           let ri = fst (bgp_info_unset_flag rn BGP_INFO_DMED_SELECTED (ri, pcount rn));
           (better, paths_eq) \<leftarrow> cmp (Some ri) new_select;
           (ris, r) \<leftarrow> select_loop cmp dmed rn ris old (if better then Some ri else new_select);
           Some (ri # ris, r) })"

definition bgp_best_selection :: "(bgp \<Rightarrow> bgp_info option \<Rightarrow> bgp_info option \<Rightarrow> (bool \<times> bool) option) option
    \<Rightarrow> bgp \<Rightarrow> bgp_node \<Rightarrow> (bgp_node \<times> nat option \<times> bgp_info option) option" where
  "bgp_best_selection protocol_info_cmp bgp rn =
     (let dmed = bgp_flag_check bgp BGP_FLAG_DETERMINISTIC_MED;
          n = length (rn_info rn);
          cmp = (case protocol_info_cmp of None \<Rightarrow> bgp_info_cmp | Some c \<Rightarrow> c)
      in do {
        rn \<leftarrow> (if dmed then dmed_outer bgp n [0..<n] rn else Some rn);
        (ris, reaped, old, new_select) \<leftarrow> select_loop (cmp bgp) dmed rn (rn_info rn) None None;
        Some (rn\<lparr>rn_info := ris, rn_lock := rn_lock rn - reaped\<rparr>, old, new_select) })"

text \<open>
  What processing a node tells others: the route is offered to every peer, and given to
  or taken from zebra. \<open>fib\<close> is the condition under which routes go to zebra.
\<close>

datatype rib_event = ANNOUNCE_PEERS "nat option" | ZEBRA_ANNOUNCE nat | ZEBRA_WITHDRAW nat

definition find_info :: "nat \<Rightarrow> bgp_node \<Rightarrow> bgp_info option" where
  "find_info p rn = find (\<lambda>ri. info_id ri = p) (rn_info rn)"

definition bgp_route_for_fib :: "bgp_info \<Rightarrow> bool" where
  "bgp_route_for_fib ri \<longleftrightarrow> info_type ri = ZEBRA_ROUTE_BGP \<and> info_sub_type ri = BGP_ROUTE_NORMAL"

definition fib_events :: "bgp_info option \<Rightarrow> bgp_info option \<Rightarrow> rib_event list" where
  "fib_events old new_select =
     (case new_select of
        Some ri \<Rightarrow> if bgp_route_for_fib ri then [ZEBRA_ANNOUNCE (info_id ri)]
                   else (case old of Some o1 \<Rightarrow> if bgp_route_for_fib o1 then [ZEBRA_WITHDRAW (info_id o1)] else [] | None \<Rightarrow> [])
      | None \<Rightarrow> (case old of Some o1 \<Rightarrow> if bgp_route_for_fib o1 then [ZEBRA_WITHDRAW (info_id o1)] else [] | None \<Rightarrow> []))"

definition clear_flag :: "u16 \<Rightarrow> bgp_info \<times> (sockunion \<Rightarrow> nat) \<Rightarrow> bgp_info \<times> (sockunion \<Rightarrow> nat)" where
  "clear_flag flag = (\<lambda>(ri, pc). (ri\<lparr>info_flags := UNSET_FLAG (info_flags ri) flag\<rparr>, pc))"

definition bgp_process_main :: "(bgp \<Rightarrow> bgp_info option \<Rightarrow> bgp_info option \<Rightarrow> (bool \<times> bool) option) option
    \<Rightarrow> bool \<Rightarrow> bgp \<Rightarrow> bgp_node \<Rightarrow> (bgp_node \<times> rib_event list) option" where
  "bgp_process_main protocol_info_cmp fib bgp rn = do {
     (rn, old_select, new_select) \<leftarrow> bgp_best_selection protocol_info_cmp bgp rn;
     let old_info = Option.bind old_select (\<lambda>p. find_info p rn);
     let same = (old_select \<noteq> None \<and> old_select = map_option info_id new_select);
     if same \<and> \<not> CHECK_FLAG (info_flags (the old_info)) BGP_INFO_ATTR_CHANGED then do {
       let events = (if CHECK_FLAG (info_flags (the old_info)) BGP_INFO_IGP_CHANGED
                        \<or> CHECK_FLAG (info_flags (the old_info)) BGP_INFO_MULTIPATH_CHG
                     then [ZEBRA_ANNOUNCE (the old_select)] else []);
       rn \<leftarrow> on_info (the old_select) (clear_flag BGP_INFO_MULTIPATH_CHG) rn;
       Some (rn\<lparr>rn_scheduled := False\<rparr>, events) }
     else do {
       rn \<leftarrow> (case old_select of None \<Rightarrow> Some rn
              | Some p \<Rightarrow> on_info p (bgp_info_unset_flag rn BGP_INFO_SELECTED) rn);
       rn \<leftarrow> (case new_select of None \<Rightarrow> Some rn
              | Some ri \<Rightarrow> do {
                  rn \<leftarrow> on_info (info_id ri) (bgp_info_set_flag rn BGP_INFO_SELECTED) rn;
                  rn \<leftarrow> on_info (info_id ri) (bgp_info_unset_flag rn BGP_INFO_ATTR_CHANGED) rn;
                  on_info (info_id ri) (clear_flag BGP_INFO_MULTIPATH_CHG) rn });
       let events = ANNOUNCE_PEERS (map_option info_id new_select)
                    # (if fib then fib_events old_info new_select else []);
       let rn = (case old_info of None \<Rightarrow> rn
                 | Some o1 \<Rightarrow> if CHECK_FLAG (info_flags o1) BGP_INFO_REMOVED
                             then bgp_info_reap rn (info_id o1) else rn);
       Some (rn\<lparr>rn_scheduled := False\<rparr>, events) } }"

subsection \<open>Choosing the best route\<close>

lemma unset_dmed:
  "bgp_info_unset_flag rn BGP_INFO_DMED_CHECK (ri, pc)
     = (ri\<lparr>info_flags := UNSET_FLAG (info_flags ri) BGP_INFO_DMED_CHECK\<rparr>, pc)"
  "bgp_info_unset_flag rn BGP_INFO_DMED_SELECTED (ri, pc)
     = (ri\<lparr>info_flags := UNSET_FLAG (info_flags ri) BGP_INFO_DMED_SELECTED\<rparr>, pc)"
  by (simp_all add: bgp_info_unset_flag_def CHECK_FLAG_def)

definition usable :: "bgp_info list \<Rightarrow> bgp_info list" where
  "usable ris = filter (\<lambda>ri. \<not> BGP_INFO_HOLDDOWN ri) ris"

text \<open>
  What the selection needs of a comparison: on routes that \<open>fit\<close> it answers and follows
  an order given by a key, whatever it does on ties, and the flags of a route have
  no influence on the key.
\<close>

locale route_preference =
  fixes cmp :: "bgp_info option \<Rightarrow> bgp_info option \<Rightarrow> (bool \<times> bool) option"
    and key :: "bgp_info \<Rightarrow> int list"
    and fit :: "bgp_info \<Rightarrow> bgp_info \<Rightarrow> bool"
  assumes cmp_first: "cmp (Some x) None = Some (True, False)"
    and cmp_key: "fit x y \<Longrightarrow> decision (cmp (Some x) (Some y)) = Some d \<Longrightarrow>
      (if d then key x \<le> key y else key y \<le> key x)"
    and cmp_total: "fit x y \<Longrightarrow> decision (cmp (Some x) (Some y)) \<noteq> None"
    and key_flags [simp]: "key (x\<lparr>info_flags := f\<rparr>) = key x"
    and fit_flags [simp]: "fit (x\<lparr>info_flags := f\<rparr>) y = fit x y" "fit x (y\<lparr>info_flags := f\<rparr>) = fit x y"
begin

lemma select_loop_min:
  assumes "sorted_wrt (\<lambda>a b. fit b a) (case_option [] (\<lambda>b. [b]) best @ usable ris)"
  shows "\<exists>ris' reaped old' m. select_loop cmp False rn ris old best = Some (ris', reaped, old', m)
     \<and> (case m of
          None \<Rightarrow> best = None \<and> usable ris = []
        | Some m \<Rightarrow> (\<exists>x\<in>set (case_option [] (\<lambda>b. [b]) best @ usable ris). \<exists>f. m = x\<lparr>info_flags := f\<rparr>)
            \<and> (\<forall>x\<in>set (case_option [] (\<lambda>b. [b]) best @ usable ris). key m \<le> key x))"
  using assms
proof (induction ris arbitrary: old best)
  case Nil
  have "\<exists>f. b = b\<lparr>info_flags := f\<rparr>" for b :: bgp_info by (intro exI [of _ "info_flags b"]) simp
  then show ?case by (auto simp: usable_def split: option.splits)
next
  case (Cons ri ris)
  define old1 where "old1 = (if CHECK_FLAG (info_flags ri) BGP_INFO_SELECTED then Some (info_id ri) else old)"
  show ?case
  proof (cases "BGP_INFO_HOLDDOWN ri")
    case True
    then have u: "usable (ri # ris) = usable ris" by (simp add: usable_def)
    from Cons.IH [of best old1] Cons.prems True show ?thesis
      unfolding u by (fastforce simp: old1_def Let_def)
  next
    case False
    define ri' where "ri' = ri\<lparr>info_flags := UNSET_FLAG (UNSET_FLAG (info_flags ri) 0x40) 0x80\<rparr>"
    have u: "usable (ri # ris) = ri # usable ris" using False by (simp add: usable_def)
    have id: "info_id ri' = info_id ri" "key ri' = key ri" by (simp_all add: ri'_def)
    obtain d eq where d: "cmp (Some ri') best = Some (d, eq)"
        "case best of None \<Rightarrow> d | Some b \<Rightarrow> if d then key ri \<le> key b else key b \<le> key ri"
    proof (cases best)
      case None
      then show thesis using that [of True False] cmp_first by simp
    next
      case (Some b)
      then have fit: "fit ri' b" using Cons.prems u by (simp add: ri'_def)
      then obtain d eq where d: "cmp (Some ri') (Some b) = Some (d, eq)"
        using cmp_total [OF fit] by (cases "cmp (Some ri') (Some b)") auto
      then show thesis using that [of d eq] cmp_key [OF fit, of d] Some id by (cases d) simp_all
    qed
    have step: "select_loop cmp False rn (ri # ris) old best
        = do { (ris, r) \<leftarrow> select_loop cmp False rn ris old1 (if d then Some ri' else best); Some (ri' # ris, r) }"
      using False d(1) by (simp add: unset_dmed ri'_def old1_def Let_def)
    have "sorted_wrt (\<lambda>a b. fit b a) (case_option [] (\<lambda>b. [b]) (if d then Some ri' else best) @ usable ris)"
      using Cons.prems u by (auto simp: ri'_def split: option.splits)
    from Cons.IH [OF this, of old1] obtain ris' reaped old' m
      where m: "select_loop cmp False rn ris old1 (if d then Some ri' else best) = Some (ris', reaped, old', m)"
        "case m of None \<Rightarrow> (if d then Some ri' else best) = None \<and> usable ris = []
         | Some m \<Rightarrow> (\<exists>x\<in>set (case_option [] (\<lambda>b. [b]) (if d then Some ri' else best) @ usable ris).
               \<exists>f. m = x\<lparr>info_flags := f\<rparr>)
             \<and> (\<forall>x\<in>set (case_option [] (\<lambda>b. [b]) (if d then Some ri' else best) @ usable ris). key m \<le> key x)"
      by blast
    show ?thesis
    proof (cases m)
      case None
      then show ?thesis using m d(2) by (auto split: if_splits)
    next
      case (Some m0)
      have "\<exists>f. x = ri\<lparr>info_flags := f\<rparr>" if "x = ri'\<lparr>info_flags := f\<rparr>" for x f
        unfolding that ri'_def by auto
      then show ?thesis
        using m d(2) id Some unfolding step u
        by (cases best) (auto split: if_splits)
    qed
  qed
qed

end

definition bgp_fit :: "bgp \<Rightarrow> bgp_info \<Rightarrow> bgp_info \<Rightarrow> bool" where
  "bgp_fit bgp x y \<longleftrightarrow> bgp_flag_check bgp BGP_FLAG_COMPARE_ROUTER_ID
     \<and> bgp_flag_check bgp BGP_FLAG_ALWAYS_COMPARE_MED
     \<and> info_ok x \<and> info_ok y \<and> (info_sub_type x = 0 \<or> info_sub_type y = 0)"

definition wiser_fit :: "bgp \<Rightarrow> bgp_info \<Rightarrow> bgp_info \<Rightarrow> bool" where
  "wiser_fit bgp x y \<longleftrightarrow> cmp_to_local bgp x y = None \<and> wiser_cost_of x \<noteq> None \<and> wiser_cost_of y \<noteq> None"

definition wiser_key :: "bgp_info \<Rightarrow> int list" where
  "wiser_key x = [uint (the (wiser_cost_of x))]"

interpretation bsel: route_preference "bgp_info_cmp bgp" "decision_key bgp" "bgp_fit bgp" for bgp
proof
  fix x y d
  assume fit: "bgp_fit bgp x y" 
  then have k: "decision (bgp_info_cmp bgp (Some x) (Some y)) = Some (decision_key bgp x \<le> decision_key bgp y)"
    by (intro bgp_info_cmp_key) (auto simp: bgp_fit_def)
  show "decision (bgp_info_cmp bgp (Some x) (Some y)) \<noteq> None" by (simp add: k)
  assume "decision (bgp_info_cmp bgp (Some x) (Some y)) = Some d"
  then show "if d then decision_key bgp x \<le> decision_key bgp y else decision_key bgp y \<le> decision_key bgp x"
    using k by auto
qed (simp_all add: bgp_info_cmp_def bgp_fit_def info_ok_def decision_key_def router_id_of_def
    cluster_length_of_def igpmetric_of_def Let_def)

interpretation wsel: route_preference "wiser_info_cmp bgp" wiser_key "wiser_fit bgp" for bgp
proof
  fix x y d
  assume fit: "wiser_fit bgp x y"
  then obtain c e where c: "wiser_cost_of x = Some c" "wiser_cost_of y = Some e" "cmp_to_local bgp x y = None"
    unfolding wiser_fit_def by blast
  then have k: "decision (wiser_info_cmp bgp (Some x) (Some y)) = Some (c < e)"
    by (simp add: wiser_info_cmp_def)
  show "decision (wiser_info_cmp bgp (Some x) (Some y)) \<noteq> None" by (simp add: k)
  assume "decision (wiser_info_cmp bgp (Some x) (Some y)) = Some d"
  then show "if d then wiser_key x \<le> wiser_key y else wiser_key y \<le> wiser_key x"
    using k c by (auto simp: wiser_key_def word_less_def)
qed (simp_all add: wiser_info_cmp_def wiser_fit_def wiser_key_def wiser_cost_of_def cmp_to_local_def
    step_weight_def step_local_pref_def step_local_route_def)

lemma sorted_wrt_pairwise:
  "distinct xs \<Longrightarrow> (\<forall>x\<in>set xs. \<forall>y\<in>set xs. x \<noteq> y \<longrightarrow> P x y) \<Longrightarrow> sorted_wrt P xs"
  by (induction xs) auto

lemma sorted_wrt_all: "(\<And>x y. x \<in> set xs \<Longrightarrow> y \<in> set xs \<Longrightarrow> P x y) \<Longrightarrow> sorted_wrt P xs"
  by (induction xs) auto

lemma best_selection_loop:
  assumes "\<not> bgp_flag_check bgp BGP_FLAG_DETERMINISTIC_MED"
    and "select_loop (case_option bgp_info_cmp (\<lambda>c. c) pic bgp) False rn (rn_info rn) None None
      = Some (ris, reaped, old, m)"
  shows "bgp_best_selection pic bgp rn = Some (rn\<lparr>rn_info := ris, rn_lock := rn_lock rn - reaped\<rparr>, old, m)"
  using assms by (simp add: bgp_best_selection_def)

lemma address_key_inject: "sockunion_ok a \<Longrightarrow> sockunion_ok b \<Longrightarrow> address_key a = address_key b \<Longrightarrow> a = b"
proof -
  have "inj (uint :: u8 \<Rightarrow> int)" by (simp add: inj_def word_uint_eq_iff)
  then have "map uint x = map uint y \<longleftrightarrow> x = y" for x y :: "u8 list" by (rule inj_map_eq_map)
  then show "sockunion_ok a \<Longrightarrow> sockunion_ok b \<Longrightarrow> address_key a = address_key b \<Longrightarrow> a = b"
    by (cases a; cases b) (auto simp: word_uint_eq_iff)
qed

lemma decision_key_inject:
  "info_ok x \<Longrightarrow> info_ok y \<Longrightarrow> decision_key bgp x = decision_key bgp y \<Longrightarrow> info_addr x = info_addr y"
  unfolding decision_key_def info_ok_def Let_def
  by (rule address_key_inject) simp_all

definition is_best :: "bgp \<Rightarrow> bgp_info set \<Rightarrow> bgp_info option \<Rightarrow> bool" where
  "is_best bgp U m = (case m of None \<Rightarrow> U = {}
     | Some m \<Rightarrow> (\<exists>x\<in>U. info_id x = info_id m \<and> decision_key bgp x = decision_key bgp m)
         \<and> (\<forall>x\<in>U. decision_key bgp m \<le> decision_key bgp x))"

lemma is_best_unique:
  assumes "is_best bgp U m" "is_best bgp U n" "\<forall>x\<in>U. info_ok x" "inj_on info_addr U"
  shows "map_option info_id m = map_option info_id n"
proof (cases m; cases n)
  fix a b assume ab: "m = Some a" "n = Some b"
  obtain x where x: "x \<in> U" "info_id x = info_id a" "decision_key bgp x = decision_key bgp a"
    using assms(1) ab unfolding is_best_def by auto
  obtain y where y: "y \<in> U" "info_id y = info_id b" "decision_key bgp y = decision_key bgp b"
    using assms(2) ab unfolding is_best_def by auto
  have "decision_key bgp a \<le> decision_key bgp b" "decision_key bgp b \<le> decision_key bgp a"
    using assms(1,2) ab x y unfolding is_best_def by fastforce+
  then have "decision_key bgp x = decision_key bgp y" using x(3) y(3) by simp
  then have "x = y"
    using decision_key_inject [of x y] assms(3,4) x(1) y(1) by (meson inj_onD)
  then show ?thesis using ab x(2) y(2) by simp
qed (use assms(1,2) in \<open>auto simp: is_best_def\<close>)

lemma best_selection_min:
  assumes "bgp_flag_check bgp BGP_FLAG_COMPARE_ROUTER_ID" "bgp_flag_check bgp BGP_FLAG_ALWAYS_COMPARE_MED"
    and "\<not> bgp_flag_check bgp BGP_FLAG_DETERMINISTIC_MED" "distinct (usable (rn_info rn))"
    and "\<forall>x\<in>set (usable (rn_info rn)). info_ok x"
    and "\<forall>x\<in>set (usable (rn_info rn)). \<forall>y\<in>set (usable (rn_info rn)).
           x \<noteq> y \<longrightarrow> info_sub_type x = 0 \<or> info_sub_type y = 0"
  shows "\<exists>rn' old m. bgp_best_selection None bgp rn = Some (rn', old, m)
     \<and> is_best bgp (set (usable (rn_info rn))) m"
proof -
  have "sorted_wrt (\<lambda>a b. bgp_fit bgp b a) (usable (rn_info rn))"
    by (rule sorted_wrt_pairwise [OF assms(4)])
       (use assms(1,2,5,6) in \<open>auto simp: bgp_fit_def\<close>)
  then obtain ris reaped old m where "select_loop (bgp_info_cmp bgp) False rn (rn_info rn) None None
        = Some (ris, reaped, old, m)" and m: "is_best bgp (set (usable (rn_info rn))) m"
    using bsel.select_loop_min [of bgp None "rn_info rn" rn None]
    by (fastforce simp: is_best_def split: option.splits)
  then show ?thesis using best_selection_loop [of bgp None rn, OF assms(3)] by auto
qed


definition node_of :: "bgp_info list \<Rightarrow> bgp_node" where
  "node_of ris = \<lparr>rn_table = BGP_TABLE_MAIN, rn_peer_self = AF_INET 0, rn_info = ris, rn_lock = length ris,
     rn_scheduled = False, pcount = (\<lambda>_. 0)\<rparr>"



definition wiser_route :: "as_t \<Rightarrow> as_t list \<Rightarrow> u32 \<Rightarrow> bgp_info" where
  "wiser_route rid path cost =
     (ebgp_route rid path 0)\<lparr>info_attr := (info_attr (ebgp_route rid path 0))\<lparr>attr_tarpan := Some
        \<lparr>tp_refcnt = 1, tp_message = Some (16, tarpan_message_new\<lparr>msg_wiser :=
           Some \<lparr>path_cost = cost, sender_as = hd path, sender_address = rid\<rparr>\<rparr>)\<rparr>\<rparr>\<rparr>"

lemma wiser_route_simps [simp]:
  "wiser_cost_of (wiser_route rid path cost) = Some cost"
  "BGP_INFO_HOLDDOWN (wiser_route rid path cost) = False"
  "cmp_to_local bgp (wiser_route r1 p1 c1) (wiser_route r2 p2 c2) = None"
  "info_id (wiser_route rid path cost) = unat rid"
  by (simp_all add: wiser_cost_of_def wiser_route_def ebgp_route_def BGP_INFO_HOLDDOWN_def CHECK_FLAG_def
      cmp_to_local_def step_weight_def step_local_pref_def step_local_route_def or_else_def prefer_high_def
      weight_of_def pref_of_def)


lemma wiser_flags [simp]:
  "wiser_cost_of (x\<lparr>info_flags := f\<rparr>) = wiser_cost_of x"
  "cmp_to_local bgp (x\<lparr>info_flags := f\<rparr>) y = cmp_to_local bgp x y"
  "cmp_to_local bgp x (y\<lparr>info_flags := f\<rparr>) = cmp_to_local bgp x y"
  by (simp_all add: wiser_cost_of_def cmp_to_local_def step_weight_def step_local_pref_def step_local_route_def)

lemma wiser_tie_first:
  assumes "\<not> bgp_flag_check bgp BGP_FLAG_DETERMINISTIC_MED"
  shows "map_option (\<lambda>(rn, old, m). map_option info_id m)
      (bgp_best_selection (Some wiser_info_cmp) bgp (node_of [wiser_route r1 p1 c, wiser_route r2 p2 c]))
    = Some (Some (unat r1))"
  using assms by (simp add: bgp_best_selection_def node_of_def unset_dmed wiser_info_cmp_def Let_def)


subsection \<open>Prefix counts\<close>

definition is_counted :: "bgp_info \<Rightarrow> bool" where
  "is_counted ri \<longleftrightarrow> CHECK_FLAG (info_flags ri) BGP_INFO_COUNTED"

definition tracked :: "bgp_node \<Rightarrow> bgp_info \<Rightarrow> bool" where
  "tracked rn ri \<longleftrightarrow> rn_table rn = BGP_TABLE_MAIN \<and> info_addr ri \<noteq> rn_peer_self rn"

text \<open>A route is counted exactly when it is usable and its peer's prefixes are counted.\<close>

definition info_counted_ok :: "bgp_node \<Rightarrow> bgp_info \<Rightarrow> bool" where
  "info_counted_ok rn ri \<longleftrightarrow> (is_counted ri \<longleftrightarrow> tracked rn ri \<and> \<not> BGP_INFO_HOLDDOWN ri)"

text \<open>An operation on a route that keeps the count of its peer right.\<close>

definition keeps_count :: "bgp_node \<Rightarrow> (bgp_info \<times> (sockunion \<Rightarrow> nat) \<Rightarrow> bgp_info \<times> (sockunion \<Rightarrow> nat)) \<Rightarrow> bool" where
  "keeps_count rn f \<longleftrightarrow> (\<forall>ri pc ri' pc'. f (ri, pc) = (ri', pc') \<longrightarrow> info_counted_ok rn ri \<longrightarrow>
     (is_counted ri \<longrightarrow> 0 < pc (info_addr ri)) \<longrightarrow>
     info_id ri' = info_id ri \<and> info_addr ri' = info_addr ri \<and> info_counted_ok rn ri'
     \<and> (\<forall>a. pc' a + (if a = info_addr ri \<and> is_counted ri then 1 else 0)
            = pc a + (if a = info_addr ri \<and> is_counted ri' then 1 else 0)))"

lemma keeps_countD:
  assumes "keeps_count rn f" "f (ri, pc) = (ri', pc')" "info_counted_ok rn ri"
    and "is_counted ri \<longrightarrow> 0 < pc (info_addr ri)"
  shows "info_id ri' = info_id ri \<and> info_addr ri' = info_addr ri \<and> info_counted_ok rn ri'
     \<and> (\<forall>a. pc' a + (if a = info_addr ri \<and> is_counted ri then 1 else 0)
            = pc a + (if a = info_addr ri \<and> is_counted ri' then 1 else 0))"
  using assms unfolding keeps_count_def by blast

lemma holddown_counted [simp]:
  "BGP_INFO_HOLDDOWN (ri\<lparr>info_flags := SET_FLAG (info_flags ri) BGP_INFO_COUNTED\<rparr>) = BGP_INFO_HOLDDOWN ri"
  "BGP_INFO_HOLDDOWN (ri\<lparr>info_flags := UNSET_FLAG (info_flags ri) BGP_INFO_COUNTED\<rparr>) = BGP_INFO_HOLDDOWN ri"
  by (simp_all add: BGP_INFO_HOLDDOWN_def CHECK_SET_FLAG CHECK_UNSET_FLAG_other) (auto simp: CHECK_FLAG_def)

lemma tracked_flags [simp]: "tracked rn (ri\<lparr>info_flags := f\<rparr>) = tracked rn ri"
  by (simp add: tracked_def)

lemma pcount_adjust_keeps:
  assumes "bgp_pcount_adjust rn (ri, pc) = (ri', pc')" "is_counted ri \<longrightarrow> tracked rn ri \<and> 0 < pc (info_addr ri)"
  shows "info_id ri' = info_id ri \<and> info_addr ri' = info_addr ri \<and> info_counted_ok rn ri'
     \<and> (\<forall>a. pc' a + (if a = info_addr ri \<and> is_counted ri then 1 else 0)
            = pc a + (if a = info_addr ri \<and> is_counted ri' then 1 else 0))"
proof (cases "tracked rn ri")
  case False
  then have "ri' = ri" "pc' = pc" using assms(1) by (auto simp: bgp_pcount_adjust_def tracked_def split: if_splits)
  then show ?thesis using False assms(2) by (auto simp: info_counted_ok_def)
next
  case True
  then have adj: "bgp_pcount_adjust rn (ri, pc) =
     (if BGP_INFO_HOLDDOWN ri \<and> is_counted ri
      then (ri\<lparr>info_flags := UNSET_FLAG (info_flags ri) BGP_INFO_COUNTED\<rparr>,
            if pc (info_addr ri) \<noteq> 0 then pc(info_addr ri := pc (info_addr ri) - 1) else pc)
      else if \<not> BGP_INFO_HOLDDOWN ri \<and> \<not> is_counted ri
      then (ri\<lparr>info_flags := SET_FLAG (info_flags ri) BGP_INFO_COUNTED\<rparr>, pc(info_addr ri := pc (info_addr ri) + 1))
      else (ri, pc))"
    by (auto simp: bgp_pcount_adjust_def tracked_def is_counted_def)
  have c: "is_counted (ri\<lparr>info_flags := SET_FLAG (info_flags ri) BGP_INFO_COUNTED\<rparr>)"
    "\<not> is_counted (ri\<lparr>info_flags := UNSET_FLAG (info_flags ri) BGP_INFO_COUNTED\<rparr>)"
    by (simp_all add: is_counted_def CHECK_SET_FLAG) (simp add: CHECK_FLAG_def)
  show ?thesis
    using assms True c unfolding adj
    by (auto simp: info_counted_ok_def split: if_splits)
qed

lemma flag_harmless:
  assumes "\<not> CHECK_FLAG flag (0x10 OR 0x206 :: u16)"
  shows "flag AND 0x10 = 0" "flag AND 0x206 = 0" "\<not> CHECK_FLAG flag 0x10" "\<not> CHECK_FLAG flag 0x206"
  using assms unfolding CHECK_FLAG_def not_not bit.conj_disj_distrib or_eq_0_iff by blast+

lemma set_flag_keeps:
  assumes "\<not> CHECK_FLAG flag BGP_INFO_COUNTED"
  shows "keeps_count rn (bgp_info_set_flag rn flag)"
  unfolding keeps_count_def
proof (intro allI impI)
  fix ri pc ri' pc'
  assume f: "bgp_info_set_flag rn flag (ri, pc) = (ri', pc')" and ok: "info_counted_ok rn ri"
    and pos: "is_counted ri \<longrightarrow> 0 < pc (info_addr ri)"
  let ?r = "ri\<lparr>info_flags := SET_FLAG (info_flags ri) flag\<rparr>"
  have c: "is_counted ?r = is_counted ri" using assms by (simp add: is_counted_def CHECK_SET_FLAG)
  show "info_id ri' = info_id ri \<and> info_addr ri' = info_addr ri \<and> info_counted_ok rn ri'
     \<and> (\<forall>a. pc' a + (if a = info_addr ri \<and> is_counted ri then 1 else 0)
            = pc a + (if a = info_addr ri \<and> is_counted ri' then 1 else 0))"
  proof (cases "CHECK_FLAG flag (0x10 OR 0x206)")
    case True
    then have "bgp_pcount_adjust rn (?r, pc) = (ri', pc')" using f by (simp add: bgp_info_set_flag_def)
    from pcount_adjust_keeps [OF this] show ?thesis using ok pos c by (simp add: info_counted_ok_def)
  next
    case False
    then have "BGP_INFO_HOLDDOWN ?r = BGP_INFO_HOLDDOWN ri"
      using flag_harmless [OF False] by (simp add: BGP_INFO_HOLDDOWN_def CHECK_SET_FLAG)
    then show ?thesis using f False ok c by (auto simp: bgp_info_set_flag_def info_counted_ok_def)
  qed
qed

lemma unset_flag_keeps:
  assumes "flag AND BGP_INFO_COUNTED = 0"
  shows "keeps_count rn (bgp_info_unset_flag rn flag)"
  unfolding keeps_count_def
proof (intro allI impI)
  fix ri pc ri' pc'
  assume f: "bgp_info_unset_flag rn flag (ri, pc) = (ri', pc')" and ok: "info_counted_ok rn ri"
    and pos: "is_counted ri \<longrightarrow> 0 < pc (info_addr ri)"
  let ?r = "ri\<lparr>info_flags := UNSET_FLAG (info_flags ri) flag\<rparr>"
  have c: "is_counted ?r = is_counted ri" using assms by (simp add: is_counted_def CHECK_UNSET_FLAG_other)
  show "info_id ri' = info_id ri \<and> info_addr ri' = info_addr ri \<and> info_counted_ok rn ri'
     \<and> (\<forall>a. pc' a + (if a = info_addr ri \<and> is_counted ri then 1 else 0)
            = pc a + (if a = info_addr ri \<and> is_counted ri' then 1 else 0))"
  proof (cases "CHECK_FLAG flag (0x10 OR 0x206)")
    case True
    then have "bgp_pcount_adjust rn (?r, pc) = (ri', pc')" using f by (simp add: bgp_info_unset_flag_def)
    from pcount_adjust_keeps [OF this] show ?thesis using ok pos c by (simp add: info_counted_ok_def)
  next
    case False
    then have "BGP_INFO_HOLDDOWN ?r = BGP_INFO_HOLDDOWN ri"
      using flag_harmless [OF False] by (simp add: BGP_INFO_HOLDDOWN_def CHECK_UNSET_FLAG_other)
    then show ?thesis using f False ok c by (auto simp: bgp_info_unset_flag_def info_counted_ok_def)
  qed
qed

lemma removed_holddown: "CHECK_FLAG (info_flags ri) BGP_INFO_REMOVED \<Longrightarrow> BGP_INFO_HOLDDOWN ri"
proof -
  have "(0x206 :: u16) = 0x200 OR 0x6" by simp
  then show "CHECK_FLAG (info_flags ri) 0x200 \<Longrightarrow> BGP_INFO_HOLDDOWN ri"
    unfolding BGP_INFO_HOLDDOWN_def CHECK_FLAG_def by (simp only: bit.conj_disj_distrib or_eq_0_iff) simp
qed

lemma adjust_other_flags:
  assumes "BGP_INFO_COUNTED AND c = 0"
  shows "CHECK_FLAG (info_flags (fst (bgp_pcount_adjust rn (ri, pc)))) c = CHECK_FLAG (info_flags ri) c"
proof -
  have "\<not> CHECK_FLAG 0x400 c" using assms by (simp add: CHECK_FLAG_def)
  then show ?thesis
    by (simp add: bgp_pcount_adjust_def CHECK_SET_FLAG CHECK_UNSET_FLAG_other [OF assms])
qed

lemma delete_keeps: "keeps_count rn (bgp_info_delete rn)"
  unfolding keeps_count_def
proof (intro allI impI)
  fix ri pc ri' pc'
  assume d: "bgp_info_delete rn (ri, pc) = (ri', pc')" and ok: "info_counted_ok rn ri"
    and pos: "is_counted ri \<longrightarrow> 0 < pc (info_addr ri)"
  obtain r p where r: "bgp_info_set_flag rn BGP_INFO_REMOVED (ri, pc) = (r, p)" by fastforce
  have ri': "ri' = r\<lparr>info_flags := UNSET_FLAG (info_flags r) BGP_INFO_VALID\<rparr>" "pc' = p"
    using d r by (simp_all add: bgp_info_delete_def)
  have k: "info_id r = info_id ri \<and> info_addr r = info_addr ri \<and> info_counted_ok rn r
     \<and> (\<forall>a. p a + (if a = info_addr ri \<and> is_counted ri then 1 else 0)
            = pc a + (if a = info_addr ri \<and> is_counted r then 1 else 0))"
    using set_flag_keeps [of "0x200" rn] r ok pos unfolding keeps_count_def by (simp add: CHECK_FLAG_def)
  have "r = fst (bgp_pcount_adjust rn (ri\<lparr>info_flags := SET_FLAG (info_flags ri) BGP_INFO_REMOVED\<rparr>, pc))"
    using r by (simp add: bgp_info_set_flag_def CHECK_FLAG_def)
  then have "CHECK_FLAG (info_flags r) BGP_INFO_REMOVED"
    by (simp add: adjust_other_flags CHECK_SET_FLAG) (simp add: CHECK_FLAG_def)
  then have "BGP_INFO_HOLDDOWN r" by (rule removed_holddown)
  moreover have "BGP_INFO_HOLDDOWN ri'" by (simp add: ri'(1) BGP_INFO_HOLDDOWN_def)
  moreover have "is_counted ri' = is_counted r" by (simp add: ri'(1) is_counted_def CHECK_UNSET_FLAG_other)
  ultimately show "info_id ri' = info_id ri \<and> info_addr ri' = info_addr ri \<and> info_counted_ok rn ri'
     \<and> (\<forall>a. pc' a + (if a = info_addr ri \<and> is_counted ri then 1 else 0)
            = pc a + (if a = info_addr ri \<and> is_counted ri' then 1 else 0))"
    using k ri' by (simp add: info_counted_ok_def tracked_def)
qed

lemma CHECK_FLAG_consts [simp]:
  "CHECK_FLAG (0x200 :: u16) 0x200" "\<not> CHECK_FLAG (0x200 :: u16) 0x10" "\<not> CHECK_FLAG (0x200 :: u16) 0x6"
  "\<not> CHECK_FLAG (0x200 :: u16) 0x400" "CHECK_FLAG (0x10 :: u16) 0x10" "\<not> CHECK_FLAG (0x10 :: u16) 0x200"
  "\<not> CHECK_FLAG (0x10 :: u16) 0x6" "\<not> CHECK_FLAG (0x10 :: u16) 0x400" "CHECK_FLAG (0x400 :: u16) 0x400"
  "\<not> CHECK_FLAG (0x400 :: u16) 0x10" "\<not> CHECK_FLAG (0x400 :: u16) 0x200" "\<not> CHECK_FLAG (0x400 :: u16) 0x6"
  "CHECK_FLAG (0x10 :: u16) 0x216" "CHECK_FLAG (0x200 :: u16) 0x216"
  by (simp_all add: CHECK_FLAG_def)

lemmas flag_eval = CHECK_SET_FLAG CHECK_UNSET_FLAG_other

lemma holddown_iff:
  "BGP_INFO_HOLDDOWN ri \<longleftrightarrow> \<not> CHECK_FLAG (info_flags ri) 0x10
     \<or> CHECK_FLAG (info_flags ri) 0x200 \<or> CHECK_FLAG (info_flags ri) 0x6"
proof -
  have "(0x206 :: u16) = 0x200 OR 0x6" by simp
  then show ?thesis
    unfolding BGP_INFO_HOLDDOWN_def CHECK_FLAG_def by (simp only: bit.conj_disj_distrib or_eq_0_iff) blast
qed



text \<open>
  What a node can go through: routes are made valid and added, the flags of a route
  change, a route is deleted, and unusable routes are reaped. \<open>base\<close> are the counts
  that come from other nodes.
\<close>

inductive rib_run :: "(sockunion \<Rightarrow> nat) \<Rightarrow> bgp_node \<Rightarrow> bool" for base where
  init: "rn_info rn = [] \<Longrightarrow> pcount rn = base \<Longrightarrow> rib_run base rn"
| add: "rib_run base rn \<Longrightarrow> \<not> is_counted ri \<Longrightarrow> BGP_INFO_HOLDDOWN ri \<Longrightarrow>
    bgp_info_set_flag rn BGP_INFO_VALID (ri, pcount rn) = (ri', pc) \<Longrightarrow>
    rib_run base (bgp_info_add (rn\<lparr>pcount := pc\<rparr>) ri')"
| set_flag: "rib_run base rn \<Longrightarrow> \<not> CHECK_FLAG flag BGP_INFO_COUNTED \<Longrightarrow>
    on_info p (bgp_info_set_flag rn flag) rn = Some rn' \<Longrightarrow> rib_run base rn'"
| unset_flag: "rib_run base rn \<Longrightarrow> \<not> CHECK_FLAG flag BGP_INFO_COUNTED \<Longrightarrow>
    on_info p (bgp_info_unset_flag rn flag) rn = Some rn' \<Longrightarrow> rib_run base rn'"
| delete: "rib_run base rn \<Longrightarrow> on_info p (bgp_info_delete rn) rn = Some rn' \<Longrightarrow> rib_run base rn'"
| reap: "rib_run base rn \<Longrightarrow> \<forall>ri\<in>set (rn_info rn). info_id ri = p \<longrightarrow> BGP_INFO_HOLDDOWN ri \<Longrightarrow>
    rib_run base (bgp_info_reap rn p)"

definition counted_from :: "sockunion \<Rightarrow> bgp_info list \<Rightarrow> nat" where
  "counted_from a ris = length (filter (\<lambda>ri. info_addr ri = a \<and> is_counted ri) ris)"

definition rib_inv :: "(sockunion \<Rightarrow> nat) \<Rightarrow> bgp_node \<Rightarrow> bool" where
  "rib_inv base rn \<longleftrightarrow> list_all (info_counted_ok rn) (rn_info rn)
     \<and> (\<forall>a. pcount rn a = base a + counted_from a (rn_info rn))"

lemma counted_from_Cons:
  "counted_from a (ri # ris) = (if a = info_addr ri \<and> is_counted ri then 1 else 0) + counted_from a ris"
  by (auto simp: counted_from_def)

lemma update_info_inv:
  assumes f: "keeps_count rn f"
  shows "update_info p f ris pc = Some (ris', pc') \<Longrightarrow> list_all (info_counted_ok rn) ris \<Longrightarrow>
     (\<forall>a. pc a = base a + counted_from a ris) \<Longrightarrow>
     list_all (info_counted_ok rn) ris' \<and> (\<forall>a. pc' a = base a + counted_from a ris')"
proof (induction ris arbitrary: ris' base)
  case (Cons ri ris)
  show ?case
  proof (cases "info_id ri = p")
    case True
    obtain r q where r: "f (ri, pc) = (r, q)" by fastforce
    then have ris': "ris' = r # ris" "pc' = q" using True Cons.prems(1) by simp_all
    have "is_counted ri \<longrightarrow> 0 < pc (info_addr ri)" using Cons.prems(3) by (simp add: counted_from_Cons)
    then have k: "info_addr r = info_addr ri" "info_counted_ok rn r"
        "q a + (if a = info_addr ri \<and> is_counted ri then 1 else 0)
           = pc a + (if a = info_addr ri \<and> is_counted r then 1 else 0)" for a
      using f r Cons.prems(2) unfolding keeps_count_def by auto
    have "q a = base a + counted_from a (r # ris)" for a
      using k(3) [of a] Cons.prems(3) k(1) by (simp add: counted_from_Cons split: if_splits)
    then show ?thesis using ris' k Cons.prems(2) by simp
  next
    case False
    then obtain ris1 where u: "update_info p f ris pc = Some (ris1, pc')" "ris' = ri # ris1"
      using Cons.prems(1) by (auto simp: bind_eq_Some_conv)
    let ?b = "\<lambda>a. base a + (if a = info_addr ri \<and> is_counted ri then 1 else 0)"
    have "list_all (info_counted_ok rn) ris1 \<and> (\<forall>a. pc' a = ?b a + counted_from a ris1)"
      using Cons.IH [OF u(1), of ?b] Cons.prems(2,3) by (simp add: counted_from_Cons add.assoc)
    then show ?thesis using u(2) Cons.prems(2) by (simp add: counted_from_Cons)
  qed
qed simp

lemma info_counted_ok_cong:
  "rn_table rn' = rn_table rn \<Longrightarrow> rn_peer_self rn' = rn_peer_self rn \<Longrightarrow> info_counted_ok rn' = info_counted_ok rn"
  by (intro ext) (simp add: info_counted_ok_def tracked_def)

lemma on_info_inv:
  assumes "on_info p f rn = Some rn'" "keeps_count rn f" "rib_inv base rn"
  shows "rib_inv base rn'"
proof -
  obtain ris pc where u: "update_info p f (rn_info rn) (pcount rn) = Some (ris, pc)"
      "rn' = rn\<lparr>rn_info := ris, pcount := pc\<rparr>"
    using assms(1) by (auto simp: on_info_def bind_eq_Some_conv)
  have "info_counted_ok rn' = info_counted_ok rn" by (rule info_counted_ok_cong) (simp_all add: u(2))
  then show ?thesis
    using update_info_inv [OF assms(2) u(1), of base] assms(3) u(2) by (simp add: rib_inv_def)
qed

lemma add_inv:
  assumes "rib_inv base rn" "\<not> is_counted ri" "BGP_INFO_HOLDDOWN ri"
    and "bgp_info_set_flag rn BGP_INFO_VALID (ri, pcount rn) = (ri', pc)"
  shows "rib_inv base (bgp_info_add (rn\<lparr>pcount := pc\<rparr>) ri')"
proof -
  let ?rn = "bgp_info_add (rn\<lparr>pcount := pc\<rparr>) ri'"
  have kc: "keeps_count rn (bgp_info_set_flag rn BGP_INFO_VALID)" by (rule set_flag_keeps) simp
  have ok: "info_counted_ok rn ri" using assms(2,3) by (simp add: info_counted_ok_def)
  have pos: "is_counted ri \<longrightarrow> 0 < pcount rn (info_addr ri)" using assms(2) by simp
  have k: "info_addr ri' = info_addr ri" "info_counted_ok rn ri'"
      "pc a + (if a = info_addr ri \<and> is_counted ri then 1 else 0)
         = pcount rn a + (if a = info_addr ri \<and> is_counted ri' then 1 else 0)" for a
    using keeps_countD [OF kc assms(4) ok pos] by blast+
  have "info_counted_ok ?rn = info_counted_ok rn" by (rule info_counted_ok_cong) (simp_all add: bgp_info_add_def)
  moreover have "pc a = base a + counted_from a (ri' # rn_info rn)" for a
    using k(1) k(3) [of a] assms(1,2) by (simp add: rib_inv_def counted_from_Cons)
  ultimately show ?thesis using k(2) assms(1) by (simp add: rib_inv_def bgp_info_add_def)
qed

lemma reap_inv:
  assumes "rib_inv base rn" "\<forall>ri\<in>set (rn_info rn). info_id ri = p \<longrightarrow> BGP_INFO_HOLDDOWN ri"
  shows "rib_inv base (bgp_info_reap rn p)"
proof -
  have "info_counted_ok (bgp_info_reap rn p) = info_counted_ok rn"
    by (rule info_counted_ok_cong) (simp_all add: bgp_info_reap_def)
  moreover have "counted_from a (filter (\<lambda>ri. info_id ri \<noteq> p) (rn_info rn)) = counted_from a (rn_info rn)" for a
    unfolding counted_from_def filter_filter
    by (rule arg_cong [of _ _ length], rule filter_cong [OF refl])
       (use assms in \<open>auto simp: rib_inv_def list_all_iff info_counted_ok_def\<close>)
  ultimately show ?thesis using assms(1) by (auto simp: rib_inv_def bgp_info_reap_def list_all_iff)
qed

lemma rib_run_inv: "rib_run base rn \<Longrightarrow> rib_inv base rn"
proof (induction rule: rib_run.induct)
  case (init rn)
  then show ?case by (simp add: rib_inv_def counted_from_def)
next
  case (add rn ri ri' pc)
  then show ?case using add_inv by blast
next
  case (set_flag rn flag p rn')
  then show ?case using on_info_inv set_flag_keeps by blast
next
  case (unset_flag rn flag p rn')
  then show ?case using on_info_inv unset_flag_keeps [of flag rn] unfolding CHECK_FLAG_def by blast
next
  case (delete rn p rn')
  then show ?case using on_info_inv delete_keeps by blast
next
  case (reap rn p)
  then show ?case using reap_inv by blast
qed



subsection \<open>Processing a node\<close>

abbreviation selected :: "bgp_info \<Rightarrow> bool" where
  "selected ri \<equiv> CHECK_FLAG (info_flags ri) BGP_INFO_SELECTED"

definition selected_ids :: "bgp_info list \<Rightarrow> nat list" where
  "selected_ids ris = map info_id (filter selected ris)"

lemma selected_unset_dmed [simp]:
  "CHECK_FLAG (UNSET_FLAG f 0x40) (0x8 :: u16) = CHECK_FLAG f 0x8"
  "CHECK_FLAG (UNSET_FLAG f 0x80) (0x8 :: u16) = CHECK_FLAG f 0x8"
  by (simp_all add: CHECK_UNSET_FLAG_other)

text \<open>The loop keeps the selected routes, reports the last of them, and returns a route it keeps.\<close>

lemma select_loop_ids:
  "select_loop cmp dmed rn ris old best = Some (ris', reaped, old', m) \<Longrightarrow>
     subseq (map info_id ris') (map info_id ris)
     \<and> selected_ids ris' = selected_ids ris
     \<and> old' = (if selected_ids ris = [] then old else Some (last (selected_ids ris)))
     \<and> (m = best \<or> (\<exists>b\<in>set ris'. m = Some b \<and> \<not> BGP_INFO_HOLDDOWN b))"
proof (induction ris arbitrary: old best ris' reaped)
  case Nil
  then show ?case by (simp add: selected_ids_def)
next
  case (Cons ri ris)
  let ?old = "if selected ri then Some (info_id ri) else old"
  have hd: "BGP_INFO_HOLDDOWN (ri\<lparr>info_flags := UNSET_FLAG (UNSET_FLAG (info_flags ri) 0x40) 0x80\<rparr>)
      = BGP_INFO_HOLDDOWN ri"
    by (simp add: BGP_INFO_HOLDDOWN_def CHECK_UNSET_FLAG_other)
  consider (hold) "BGP_INFO_HOLDDOWN ri"
    | (skip) "\<not> BGP_INFO_HOLDDOWN ri" "dmed \<and> \<not> CHECK_FLAG (info_flags ri) BGP_INFO_DMED_SELECTED"
    | (cmp) "\<not> BGP_INFO_HOLDDOWN ri" "\<not> (dmed \<and> \<not> CHECK_FLAG (info_flags ri) BGP_INFO_DMED_SELECTED)"
    by blast
  then show ?case
  proof cases
    case hold
    then obtain ris1 k r where 1: "select_loop cmp dmed rn ris ?old best = Some (ris1, k, r)"
        "if CHECK_FLAG (info_flags ri) BGP_INFO_REMOVED \<and> Some (info_id ri) \<noteq> ?old
         then ris' = ris1 \<and> r = (old', m) else ris' = ri # ris1 \<and> r = (old', m)"
      using Cons.prems by (auto simp: Let_def bind_eq_Some_conv split: if_splits)
    then have "select_loop cmp dmed rn ris ?old best = Some (ris1, k, old', m)" by (simp split: if_splits)
    note Cons.IH [OF this]
    then show ?thesis using 1(2) by (auto simp: selected_ids_def split: if_splits)
  next
    case skip
    then obtain ris1 r where 1: "select_loop cmp dmed rn ris ?old best = Some (ris1, reaped, old', m)"
        "ris' = ri\<lparr>info_flags := UNSET_FLAG (info_flags ri) 0x40\<rparr> # ris1"
      using Cons.prems by (auto simp: Let_def bind_eq_Some_conv unset_dmed)
    then show ?thesis using Cons.IH [OF 1(1)] by (auto simp: selected_ids_def)
  next
    case cmp
    let ?ri = "ri\<lparr>info_flags := UNSET_FLAG (UNSET_FLAG (info_flags ri) 0x40) 0x80\<rparr>"
    obtain d eq where d: "cmp (Some ?ri) best = Some (d, eq)"
      using Cons.prems cmp by (cases "cmp (Some ?ri) best") (auto simp: Let_def unset_dmed)
    then have "select_loop cmp dmed rn (ri # ris) old best
        = do { (ris, r) \<leftarrow> select_loop cmp dmed rn ris ?old (if d then Some ?ri else best); Some (?ri # ris, r) }"
      using cmp by (auto simp: unset_dmed Let_def)
    then obtain ris1 where 1: "select_loop cmp dmed rn ris ?old (if d then Some ?ri else best)
          = Some (ris1, reaped, old', m)" "ris' = ?ri # ris1"
      using Cons.prems by (auto simp: bind_eq_Some_conv)
    then show ?thesis using Cons.IH [OF 1(1)] cmp(1) hd by (auto simp: selected_ids_def split: if_splits)
  qed
qed

text \<open>Changing a flag that does not matter for the counts.\<close>

lemma update_info_map:
  assumes "\<And>ri pc. f (ri, pc) = (g ri, pc)"
  shows "distinct (map info_id ris) \<Longrightarrow> p \<in> info_id ` set ris \<Longrightarrow>
     update_info p f ris pc = Some (map (\<lambda>ri. if info_id ri = p then g ri else ri) ris, pc)"
proof (induction ris)
  case (Cons ri ris)
  show ?case
  proof (cases "info_id ri = p")
    case True
    then have "map (\<lambda>ri. if info_id ri = p then g ri else ri) ris = ris"
      using Cons.prems(1) by (intro map_idI) (auto simp: image_iff)
    then show ?thesis using True by (simp add: assms)
  next
    case False
    then show ?thesis using Cons by auto
  qed
qed simp

lemma on_info_map:
  assumes "\<And>ri pc. f (ri, pc) = (g ri, pc)" "distinct (map info_id (rn_info rn))" "p \<in> info_id ` set (rn_info rn)"
  shows "on_info p f rn = Some (rn\<lparr>rn_info := map (\<lambda>ri. if info_id ri = p then g ri else ri) (rn_info rn)\<rparr>)"
  using update_info_map [OF assms(1-3), of "pcount rn"] by (simp add: on_info_def)

lemma selected_flag_ops:
  "bgp_info_unset_flag rn BGP_INFO_SELECTED (ri, pc) = (ri\<lparr>info_flags := UNSET_FLAG (info_flags ri) 0x8\<rparr>, pc)"
  "bgp_info_set_flag rn BGP_INFO_SELECTED (ri, pc) = (ri\<lparr>info_flags := SET_FLAG (info_flags ri) 0x8\<rparr>, pc)"
  "bgp_info_unset_flag rn BGP_INFO_ATTR_CHANGED (ri, pc) = (ri\<lparr>info_flags := UNSET_FLAG (info_flags ri) 0x20\<rparr>, pc)"
  "clear_flag BGP_INFO_MULTIPATH_CHG (ri, pc) = (ri\<lparr>info_flags := UNSET_FLAG (info_flags ri) 0x1000\<rparr>, pc)"
  by (simp_all add: bgp_info_unset_flag_def bgp_info_set_flag_def clear_flag_def CHECK_FLAG_def)

definition flags_at :: "nat \<Rightarrow> (u16 \<Rightarrow> u16) \<Rightarrow> bgp_info list \<Rightarrow> bgp_info list" where
  "flags_at p g = map (\<lambda>ri. if info_id ri = p then ri\<lparr>info_flags := g (info_flags ri)\<rparr> else ri)"

lemma flags_at_ids [simp]: "map info_id (flags_at p g ris) = map info_id ris"
  by (simp add: flags_at_def)

lemma flags_at_id_set [simp]: "info_id ` set (flags_at p g ris) = info_id ` set ris"
  using flags_at_ids by (metis list.set_map)

lemma on_info_flags:
  assumes "distinct (map info_id (rn_info rn))" "p \<in> info_id ` set (rn_info rn)"
  shows "on_info p (bgp_info_unset_flag rn' BGP_INFO_SELECTED) rn
           = Some (rn\<lparr>rn_info := flags_at p (\<lambda>f. UNSET_FLAG f 0x8) (rn_info rn)\<rparr>)"
    and "on_info p (bgp_info_set_flag rn' BGP_INFO_SELECTED) rn
           = Some (rn\<lparr>rn_info := flags_at p (\<lambda>f. SET_FLAG f 0x8) (rn_info rn)\<rparr>)"
    and "on_info p (bgp_info_unset_flag rn' BGP_INFO_ATTR_CHANGED) rn
           = Some (rn\<lparr>rn_info := flags_at p (\<lambda>f. UNSET_FLAG f 0x20) (rn_info rn)\<rparr>)"
    and "on_info p (clear_flag BGP_INFO_MULTIPATH_CHG) rn
           = Some (rn\<lparr>rn_info := flags_at p (\<lambda>f. UNSET_FLAG f 0x1000) (rn_info rn)\<rparr>)"
  unfolding flags_at_def by (rule on_info_map [OF selected_flag_ops(1) assms] on_info_map [OF selected_flag_ops(2) assms]
    on_info_map [OF selected_flag_ops(3) assms] on_info_map [OF selected_flag_ops(4) assms])+

lemma selected_ids_flags:
  "selected_ids (flags_at p (\<lambda>f. UNSET_FLAG f 0x20) ris) = selected_ids ris"
  "selected_ids (flags_at p (\<lambda>f. UNSET_FLAG f 0x1000) ris) = selected_ids ris"
  "selected_ids (flags_at p (\<lambda>f. UNSET_FLAG f 0x8) ris) = filter (\<lambda>q. q \<noteq> p) (selected_ids ris)"
  "selected_ids (filter (\<lambda>ri. info_id ri \<noteq> p) ris) = filter (\<lambda>q. q \<noteq> p) (selected_ids ris)"
  by (induction ris) (simp_all add: selected_ids_def flags_at_def CHECK_UNSET_FLAG_other)

lemma selected_ids_set:
  assumes "distinct (map info_id ris)" "selected_ids ris = []" "p \<in> info_id ` set ris"
  shows "selected_ids (flags_at p (\<lambda>f. SET_FLAG f 0x8) ris) = [p]"
  using assms
proof (induction ris)
  case (Cons ri ris)
  have set8: "CHECK_FLAG (SET_FLAG f 0x8) (0x8 :: u16)" for f
    by (simp only: CHECK_SET_FLAG) (simp add: CHECK_FLAG_def)
  have nil: "selected_ids ris = []" "\<not> selected ri" using Cons.prems(2) by (auto simp: selected_ids_def split: if_splits)
  show ?case
  proof (cases "info_id ri = p")
    case True
    then have "flags_at p (\<lambda>f. SET_FLAG f 0x8) ris = ris"
      using Cons.prems(1) unfolding flags_at_def by (intro map_idI) (auto simp: image_iff)
    then show ?thesis using True nil set8 by (simp add: selected_ids_def flags_at_def)
  next
    case False
    then show ?thesis using Cons nil by (simp add: selected_ids_def flags_at_def)
  qed
qed simp

lemma best_selection_shape:
  assumes "distinct (map info_id (rn_info rn))" "length (selected_ids (rn_info rn)) \<le> 1"
    and "\<not> bgp_flag_check bgp BGP_FLAG_DETERMINISTIC_MED"
    and "bgp_best_selection pic bgp rn = Some (rn1, old, m)"
  shows "distinct (map info_id (rn_info rn1))"
    and "selected_ids (rn_info rn1) = case_option [] (\<lambda>p. [p]) old"
    and "m = None \<or> (\<exists>b\<in>set (rn_info rn1). m = Some b \<and> \<not> BGP_INFO_HOLDDOWN b)"
proof -
  obtain ris k where l: "select_loop (case_option bgp_info_cmp (\<lambda>c. c) pic bgp) False rn (rn_info rn) None None
        = Some (ris, k, old, m)" "rn_info rn1 = ris"
    using assms(3,4) by (auto simp: bgp_best_selection_def Let_def bind_eq_Some_conv)
  note k = select_loop_ids [OF l(1)]
  show "distinct (map info_id (rn_info rn1))"
    using k assms(1) l(2) by (metis subseq_conv_nths distinct_nthsI)
  show "selected_ids (rn_info rn1) = case_option [] (\<lambda>p. [p]) old"
    using k assms(2) l(2) by (cases "selected_ids (rn_info rn)") auto
  show "m = None \<or> (\<exists>b\<in>set (rn_info rn1). m = Some b \<and> \<not> BGP_INFO_HOLDDOWN b)"
    using k l(2) by simp
qed

lemma best_selection_old:
  assumes "\<not> bgp_flag_check bgp BGP_FLAG_DETERMINISTIC_MED" "selected_ids (rn_info rn) = []"
    and "bgp_best_selection pic bgp rn = Some (rn1, old, m)"
  shows "old = None"
  using assms by (auto simp: bgp_best_selection_def Let_def bind_eq_Some_conv dest!: select_loop_ids)

text \<open>The list after the flags of the old and the new selection have been changed.\<close>

lemma reselect:
  assumes "distinct (map info_id (rn_info rn1))" "selected_ids (rn_info rn1) = case_option [] (\<lambda>p. [p]) old"
    and "m = None \<or> (\<exists>b\<in>set (rn_info rn1). m = Some b)"
  shows "\<exists>rn2. (do { rn \<leftarrow> (case old of None \<Rightarrow> Some rn1
                   | Some p \<Rightarrow> on_info p (bgp_info_unset_flag rn1 BGP_INFO_SELECTED) rn1);
                 case m of None \<Rightarrow> Some rn
                   | Some ri \<Rightarrow> do {
                       rn \<leftarrow> on_info (info_id ri) (bgp_info_set_flag rn BGP_INFO_SELECTED) rn;
                       rn \<leftarrow> on_info (info_id ri) (bgp_info_unset_flag rn BGP_INFO_ATTR_CHANGED) rn;
                       on_info (info_id ri) (clear_flag BGP_INFO_MULTIPATH_CHG) rn } }) = Some rn2
     \<and> selected_ids (rn_info rn2) = case_option [] (\<lambda>b. [info_id b]) m"
proof -
  have old: "\<exists>rn. (case old of None \<Rightarrow> Some rn1
        | Some p \<Rightarrow> on_info p (bgp_info_unset_flag rn1 BGP_INFO_SELECTED) rn1) = Some rn
      \<and> distinct (map info_id (rn_info rn)) \<and> info_id ` set (rn_info rn) = info_id ` set (rn_info rn1)
      \<and> selected_ids (rn_info rn) = []"
  proof (cases old)
    case None
    then show ?thesis using assms by simp
  next
    case (Some p)
    then have "p \<in> set (selected_ids (rn_info rn1))" using assms(2) by simp
    then have "p \<in> info_id ` set (rn_info rn1)" by (auto simp: selected_ids_def)
    then show ?thesis using Some assms(1,2) by (simp add: on_info_flags selected_ids_flags)
  qed
  then obtain rn where rn: "(case old of None \<Rightarrow> Some rn1
        | Some p \<Rightarrow> on_info p (bgp_info_unset_flag rn1 BGP_INFO_SELECTED) rn1) = Some rn"
      "distinct (map info_id (rn_info rn))" "info_id ` set (rn_info rn) = info_id ` set (rn_info rn1)"
      "selected_ids (rn_info rn) = []"
    by blast
  show ?thesis
  proof (cases m)
    case None
    then show ?thesis using rn by simp
  next
    case (Some b)
    then have "info_id b \<in> info_id ` set (rn_info rn)" using assms(3) rn(3) by auto
    then show ?thesis
      using rn Some by (simp add: on_info_flags selected_ids_flags selected_ids_set)
  qed
qed

text \<open>A selected route that has been removed is not the new selection.\<close>

lemma reaped_not_new:
  assumes "distinct (map info_id (rn_info rn1))"
    and "m = None \<or> (\<exists>b\<in>set (rn_info rn1). m = Some b \<and> \<not> BGP_INFO_HOLDDOWN b)"
    and "find_info p rn1 = Some o1" "CHECK_FLAG (info_flags o1) BGP_INFO_REMOVED"
  shows "m \<noteq> None \<longrightarrow> info_id (the m) \<noteq> info_id o1"
proof
  assume "m \<noteq> None"
  then obtain b where b: "b \<in> set (rn_info rn1)" "m = Some b" "\<not> BGP_INFO_HOLDDOWN b" using assms(2) by auto
  have o1: "o1 \<in> set (rn_info rn1)" using assms(3) by (auto simp: find_info_def find_Some_iff)
  have "b \<noteq> o1" using b(3) removed_holddown [OF assms(4)] by auto
  then have "info_id b \<noteq> info_id o1" using assms(1) b(1) o1 by (auto simp: distinct_map dest: inj_onD)
  then show "info_id (the m) \<noteq> info_id o1" by (simp add: b(2))
qed



end
