(* ===== verification/Prefix.thy ===== *)
theory Prefix
  imports Bgp_Base
begin

text \<open>
  Network prefixes, \<open>lib/prefix.c\<close> and \<open>lib/prefix.h\<close>. A \<open>struct prefix\<close> is its family,
  its length in bits and the memory of its address union, 16 bytes; an IPv4 address
  takes the first four of them in network byte order. A read outside the union is
  \<open>None\<close>. The central lemma of the theory is that \<open>prefix_match\<close>, which compares
  whole bytes and then masks the last one, compares the first bits of the addresses.
\<close>

abbreviation (input) FAM_UNSPEC :: nat where "FAM_UNSPEC \<equiv> 0"
abbreviation (input) FAM_INET :: nat where "FAM_INET \<equiv> 2"
abbreviation (input) FAM_INET6 :: nat where "FAM_INET6 \<equiv> 10"
abbreviation (input) IPV4_MAX_BITLEN :: nat where "IPV4_MAX_BITLEN \<equiv> 32"
abbreviation (input) IPV6_MAX_BITLEN :: nat where "IPV6_MAX_BITLEN \<equiv> 128"
abbreviation (input) IPV4_MAX_BYTELEN :: nat where "IPV4_MAX_BYTELEN \<equiv> 4"
abbreviation (input) IPV6_MAX_BYTELEN :: nat where "IPV6_MAX_BYTELEN \<equiv> 16"

record prefix =
  family :: nat
  prefixlen :: nat
  u_prefix :: "u8 list"

definition maskbit :: "u8 list" where
  "maskbit = [0x00, 0x80, 0xc0, 0xe0, 0xf0, 0xf8, 0xfc, 0xfe, 0xff]"

text \<open>The table \<open>maskbytes6\<close>, row \<open>n\<close> of it the mask of length \<open>n\<close>.\<close>

definition maskbytes6 :: "u8 list list" where
  "maskbytes6 = map (\<lambda>n. replicate (n div 8) 0xff
      @ (if n mod 8 = 0 then [] else [maskbit ! (n mod 8)])
      @ replicate (16 - (n + 7) div 8) 0) [0..<129]"

definition byte_at :: "u8 list \<Rightarrow> nat \<Rightarrow> u8 option" where
  "byte_at b i = (if i < length b then Some (b ! i) else None)"

definition prefix_bit :: "u8 list \<Rightarrow> nat \<Rightarrow> bool option" where
  "prefix_bit addr len = do {
     b \<leftarrow> byte_at addr (len div 8);
     Some (drop_bit (7 - len mod 8) b AND 1 = 1) }"

definition prefix6_bit :: "u8 list \<Rightarrow> nat \<Rightarrow> bool option" where
  "prefix6_bit addr len = prefix_bit addr len"

abbreviation (input) AFI_IP :: nat where "AFI_IP \<equiv> 1"
abbreviation (input) AFI_IP6 :: nat where "AFI_IP6 \<equiv> 2"

definition afi2family :: "nat \<Rightarrow> nat" where
  "afi2family afi = (if afi = AFI_IP then FAM_INET else if afi = AFI_IP6 then FAM_INET6 else 0)"

definition family2afi :: "nat \<Rightarrow> nat" where
  "family2afi fam = (if fam = FAM_INET then AFI_IP else if fam = FAM_INET6 then AFI_IP6 else 0)"

text \<open>\<open>while (offset--)\<close>: the whole bytes, from the last to the first.\<close>

fun same_bytes :: "u8 list \<Rightarrow> u8 list \<Rightarrow> nat \<Rightarrow> bool option" where
  "same_bytes np pp 0 = Some True"
| "same_bytes np pp (Suc offset) = do {
     a \<leftarrow> byte_at np offset;
     b \<leftarrow> byte_at pp offset;
     if a \<noteq> b then Some False else same_bytes np pp offset }"

definition same_network :: "u8 list \<Rightarrow> u8 list \<Rightarrow> nat \<Rightarrow> bool option" where
  "same_network np pp len =
     (let offset = len div 8; shift = len mod 8
      in do {
        differ \<leftarrow> (if shift \<noteq> 0 then do {
                     a \<leftarrow> byte_at np offset;
                     b \<leftarrow> byte_at pp offset;
                     Some (maskbit ! shift AND (a XOR b) \<noteq> 0) }
                   else Some False);
        if differ then Some False else same_bytes np pp offset })"

definition prefix_match :: "prefix \<Rightarrow> prefix \<Rightarrow> bool option" where
  "prefix_match n p =
     (if prefixlen p < prefixlen n then Some False
      else same_network (u_prefix n) (u_prefix p) (prefixlen n))"

text \<open>The union is copied as the family says; the other bytes of the target stay.\<close>

definition prefix_copy :: "prefix \<Rightarrow> prefix \<Rightarrow> prefix option" where
  "prefix_copy dest src =
     (if family src = FAM_INET then
        Some \<lparr>family = family src, prefixlen = prefixlen src, u_prefix = take 4 (u_prefix src) @ drop 4 (u_prefix dest)\<rparr>
      else if family src = FAM_INET6 then
        Some \<lparr>family = family src, prefixlen = prefixlen src, u_prefix = u_prefix src\<rparr>
      else if family src = FAM_UNSPEC then
        Some \<lparr>family = family src, prefixlen = prefixlen src, u_prefix = take 8 (u_prefix src) @ drop 8 (u_prefix dest)\<rparr>
      else None)"

definition prefix_same :: "prefix \<Rightarrow> prefix \<Rightarrow> bool" where
  "prefix_same p1 p2 \<longleftrightarrow>
     family p1 = family p2 \<and> prefixlen p1 = prefixlen p2
     \<and> (family p1 = FAM_INET \<and> take 4 (u_prefix p1) = take 4 (u_prefix p2)
        \<or> family p1 = FAM_INET6 \<and> u_prefix p1 = u_prefix p2)"

definition prefix_cmp :: "prefix \<Rightarrow> prefix \<Rightarrow> int option" where
  "prefix_cmp p1 p2 =
     (if family p1 \<noteq> family p2 \<or> prefixlen p1 \<noteq> prefixlen p2 then Some 1
      else do {
        same \<leftarrow> same_network (u_prefix p1) (u_prefix p2) (prefixlen p1);
        Some (if same then 0 else 1) })"

text \<open>The position from which the addresses differ, at most \<open>length\<close>.\<close>

fun first_difference :: "u8 list \<Rightarrow> u8 list \<Rightarrow> nat" where
  "first_difference (a # as) (b # bs) = (if a \<noteq> b then 0 else Suc (first_difference as bs))"
| "first_difference _ _ = 0"

definition first_set_bit :: "u8 \<Rightarrow> nat" where
  "first_set_bit x = length (takeWhile (\<lambda>i. x AND push_bit (7 - i) 1 = 0) [0..<8])"

definition prefix_blen :: "prefix \<Rightarrow> nat" where
  "prefix_blen p = (if family p = FAM_INET then IPV4_MAX_BYTELEN
                    else if family p = FAM_INET6 then IPV6_MAX_BYTELEN else 0)"

definition prefix_common_bits :: "prefix \<Rightarrow> prefix \<Rightarrow> int" where
  "prefix_common_bits p1 p2 =
     (let len = prefix_blen p1
      in if family p1 \<noteq> family p2 \<or> len = 0 then -1
         else
           (let pos = first_difference (take len (u_prefix p1)) (take len (u_prefix p2))
            in if pos = len then int (pos * 8)
               else int (pos * 8 + first_set_bit (u_prefix p1 ! pos XOR u_prefix p2 ! pos))))"

definition prefix_family_str :: "prefix \<Rightarrow> string" where
  "prefix_family_str p = (if family p = FAM_INET then ''inet''
                          else if family p = FAM_INET6 then ''inet6'' else ''unspec'')"

subsection \<open>Masks\<close>

text \<open>Masks and IPv4 addresses are numbers in host byte order here.\<close>

definition masklen2ip :: "int \<Rightarrow> u32 option" where
  "masklen2ip masklen =
     (if 0 \<le> masklen \<and> masklen \<le> 32
      then Some (ucast (push_bit (32 - nat masklen) (0xffffffff :: u64))) else None)"

definition clz :: "u32 \<Rightarrow> nat" where
  "clz x = length (takeWhile (\<lambda>i. \<not> bit x (31 - i)) [0..<32])"

definition ip_masklen :: "u32 \<Rightarrow> nat" where
  "ip_masklen netmask = (let tmp = NOT netmask in if tmp \<noteq> 0 then clz tmp else 32)"

definition apply_mask_ipv4 :: "prefix \<Rightarrow> prefix option" where
  "apply_mask_ipv4 p = do {
     mask \<leftarrow> masklen2ip (int (prefixlen p));
     Some (p\<lparr>u_prefix := be32 (of_be32 (u_prefix p) AND mask) @ drop 4 (u_prefix p)\<rparr>) }"

definition prefix_ipv4_any :: "prefix \<Rightarrow> bool" where
  "prefix_ipv4_any p \<longleftrightarrow> of_be32 (u_prefix p) = 0 \<and> prefixlen p = 0"

text \<open>
  \<open>ip6_masklen\<close> reads the next byte before it tests the length, so a mask of 16 full
  bytes makes it read past the address.
\<close>

fun count_shifts :: "nat \<Rightarrow> u8 \<Rightarrow> nat" where
  "count_shifts 0 val = 0"
| "count_shifts (Suc n) val = (if val = 0 then 0 else Suc (count_shifts n (push_bit 1 val)))"

fun ip6_masklen_from :: "u8 list \<Rightarrow> nat \<Rightarrow> nat option" where
  "ip6_masklen_from [] len = None"
| "ip6_masklen_from (b # bs) len =
     (if b = 0xff \<and> len < IPV6_MAX_BITLEN then ip6_masklen_from bs (len + 8)
      else if len < IPV6_MAX_BITLEN then Some (len + count_shifts 8 b) else Some len)"

definition ip6_masklen :: "u8 list \<Rightarrow> nat option" where
  "ip6_masklen netmask = ip6_masklen_from netmask 0"

definition masklen2ip6 :: "int \<Rightarrow> u8 list option" where
  "masklen2ip6 masklen =
     (if 0 \<le> masklen \<and> masklen \<le> 128 then Some (maskbytes6 ! nat masklen) else None)"

definition apply_mask_ipv6 :: "prefix \<Rightarrow> prefix" where
  "apply_mask_ipv6 p =
     (let index = prefixlen p div 8
      in if index < 16 then
           p\<lparr>u_prefix := take index (u_prefix p)
                @ [u_prefix p ! index AND maskbit ! (prefixlen p mod 8)]
                @ replicate (15 - index) 0\<rparr>
         else p)"

definition apply_mask :: "prefix \<Rightarrow> prefix option" where
  "apply_mask p = (if family p = FAM_INET then apply_mask_ipv4 p
                   else if family p = FAM_INET6 then Some (apply_mask_ipv6 p) else Some p)"

definition prefix_new :: prefix where
  "prefix_new = \<lparr>family = 0, prefixlen = 0, u_prefix = replicate 16 0\<rparr>"

fun sockunion2hostprefix :: "sockunion \<Rightarrow> prefix" where
  "sockunion2hostprefix (AF_INET a) =
     prefix_new\<lparr>family := FAM_INET, prefixlen := IPV4_MAX_BITLEN, u_prefix := be32 a @ replicate 12 0\<rparr>"
| "sockunion2hostprefix (AF_INET6 a) =
     prefix_new\<lparr>family := FAM_INET6, prefixlen := IPV6_MAX_BITLEN, u_prefix := a\<rparr>"

text \<open>\<open>None\<close> stands for a socket address of neither family.\<close>

definition prefix2sockunion :: "prefix \<Rightarrow> sockunion option" where
  "prefix2sockunion p =
     (if family p = FAM_INET then Some (AF_INET (of_be32 (u_prefix p)))
      else if family p = FAM_INET6 then Some (AF_INET6 (u_prefix p)) else None)"

definition all_digit :: "string \<Rightarrow> bool" where
  "all_digit str = list_all is_digit str"

abbreviation (input) IN_CLASSC :: "u32 \<Rightarrow> bool" where "IN_CLASSC a \<equiv> a AND 0xe0000000 = 0xc0000000"
abbreviation (input) IN_CLASSB :: "u32 \<Rightarrow> bool" where "IN_CLASSB a \<equiv> a AND 0xc0000000 = 0x80000000"

definition apply_classful_mask_ipv4 :: "prefix \<Rightarrow> prefix option" where
  "apply_classful_mask_ipv4 p =
     (let destination = of_be32 (u_prefix p)
      in if prefixlen p = IPV4_MAX_BITLEN then Some p
         else if IN_CLASSC destination then apply_mask_ipv4 (p\<lparr>prefixlen := 24\<rparr>)
         else if IN_CLASSB destination then apply_mask_ipv4 (p\<lparr>prefixlen := 16\<rparr>)
         else apply_mask_ipv4 (p\<lparr>prefixlen := 8\<rparr>))"

definition ipv4_network_addr :: "u32 \<Rightarrow> int \<Rightarrow> u32 option" where
  "ipv4_network_addr hostaddr masklen = do { mask \<leftarrow> masklen2ip masklen; Some (hostaddr AND mask) }"

definition ipv4_broadcast_addr :: "u32 \<Rightarrow> int \<Rightarrow> u32 option" where
  "ipv4_broadcast_addr hostaddr masklen = do {
     mask \<leftarrow> masklen2ip masklen;
     Some (if masklen \<noteq> 31 then hostaddr OR NOT mask else hostaddr XOR NOT mask) }"

subsection \<open>Bits of an address\<close>

definition byte_bits :: "u8 \<Rightarrow> bool list" where
  "byte_bits b = map (\<lambda>i. bit b (7 - i)) [0..<8]"

definition addr_bits :: "u8 list \<Rightarrow> bool list" where
  "addr_bits addr = concat (map byte_bits addr)"

definition prefix_bits :: "prefix \<Rightarrow> bool list" where
  "prefix_bits p = take (prefixlen p) (addr_bits (u_prefix p))"

definition prefix_ok :: "prefix \<Rightarrow> bool" where
  "prefix_ok p \<longleftrightarrow> length (u_prefix p) = 16
     \<and> (family p = FAM_INET \<and> prefixlen p \<le> 32 \<or> family p = FAM_INET6 \<and> prefixlen p \<le> 128)"

lemma length_byte_bits [simp]: "length (byte_bits b) = 8"
  by (simp add: byte_bits_def)

lemma length_addr_bits [simp]: "length (addr_bits addr) = 8 * length addr"
  by (induction addr) (simp_all add: addr_bits_def)

lemma addr_bits_simps [simp]: "addr_bits [] = []" "addr_bits (b # bs) = byte_bits b @ addr_bits bs"
  by (simp_all add: addr_bits_def)

lemma addr_bits_append [simp]: "addr_bits (xs @ ys) = addr_bits xs @ addr_bits ys"
  by (simp add: addr_bits_def)

lemma nth_byte_bits [simp]: "i < 8 \<Longrightarrow> byte_bits b ! i = bit b (7 - i)"
  by (simp add: byte_bits_def)

lemma byte_bits_inj [simp]: "byte_bits a = byte_bits b \<longleftrightarrow> a = b"
proof
  assume eq: "byte_bits a = byte_bits b"
  show "a = b"
  proof (rule bit_word_eqI)
    fix n assume "n < LENGTH(8)"
    then have "n < 8" by simp
    then have "byte_bits a ! (7 - n) = byte_bits b ! (7 - n)" "7 - (7 - n) = n" using eq by simp_all
    then show "bit a n = bit b n" using \<open>n < 8\<close> by simp
  qed
qed simp

lemma addr_bits_inj: "length a = length b \<Longrightarrow> addr_bits a = addr_bits b \<longleftrightarrow> a = b"
  by (induction a b rule: list_induct2) auto

lemma nth_addr_bits: "i < 8 * length addr \<Longrightarrow> addr_bits addr ! i = bit (addr ! (i div 8)) (7 - i mod 8)"
proof (induction addr arbitrary: i)
  case (Cons b bs)
  show ?case
  proof (cases "i < 8")
    case False
    then have "i = 8 + (i - 8)" "i - 8 < 8 * length bs" using Cons.prems by simp_all
    then obtain j where j: "i = 8 + j" "j < 8 * length bs" by blast
    moreover have "(8 + j) div 8 = Suc (j div 8)" by simp
    ultimately show ?thesis using Cons.IH [of j] by (simp add: nth_append)
  qed (simp add: nth_append)
qed simp

lemma take_addr_bits: "k \<le> length addr \<Longrightarrow> take (8 * k) (addr_bits addr) = addr_bits (take k addr)"
proof -
  assume "k \<le> length addr"
  then have "take (8 * k) (addr_bits (take k addr @ drop k addr)) = addr_bits (take k addr)"
    unfolding addr_bits_append by simp
  then show ?thesis by simp
qed

lemma drop_addr_bits: "k \<le> length addr \<Longrightarrow> drop (8 * k) (addr_bits addr) = addr_bits (drop k addr)"
proof -
  assume "k \<le> length addr"
  then have "drop (8 * k) (addr_bits (take k addr @ drop k addr)) = addr_bits (drop k addr)"
    unfolding addr_bits_append by simp
  then show ?thesis by simp
qed

lemma take_split_addr_bits:
  assumes "k < length addr" "m \<le> 8"
  shows "take (8 * k + m) (addr_bits addr) = addr_bits (take k addr) @ take m (byte_bits (addr ! k))"
proof -
  have "addr = take k addr @ addr ! k # drop (Suc k) addr" using assms(1) by (simp add: id_take_nth_drop)
  then have "addr_bits addr = addr_bits (take k addr) @ byte_bits (addr ! k) @ addr_bits (drop (Suc k) addr)"
    by (metis addr_bits_append addr_bits_simps(2))
  moreover have "length (addr_bits (take k addr)) = 8 * k" using assms(1) by simp
  ultimately show ?thesis using assms(2) by simp
qed

lemma prefix_bit_eq: "len < 8 * length addr \<Longrightarrow> prefix_bit addr len = Some (addr_bits addr ! len)"
proof -
  assume "len < 8 * length addr"
  moreover have "(drop_bit n b AND 1 = 1) = bit b n" for b :: u8 and n
    by (simp add: and_one_eq bit_iff_odd_drop_bit mod_2_eq_odd)
  ultimately show ?thesis by (simp add: prefix_bit_def byte_at_def nth_addr_bits)
qed

lemma same_bytes_eq:
  "k \<le> length np \<Longrightarrow> k \<le> length pp \<Longrightarrow> same_bytes np pp k = Some (take k np = take k pp)"
  by (induction k) (auto simp: byte_at_def take_Suc_conv_app_nth)

lemma bit_maskbit: "m \<le> 8 \<Longrightarrow> n < 8 \<Longrightarrow> bit (maskbit ! m) n \<longleftrightarrow> 8 - m \<le> n"
proof -
  assume "m \<le> 8" "n < 8"
  then have "m \<in> {0, 1, 2, 3, 4, 5, 6, 7, 8}" "n \<in> {0, 1, 2, 3, 4, 5, 6, 7}" by auto
  then show ?thesis by (elim insertE emptyE) (simp_all add: maskbit_def bit_numeral_rec)
qed


lemma maskbit_differ:
  assumes "m \<le> 8"
  shows "maskbit ! m AND (a XOR b) = 0 \<longleftrightarrow> take m (byte_bits a) = take m (byte_bits b)"
proof
  assume z: "maskbit ! m AND (a XOR b) = 0"
  show "take m (byte_bits a) = take m (byte_bits b)"
  proof (rule nth_equalityI)
    fix i assume "i < length (take m (byte_bits a))"
    then have i: "i < m" "i < 8" using assms by simp_all
    have "\<not> bit (maskbit ! m AND (a XOR b)) (7 - i)" using z by simp
    then show "take m (byte_bits a) ! i = take m (byte_bits b) ! i"
      using i assms by (simp add: bit_and_iff bit_xor_iff bit_maskbit)
  qed simp
next
  assume eq: "take m (byte_bits a) = take m (byte_bits b)"
  show "maskbit ! m AND (a XOR b) = 0"
  proof (rule bit_word_eqI)
    fix n assume "n < LENGTH(8)"
    then have n: "n < 8" by simp
    show "bit (maskbit ! m AND (a XOR b)) n = bit (0 :: u8) n"
    proof (cases "8 - m \<le> n")
      case True
      then have "7 - n < m" "7 - (7 - n) = n" using n assms by arith+
      then have "take m (byte_bits a) ! (7 - n) = bit a n" "take m (byte_bits b) ! (7 - n) = bit b n"
        using n by simp_all
      then show ?thesis using eq by (simp add: bit_and_iff bit_xor_iff)
    next
      case False
      then show ?thesis using n assms by (simp add: bit_and_iff bit_maskbit)
    qed
  qed
qed

lemma same_network_eq:
  assumes "len \<le> 8 * length np" "len \<le> 8 * length pp"
  shows "same_network np pp len = Some (take len (addr_bits np) = take len (addr_bits pp))"
proof (cases "len mod 8 = 0")
  case True
  then obtain k where len: "len = 8 * k" by (metis mod_0_imp_dvd dvdE)
  have "addr_bits (take k np) = addr_bits (take k pp) \<longleftrightarrow> take k np = take k pp"
    using assms len by (intro addr_bits_inj) simp
  then show ?thesis using assms len by (simp add: same_network_def same_bytes_eq take_addr_bits)
next
  case False
  define k m where "k = len div 8" and "m = len mod 8"
  have len: "len = 8 * k + m" "0 < m" "m < 8" using False by (simp_all add: k_def m_def)
  have k: "k < length np" "k < length pp" using assms len by simp_all
  have "addr_bits (take k np) = addr_bits (take k pp) \<longleftrightarrow> take k np = take k pp"
    using k by (intro addr_bits_inj) simp
  moreover have "take len (addr_bits np) = take len (addr_bits pp) \<longleftrightarrow>
      addr_bits (take k np) = addr_bits (take k pp) \<and> take m (byte_bits (np ! k)) = take m (byte_bits (pp ! k))"
    unfolding len(1) using k len by (subst (1 2) take_split_addr_bits) simp_all
  moreover have "same_network np pp len = (if maskbit ! m AND (np ! k XOR pp ! k) \<noteq> 0 then Some False else same_bytes np pp k)"
    using len k by (simp add: same_network_def byte_at_def k_def [symmetric] m_def [symmetric] Let_def)
  ultimately show ?thesis using k len by (simp add: maskbit_differ same_bytes_eq)
qed

lemma prefix_ok_length: "prefix_ok p \<Longrightarrow> prefixlen p \<le> 8 * length (u_prefix p)"
  by (auto simp: prefix_ok_def)

lemma length_prefix_bits [simp]: "prefix_ok p \<Longrightarrow> length (prefix_bits p) = prefixlen p"
  by (simp add: prefix_bits_def prefix_ok_length min_absorb2)

text \<open>What \<open>prefix_match\<close> decides: the network of \<open>n\<close> contains that of \<open>p\<close>.\<close>

definition covers :: "prefix \<Rightarrow> prefix \<Rightarrow> bool" where
  "covers n p \<longleftrightarrow> prefixlen n \<le> prefixlen p \<and> take (prefixlen n) (prefix_bits p) = prefix_bits n"

lemma prefix_match_eq:
  assumes "prefix_ok n" "prefix_ok p"
  shows "prefix_match n p = Some (covers n p)"
proof (cases "prefixlen n \<le> prefixlen p")
  case True
  then have "same_network (u_prefix n) (u_prefix p) (prefixlen n)
      = Some (prefix_bits n = take (prefixlen n) (prefix_bits p))"
    using assms by (subst same_network_eq) (auto simp: prefix_ok_length prefix_bits_def prefix_ok_def min_absorb1)
  then show ?thesis using True by (auto simp: prefix_match_def covers_def)
qed (simp add: prefix_match_def covers_def)

lemma prefix_bit_prefix:
  assumes "prefix_ok p" "len < prefixlen p"
  shows "prefix_bit (u_prefix p) len = Some (prefix_bits p ! len)"
  using assms prefix_ok_length [OF assms(1)] by (simp add: prefix_bit_eq prefix_bits_def)


subsection \<open>Masking\<close>

lemma byte_bits_mask:
  assumes "m \<le> 8"
  shows "byte_bits (b AND maskbit ! m) = take m (byte_bits b) @ replicate (8 - m) False"
proof (rule nth_equalityI)
  fix i assume "i < length (byte_bits (b AND maskbit ! m))"
  then have "i < 8" by simp
  then show "byte_bits (b AND maskbit ! m) ! i = (take m (byte_bits b) @ replicate (8 - m) False) ! i"
    using assms by (auto simp: nth_append bit_and_iff bit_maskbit min_absorb2)
qed (use assms in simp)

lemma addr_bits_zero [simp]: "addr_bits (replicate n 0) = replicate (8 * n) False"
proof (induction n)
  case (Suc n)
  have "byte_bits 0 = replicate 8 False"
    by (rule nth_equalityI) simp_all
  then show ?case using Suc by (simp add: replicate_add [symmetric])
qed simp

lemma apply_mask_ipv6_bits:
  assumes "length (u_prefix p) = 16" "prefixlen p \<le> 128"
  shows "addr_bits (u_prefix (apply_mask_ipv6 p))
    = take (prefixlen p) (addr_bits (u_prefix p)) @ replicate (128 - prefixlen p) False"
proof (cases "prefixlen p div 8 < 16")
  case True
  define k m where "k = prefixlen p div 8" and "m = prefixlen p mod 8"
  have len: "prefixlen p = 8 * k + m" "m \<le> 8" "k < 16" using True by (simp_all add: k_def m_def)
  have "addr_bits (u_prefix (apply_mask_ipv6 p)) = addr_bits (take k (u_prefix p))
      @ (take m (byte_bits (u_prefix p ! k)) @ replicate (8 - m) False) @ replicate (8 * (15 - k)) False"
    unfolding apply_mask_ipv6_def k_def [symmetric] m_def [symmetric] using len by (simp add: byte_bits_mask)
  also have "\<dots> = (addr_bits (take k (u_prefix p)) @ take m (byte_bits (u_prefix p ! k)))
      @ replicate ((8 - m) + 8 * (15 - k)) False"
    by (simp add: replicate_add)
  also have "(8 - m) + 8 * (15 - k) = 128 - prefixlen p" using len by arith
  also have "addr_bits (take k (u_prefix p)) @ take m (byte_bits (u_prefix p ! k))
      = take (prefixlen p) (addr_bits (u_prefix p))"
    unfolding len(1) using len assms by (subst take_split_addr_bits) simp_all
  finally show ?thesis .
next
  case False
  then have "prefixlen p = 128" using assms by simp
  then show ?thesis using assms by (simp add: apply_mask_ipv6_def)
qed

lemma byte_bits_drop: "byte_bits (ucast (drop_bit n w)) = map (\<lambda>i. bit w (n + (7 - i))) [0..<8]"
  by (auto simp: byte_bits_def bit_ucast_iff bit_drop_bit_eq)

lemma addr_bits_be32: "addr_bits (be32 w) = map (\<lambda>i. bit w (31 - i)) [0..<32]"
  using byte_bits_drop [of 0 w] by (simp add: be32_def byte_bits_drop upt_rec)

lemma bit_masklen2ip:
  assumes "len \<le> 32" "n < 32"
  shows "bit (ucast (push_bit (32 - len) (0xffffffff :: u64)) :: u32) n \<longleftrightarrow> 32 - len \<le> n"
proof -
  have m: "(0xffffffff :: u64) = mask 32" by (simp add: mask_eq_exp_minus_1)
  show ?thesis unfolding m using assms by (auto simp: bit_ucast_iff bit_push_bit_iff bit_mask_iff)
qed

lemma apply_mask_ipv4_bits:
  assumes "length (u_prefix p) = 16" "prefixlen p \<le> 32"
  shows "\<exists>p'. apply_mask_ipv4 p = Some p' \<and> family p' = family p \<and> prefixlen p' = prefixlen p
    \<and> addr_bits (take 4 (u_prefix p'))
        = take (prefixlen p) (addr_bits (u_prefix p)) @ replicate (32 - prefixlen p) False"
proof -
  let ?m = "ucast (push_bit (32 - prefixlen p) (0xffffffff :: u64)) :: u32"
  let ?a = "of_be32 (u_prefix p)"
  have a: "addr_bits (be32 ?a) = take 32 (addr_bits (u_prefix p))"
    using be32_of_be32 [of "take 4 (u_prefix p)"] of_be_take(2) [of "u_prefix p"]
      take_addr_bits [of 4 "u_prefix p"] assms(1) by simp
  have "addr_bits (be32 (?a AND ?m)) = take (prefixlen p) (addr_bits (u_prefix p)) @ replicate (32 - prefixlen p) False"
  proof (rule nth_equalityI)
    fix i assume "i < length (addr_bits (be32 (?a AND ?m)))"
    then have i: "i < 32" by simp
    have "addr_bits (u_prefix p) ! i = bit ?a (31 - i)"
      using arg_cong [OF a, of "\<lambda>xs. xs ! i"] i by (simp add: addr_bits_be32)
    then show "addr_bits (be32 (?a AND ?m)) ! i
        = (take (prefixlen p) (addr_bits (u_prefix p)) @ replicate (32 - prefixlen p) False) ! i"
      using i assms
      by (auto simp: addr_bits_be32 bit_and_iff bit_masklen2ip nth_append min_absorb2)
  qed (use assms in simp)
  then show ?thesis using assms
    by (simp add: apply_mask_ipv4_def masklen2ip_def)
qed

lemma apply_mask_bits:
  assumes "prefix_ok p"
  shows "\<exists>p'. apply_mask p = Some p' \<and> family p' = family p \<and> prefixlen p' = prefixlen p
    \<and> length (u_prefix p') = 16
    \<and> addr_bits (take (prefix_blen p) (u_prefix p'))
        = prefix_bits p @ replicate (8 * prefix_blen p - prefixlen p) False"
proof (cases "family p = FAM_INET")
  case True
  then have *: "length (u_prefix p) = 16" "prefixlen p \<le> 32" using assms by (auto simp: prefix_ok_def)
  from apply_mask_ipv4_bits [OF this] obtain p' where
    "apply_mask_ipv4 p = Some p'" "family p' = family p" "prefixlen p' = prefixlen p"
    "addr_bits (take 4 (u_prefix p')) = take (prefixlen p) (addr_bits (u_prefix p)) @ replicate (32 - prefixlen p) False"
    by blast
  moreover from this(1) have "length (u_prefix p') = 16"
    using * by (auto simp: apply_mask_ipv4_def bind_eq_Some_conv)
  ultimately show ?thesis using True by (simp add: apply_mask_def prefix_blen_def prefix_bits_def)
next
  case False
  then have "family p = FAM_INET6" "length (u_prefix p) = 16" "prefixlen p \<le> 128"
    using assms by (auto simp: prefix_ok_def)
  moreover have "length (u_prefix (apply_mask_ipv6 p)) = 16" "family (apply_mask_ipv6 p) = family p"
      "prefixlen (apply_mask_ipv6 p) = prefixlen p"
    using \<open>length (u_prefix p) = 16\<close> by (auto simp: apply_mask_ipv6_def Let_def)
  ultimately show ?thesis
    using apply_mask_ipv6_bits [of p] by (simp add: apply_mask_def prefix_blen_def prefix_bits_def)
qed

text \<open>
  C17: Two prefixes are equal for \<open>prefix_cmp\<close>, which looks at the network parts only,
  exactly when masking them with \<open>apply_mask\<close> makes them the same for \<open>prefix_same\<close>,
  which compares whole addresses.
\<close>

theorem prefix_cmp_masked:
  assumes "prefix_ok p1" "prefix_ok p2"
  shows "prefix_cmp p1 p2 = Some 0 \<longleftrightarrow>
    (\<exists>q1 q2. apply_mask p1 = Some q1 \<and> apply_mask p2 = Some q2 \<and> prefix_same q1 q2)"
proof (cases "family p1 = family p2 \<and> prefixlen p1 = prefixlen p2")
  case True
  let ?b = "prefix_blen p1"
  have b: "prefix_blen p2 = ?b" using True by (simp add: prefix_blen_def)
  obtain q1 where q1: "apply_mask p1 = Some q1" "family q1 = family p1" "prefixlen q1 = prefixlen p1"
      "length (u_prefix q1) = 16"
      "addr_bits (take ?b (u_prefix q1)) = prefix_bits p1 @ replicate (8 * ?b - prefixlen p1) False"
    using apply_mask_bits [OF assms(1)] by blast
  obtain q2 where q2: "apply_mask p2 = Some q2" "family q2 = family p2" "prefixlen q2 = prefixlen p2"
      "length (u_prefix q2) = 16"
      "addr_bits (take ?b (u_prefix q2)) = prefix_bits p2 @ replicate (8 * ?b - prefixlen p2) False"
    using apply_mask_bits [OF assms(2)] unfolding b by blast
  have "same_network (u_prefix p1) (u_prefix p2) (prefixlen p1) = Some (prefix_bits p1 = prefix_bits p2)"
    using True prefix_ok_length [OF assms(1)] prefix_ok_length [OF assms(2)]
    by (simp add: same_network_eq prefix_bits_def)
  then have "prefix_cmp p1 p2 = Some 0 \<longleftrightarrow> prefix_bits p1 = prefix_bits p2"
    using True by (simp add: prefix_cmp_def)
  also have "\<dots> \<longleftrightarrow> take ?b (u_prefix q1) = take ?b (u_prefix q2)"
    using True q1(4,5) q2(4,5) addr_bits_inj [of "take ?b (u_prefix q1)" "take ?b (u_prefix q2)"] by simp
  also have "\<dots> \<longleftrightarrow> prefix_same q1 q2"
    using True q1 q2 assms by (auto simp: prefix_same_def prefix_blen_def prefix_ok_def)
  finally show ?thesis using q1(1) q2(1) by auto
next
  case False
  have "\<not> prefix_same q1 q2" if "apply_mask p1 = Some q1" "apply_mask p2 = Some q2" for q1 q2
    using apply_mask_bits [OF assms(1)] apply_mask_bits [OF assms(2)] that False by (auto simp: prefix_same_def)
  then show ?thesis using False by (auto simp: prefix_cmp_def)
qed


theorem prefix_cmp_masked_witness:
  "\<exists>q1 q2. apply_mask \<lparr>family = 2, prefixlen = 12, u_prefix = [10, 0x1f, 0, 1] @ replicate 12 0\<rparr> = Some q1
     \<and> apply_mask \<lparr>family = 2, prefixlen = 12, u_prefix = [10, 0x12, 3, 4] @ replicate 12 0\<rparr> = Some q2
     \<and> prefix_same q1 q2"
proof -
  let ?p = "\<lparr>family = 2, prefixlen = 12, u_prefix = [10, 0x1f, 0, 1] @ replicate 12 0\<rparr>"
  let ?q = "\<lparr>family = 2, prefixlen = 12, u_prefix = [10, 0x12, 3, 4] @ replicate 12 0\<rparr>"
  have "prefix_ok ?p" "prefix_ok ?q" by (simp_all add: prefix_ok_def)
  moreover have "prefix_cmp ?p ?q = Some 0"
    by (simp add: prefix_cmp_def same_network_def byte_at_def maskbit_def numeral_2_eq_2)
  ultimately show ?thesis using prefix_cmp_masked [of ?p ?q] by blast
qed


subsection \<open>Mask lengths\<close>

lemma length_takeWhile_less: "length (takeWhile (\<lambda>i. i < n) [0..<k]) = min n k"
proof (cases "n \<le> k")
  case True
  then have "[0..<k] = [0..<n] @ [n..<k]" by (metis le0 le_Suc_ex upt_add_eq_append)
  moreover have "takeWhile (\<lambda>i. i < n) ([0..<n] @ [n..<k]) = [0..<n] @ takeWhile (\<lambda>i. i < n) [n..<k]"
    by (rule takeWhile_append2) simp
  moreover have "takeWhile (\<lambda>i. i < n) [n..<k] = []" by (cases "n < k") (simp_all add: upt_conv_Cons)
  ultimately show ?thesis using True by simp
next
  case False
  then have "takeWhile (\<lambda>i. i < n) [0..<k] = [0..<k]" by (subst takeWhile_eq_all_conv) simp
  from arg_cong [OF this, of length] False show ?thesis by simp
qed

lemma clz_eq:
  assumes "n \<le> 32" "\<And>i. i < 32 \<Longrightarrow> bit x (31 - i) \<longleftrightarrow> n \<le> i"
  shows "clz x = n"
proof -
  have "takeWhile (\<lambda>i. \<not> bit x (31 - i)) [0..<32] = takeWhile (\<lambda>i. i < n) [0..<32]"
    by (rule takeWhile_cong) (use assms(2) in auto)
  then show ?thesis using assms(1) by (simp only: clz_def length_takeWhile_less)
qed

lemma ip_masklen_masklen2ip:
  assumes "n \<le> 32" "masklen2ip (int n) = Some m"
  shows "ip_masklen m = n"
proof -
  have m: "m = ucast (push_bit (32 - n) (0xffffffff :: u64))" using assms by (simp add: masklen2ip_def)
  have b: "bit (NOT m) (31 - i) \<longleftrightarrow> n \<le> i" if "i < 32" for i
    unfolding m bit_not_iff using that assms(1) by (auto simp: bit_masklen2ip)
  have "n = 32" if "NOT m = 0"
    using b [of n] that assms(1) by (cases "n < 32") simp_all
  then show ?thesis using clz_eq [OF assms(1) b] by (auto simp: ip_masklen_def Let_def)
qed

lemma count_shifts_maskbit: "m \<le> 8 \<Longrightarrow> count_shifts 8 (maskbit ! m) = m"
proof -
  assume "m \<le> 8"
  then have m: "m \<in> {0, 1, 2, 3, 4, 5, 6, 7, 8}" by auto
  have "count_shifts 8 b = count_shifts (Suc (Suc (Suc (Suc (Suc (Suc (Suc (Suc 0)))))))) b" for b
    by (simp add: numeral_eq_Suc)
  with m show ?thesis by (elim insertE emptyE) (simp_all only: maskbit_def nth_Cons_numeral nth_Cons_0 nth_Cons_Suc, simp_all)
qed

lemma ip6_masklen_full_bytes:
  "len + 8 * k \<le> 128 \<Longrightarrow>
   ip6_masklen_from (replicate k 0xff @ rest) len = ip6_masklen_from rest (len + 8 * k)"
  by (induction k arbitrary: len) (simp_all add: algebra_simps)

lemma maskbit_not_full: "m < 8 \<Longrightarrow> maskbit ! m \<noteq> 0xff"
  using bit_maskbit [of m 0] bit_maskbit [of 8 0] by (auto simp: maskbit_def)

lemma ip6_masklen_masklen2ip6:
  assumes "n < 128" "masklen2ip6 (int n) = Some m"
  shows "ip6_masklen m = Some n"
proof -
  let ?k = "n div 8" and ?m = "n mod 8"
  have m: "m = replicate ?k 0xff @ (if ?m = 0 then [] else [maskbit ! ?m]) @ replicate (16 - (n + 7) div 8) 0"
    using assms by (auto simp: masklen2ip6_def maskbytes6_def simp del: upt_Suc)
  have z: "\<exists>bs. (if ?m = 0 then [] else [maskbit ! ?m]) @ replicate (16 - (n + 7) div 8) 0 = maskbit ! ?m # bs"
  proof (cases "?m = 0")
    case True
    then have "(n + 7) div 8 < 16" using assms(1) by presburger
    moreover have "maskbit ! ?m = 0" using True by (simp add: maskbit_def)
    ultimately show ?thesis using True by (cases "16 - (n + 7) div 8") auto
  qed simp
  have n: "8 * ?k + ?m = n" "8 * ?k < 128" using assms(1) by simp_all
  show ?thesis
    using z maskbit_not_full [of ?m] n
    by (auto simp: ip6_masklen_def m ip6_masklen_full_bytes count_shifts_maskbit)
qed

text \<open>The mask of length 128 makes \<open>ip6_masklen\<close> read a byte after the address.\<close>

lemma ip6_masklen_overruns: "Option.bind (masklen2ip6 128) ip6_masklen = None"
  using ip6_masklen_full_bytes [of 0 16 "[]"]
  by (simp add: masklen2ip6_def maskbytes6_def ip6_masklen_def del: upt_Suc)

end
