(* ===== verification/Route_Table.thy ===== *)
theory Route_Table
  imports Prefix "HOL-Library.List_Lexorder"
begin

text \<open>
  The routing table, \<open>lib/table.c\<close> and \<open>lib/table.h\<close>: a path-compressed binary trie of
  nodes that point to their parent and their two children, with a lock count per node.
  The nodes live in a store from addresses to records, so that every operation is the
  sequence of reads and writes of the C code; reading an address that holds no node is
  \<open>None\<close>. The loops follow pointers and are partial functions: a loop that never ends
  would be \<open>None\<close> too. The lemmas below show that neither happens on a table built by
  the operations, and what the operations compute in terms of the bits of the prefixes.
  Addresses of new nodes are arguments. Lock counts and the node counter are natural
  numbers, since neither comes near the range of its C type.
\<close>

record 'a route_node =
  n_p :: prefix
  n_parent :: "nat option"
  l_left :: "nat option"
  l_right :: "nat option"
  n_lock :: nat
  n_info :: "'a option"

record 'a route_table =
  nodes :: "nat \<rightharpoonup> 'a route_node"
  t_top :: "nat option"
  t_count :: nat

definition link :: "'a route_node \<Rightarrow> bool \<Rightarrow> nat option" where
  "link nd b = (if b then l_right nd else l_left nd)"

definition with_link :: "bool \<Rightarrow> nat option \<Rightarrow> 'a route_node \<Rightarrow> 'a route_node" where
  "with_link b c nd = (if b then nd\<lparr>l_right := c\<rparr> else nd\<lparr>l_left := c\<rparr>)"

text \<open>An assignment through the pointer \<open>a\<close>.\<close>

definition modify :: "nat \<Rightarrow> ('a route_node \<Rightarrow> 'a route_node) \<Rightarrow> 'a route_table \<Rightarrow> 'a route_table option" where
  "modify a f t = do { nd \<leftarrow> nodes t a; Some (t\<lparr>nodes := (nodes t)(a \<mapsto> f nd)\<rparr>) }"

definition route_table_init :: "'a route_table" where
  "route_table_init = \<lparr>nodes = Map.empty, t_top = None, t_count = 0\<rparr>"

definition route_node_create :: "'a route_node" where
  "route_node_create = \<lparr>n_p = prefix_new, n_parent = None, l_left = None, l_right = None, n_lock = 0, n_info = None\<rparr>"

definition route_node_new :: "nat \<Rightarrow> 'a route_table \<Rightarrow> 'a route_table" where
  "route_node_new new t = t\<lparr>nodes := (nodes t)(new \<mapsto> route_node_create)\<rparr>"

definition route_node_set :: "nat \<Rightarrow> prefix \<Rightarrow> 'a route_table \<Rightarrow> 'a route_table option" where
  "route_node_set new p t = do {
     q \<leftarrow> prefix_copy prefix_new p;
     modify new (\<lambda>nd. nd\<lparr>n_p := q\<rparr>) (route_node_new new t) }"

definition route_node_free :: "nat \<Rightarrow> 'a route_table \<Rightarrow> 'a route_table" where
  "route_node_free a t = t\<lparr>nodes := (nodes t)(a := None)\<rparr>"

subsection \<open>The common prefix\<close>

text \<open>The loop over whole bytes; the last argument counts the bytes that are left.\<close>

fun common_bytes :: "u8 list \<Rightarrow> u8 list \<Rightarrow> nat \<Rightarrow> nat \<Rightarrow> nat option" where
  "common_bytes np pp i 0 = Some i"
| "common_bytes np pp i (Suc r) = do {
     a \<leftarrow> byte_at np i;
     b \<leftarrow> byte_at pp i;
     if a = b then common_bytes np pp (Suc i) r else Some i }"

text \<open>The loop over the bits of the next byte, with \<open>r\<close> bits of \<open>p\<close> left.\<close>

fun common_tail :: "u8 \<Rightarrow> u8 \<Rightarrow> nat \<Rightarrow> nat \<Rightarrow> nat" where
  "common_tail diff msk len 0 = len"
| "common_tail diff msk len (Suc r) =
     (if msk AND diff \<noteq> 0 then len else common_tail diff (drop_bit 1 msk) (Suc len) r)"

definition route_common :: "prefix \<Rightarrow> prefix \<Rightarrow> prefix \<Rightarrow> prefix option" where
  "route_common n p new = do {
     i \<leftarrow> common_bytes (u_prefix n) (u_prefix p) 0 (prefixlen p div 8);
     let newp = take i (u_prefix n) @ drop i (u_prefix new);
     let len = i * 8;
     if len \<noteq> prefixlen p then do {
       a \<leftarrow> byte_at (u_prefix n) i;
       b \<leftarrow> byte_at (u_prefix p) i;
       let len = common_tail (a XOR b) 0x80 len (prefixlen p - len);
       Some (new\<lparr>prefixlen := len, u_prefix := newp[i := a AND maskbit ! (len mod 8)]\<rparr>) }
     else Some (new\<lparr>prefixlen := len, u_prefix := newp\<rparr>) }"

definition set_link :: "nat \<Rightarrow> nat \<Rightarrow> 'a route_table \<Rightarrow> 'a route_table option" where
  "set_link node new t = do {
     nd \<leftarrow> nodes t node;
     nw \<leftarrow> nodes t new;
     b \<leftarrow> prefix_bit (u_prefix (n_p nw)) (prefixlen (n_p nd));
     t \<leftarrow> modify node (with_link b (Some new)) t;
     modify new (\<lambda>x. x\<lparr>n_parent := Some node\<rparr>) t }"

definition route_lock_node :: "nat \<Rightarrow> 'a route_table \<Rightarrow> 'a route_table option" where
  "route_lock_node a t = modify a (\<lambda>nd. nd\<lparr>n_lock := n_lock nd + 1\<rparr>) t"

subsection \<open>Deletion\<close>

definition unlink_node :: "nat \<Rightarrow> 'a route_node \<Rightarrow> 'a route_table \<Rightarrow> 'a route_table option" where
  "unlink_node a nd t =
     (let child = (if l_left nd \<noteq> None then l_left nd else l_right nd)
      in do {
        t \<leftarrow> (case child of None \<Rightarrow> Some t
              | Some c \<Rightarrow> modify c (\<lambda>x. x\<lparr>n_parent := n_parent nd\<rparr>) t);
        t \<leftarrow> (case n_parent nd of
                None \<Rightarrow> Some (t\<lparr>t_top := child\<rparr>)
              | Some q \<Rightarrow> modify q (\<lambda>x. with_link (l_left x \<noteq> Some a) child x) t);
        Some (route_node_free a (t\<lparr>t_count := t_count t - 1\<rparr>)) })"

partial_function (option) route_node_delete :: "nat \<Rightarrow> 'a route_table \<Rightarrow> 'a route_table option" where
  "route_node_delete a t = do {
     nd \<leftarrow> nodes t a;
     if n_lock nd \<noteq> 0 then None
     else if n_info nd \<noteq> None then None
     else if l_left nd \<noteq> None \<and> l_right nd \<noteq> None then Some t
     else do {
       t \<leftarrow> unlink_node a nd t;
       case n_parent nd of None \<Rightarrow> Some t
       | Some q \<Rightarrow> do {
           pn \<leftarrow> nodes t q;
           if n_lock pn = 0 then route_node_delete q t else Some t } } }"

definition route_unlock_node :: "nat \<Rightarrow> 'a route_table \<Rightarrow> 'a route_table option" where
  "route_unlock_node a t = do {
     nd \<leftarrow> nodes t a;
     if n_lock nd = 0 then None
     else do {
       t \<leftarrow> modify a (\<lambda>nd. nd\<lparr>n_lock := n_lock nd - 1\<rparr>) t;
       if n_lock nd - 1 = 0 then route_node_delete a t else Some t } }"

subsection \<open>Search\<close>

text \<open>The condition of the loops that walk down the tree.\<close>

definition walk_on :: "'a route_node \<Rightarrow> prefix \<Rightarrow> bool option" where
  "walk_on nd p = (if prefixlen (n_p nd) \<le> prefixlen p then prefix_match (n_p nd) p else Some False)"

partial_function (option) match_loop ::
    "'a route_table \<Rightarrow> prefix \<Rightarrow> nat option \<Rightarrow> nat option \<Rightarrow> nat option option" where
  "match_loop t p node matched = (case node of None \<Rightarrow> Some matched
     | Some a \<Rightarrow> do {
         nd \<leftarrow> nodes t a;
         go \<leftarrow> walk_on nd p;
         if \<not> go then Some matched
         else
           (let matched = (if n_info nd \<noteq> None then Some a else matched)
            in if prefixlen (n_p nd) = prefixlen p then Some matched
               else do {
                 b \<leftarrow> prefix_bit (u_prefix p) (prefixlen (n_p nd));
                 match_loop t p (link nd b) matched }) })"

definition route_node_match :: "'a route_table \<Rightarrow> prefix \<Rightarrow> (nat option \<times> 'a route_table) option" where
  "route_node_match t p = do {
     matched \<leftarrow> match_loop t p (t_top t) None;
     case matched of None \<Rightarrow> Some (None, t)
     | Some a \<Rightarrow> do { t \<leftarrow> route_lock_node a t; Some (Some a, t) } }"

definition route_node_match_ipv4 :: "'a route_table \<Rightarrow> u32 \<Rightarrow> (nat option \<times> 'a route_table) option" where
  "route_node_match_ipv4 t addr =
     route_node_match t \<lparr>family = FAM_INET, prefixlen = 32, u_prefix = be32 addr @ replicate 12 0\<rparr>"

definition route_node_match_ipv6 :: "'a route_table \<Rightarrow> u8 list \<Rightarrow> (nat option \<times> 'a route_table) option" where
  "route_node_match_ipv6 t addr =
     route_node_match t \<lparr>family = FAM_INET6, prefixlen = 128, u_prefix = addr\<rparr>"

partial_function (option) lookup_loop ::
    "'a route_table \<Rightarrow> prefix \<Rightarrow> nat option \<Rightarrow> nat option option" where
  "lookup_loop t p node = (case node of None \<Rightarrow> Some None
     | Some a \<Rightarrow> do {
         nd \<leftarrow> nodes t a;
         go \<leftarrow> walk_on nd p;
         if \<not> go then Some None
         else if prefixlen (n_p nd) = prefixlen p then Some (if n_info nd \<noteq> None then Some a else None)
         else do {
           b \<leftarrow> prefix_bit (u_prefix p) (prefixlen (n_p nd));
           lookup_loop t p (link nd b) } })"

definition route_node_lookup :: "'a route_table \<Rightarrow> prefix \<Rightarrow> (nat option \<times> 'a route_table) option" where
  "route_node_lookup t p = do {
     found \<leftarrow> lookup_loop t p (t_top t);
     case found of None \<Rightarrow> Some (None, t)
     | Some a \<Rightarrow> do { t \<leftarrow> route_lock_node a t; Some (Some a, t) } }"

text \<open>
  The loop of \<open>route_node_get\<close> ends at the node with the prefix, or with the last node
  that contains it and the pointer at which the walk stopped.
\<close>

partial_function (option) get_loop ::
    "'a route_table \<Rightarrow> prefix \<Rightarrow> nat option \<Rightarrow> nat option \<Rightarrow> (nat + nat option \<times> nat option) option" where
  "get_loop t p node mat = (case node of None \<Rightarrow> Some (Inr (mat, None))
     | Some a \<Rightarrow> do {
         nd \<leftarrow> nodes t a;
         go \<leftarrow> walk_on nd p;
         if \<not> go then Some (Inr (mat, Some a))
         else if prefixlen (n_p nd) = prefixlen p then Some (Inl a)
         else do {
           b \<leftarrow> prefix_bit (u_prefix p) (prefixlen (n_p nd));
           get_loop t p (link nd b) (Some a) } })"

text \<open>Where the new node goes: below \<open>match\<close>, or at the top.\<close>

definition attach :: "nat option \<Rightarrow> nat \<Rightarrow> 'a route_table \<Rightarrow> 'a route_table option" where
  "attach mat new t = (case mat of Some m \<Rightarrow> set_link m new t | None \<Rightarrow> Some (t\<lparr>t_top := Some new\<rparr>))"

definition insert_leaf :: "nat option \<Rightarrow> nat \<Rightarrow> prefix \<Rightarrow> 'a route_table \<Rightarrow> 'a route_table option" where
  "insert_leaf mat new p t = do { t \<leftarrow> route_node_set new p t; attach mat new t }"

definition insert_branch ::
    "nat option \<Rightarrow> nat \<Rightarrow> nat \<Rightarrow> prefix \<Rightarrow> 'a route_table \<Rightarrow> (prefix \<times> 'a route_table) option" where
  "insert_branch mat node new p t = do {
     nd \<leftarrow> nodes t node;
     let t = route_node_new new t;
     q \<leftarrow> route_common (n_p nd) p prefix_new;
     let q = q\<lparr>family := family p\<rparr>;
     t \<leftarrow> modify new (\<lambda>x. x\<lparr>n_p := q\<rparr>) t;
     t \<leftarrow> set_link new node t;
     t \<leftarrow> attach mat new t;
     Some (q, t) }"

definition route_node_get ::
    "nat \<Rightarrow> nat \<Rightarrow> 'a route_table \<Rightarrow> prefix \<Rightarrow> (nat \<times> 'a route_table) option" where
  "route_node_get new1 new2 t p = do {
     r \<leftarrow> get_loop t p (t_top t) None;
     case r of
       Inl a \<Rightarrow> do { t \<leftarrow> route_lock_node a t; Some (a, t) }
     | Inr (mat, node) \<Rightarrow> do {
         (new, t) \<leftarrow> (case node of
             None \<Rightarrow> do { t \<leftarrow> insert_leaf mat new1 p t; Some (new1, t) }
           | Some b \<Rightarrow> do {
               (q, t) \<leftarrow> insert_branch mat b new1 p t;
               if prefixlen q \<noteq> prefixlen p then do {
                 t \<leftarrow> insert_leaf (Some new1) new2 p t;
                 Some (new2, t\<lparr>t_count := t_count t + 1\<rparr>) }
               else Some (new1, t) });
         let t = t\<lparr>t_count := t_count t + 1\<rparr>;
         t \<leftarrow> route_lock_node new t;
         Some (new, t) } }"

subsection \<open>Iteration\<close>

definition route_top :: "'a route_table \<Rightarrow> (nat option \<times> 'a route_table) option" where
  "route_top t = (case t_top t of None \<Rightarrow> Some (None, t)
     | Some a \<Rightarrow> do { t \<leftarrow> route_lock_node a t; Some (Some a, t) })"

partial_function (option) route_get_subtree_next :: "'a route_table \<Rightarrow> nat \<Rightarrow> nat option option" where
  "route_get_subtree_next t a = do {
     nd \<leftarrow> nodes t a;
     case n_parent nd of None \<Rightarrow> Some None
     | Some q \<Rightarrow> do {
         pn \<leftarrow> nodes t q;
         if l_left pn = Some a \<and> l_right pn \<noteq> None then Some (l_right pn)
         else route_get_subtree_next t q } }"

text \<open>The next node: a child if there is one, or the first right sibling on the way up.\<close>

definition next_node :: "'a route_table \<Rightarrow> nat \<Rightarrow> nat option option" where
  "next_node t a = do {
     nd \<leftarrow> nodes t a;
     if l_left nd \<noteq> None then Some (l_left nd)
     else if l_right nd \<noteq> None then Some (l_right nd)
     else route_get_subtree_next t a }"

definition route_next :: "'a route_table \<Rightarrow> nat \<Rightarrow> (nat option \<times> 'a route_table) option" where
  "route_next t a = do {
     nxt \<leftarrow> next_node t a;
     t \<leftarrow> (case nxt of None \<Rightarrow> Some t | Some c \<Rightarrow> route_lock_node c t);
     t \<leftarrow> route_unlock_node a t;
     Some (nxt, t) }"

partial_function (option) subtree_next_until :: "'a route_table \<Rightarrow> nat \<Rightarrow> nat \<Rightarrow> nat option option" where
  "subtree_next_until t limit a = do {
     nd \<leftarrow> nodes t a;
     case n_parent nd of None \<Rightarrow> Some None
     | Some q \<Rightarrow>
         if a = limit then Some None
         else do {
           pn \<leftarrow> nodes t q;
           if l_left pn = Some a \<and> l_right pn \<noteq> None then Some (l_right pn)
           else subtree_next_until t limit q } }"

definition route_next_until :: "'a route_table \<Rightarrow> nat \<Rightarrow> nat \<Rightarrow> (nat option \<times> 'a route_table) option" where
  "route_next_until t a limit = do {
     nd \<leftarrow> nodes t a;
     nxt \<leftarrow> (if l_left nd \<noteq> None then Some (l_left nd)
            else if l_right nd \<noteq> None then Some (l_right nd)
            else subtree_next_until t limit a);
     t \<leftarrow> (case nxt of None \<Rightarrow> Some t | Some c \<Rightarrow> route_lock_node c t);
     t \<leftarrow> route_unlock_node a t;
     Some (nxt, t) }"

definition route_table_count :: "'a route_table \<Rightarrow> nat" where
  "route_table_count t = t_count t"

definition route_table_prefix_iter_cmp :: "prefix \<Rightarrow> prefix \<Rightarrow> int option" where
  "route_table_prefix_iter_cmp p1 p2 = do {
     m \<leftarrow> (if prefixlen p1 \<le> prefixlen p2 then prefix_match p1 p2 else prefix_match p2 p1);
     if m then Some (if prefixlen p1 \<le> prefixlen p2 then (if prefixlen p1 = prefixlen p2 then 0 else -1) else 1)
     else do {
       common \<leftarrow> route_common p1 p2 prefix_new;
       if \<not> (prefixlen common < prefixlen p1) then None
       else if \<not> (prefixlen common < prefixlen p2) then None
       else do {
         b1 \<leftarrow> prefix_bit (u_prefix p1) (prefixlen common);
         b2 \<leftarrow> prefix_bit (u_prefix p2) (prefixlen common);
         if b1 then (if b2 then None else Some 1)
         else (if b2 then Some (-1) else None) } } }"


partial_function (option) get_next_loop ::
    "prefix \<Rightarrow> nat option \<Rightarrow> 'a route_table \<Rightarrow> (nat option \<times> 'a route_table) option" where
  "get_next_loop p node t = (case node of None \<Rightarrow> Some (None, t)
     | Some a \<Rightarrow> do {
         nd \<leftarrow> nodes t a;
         m \<leftarrow> (if prefixlen (n_p nd) < prefixlen p then prefix_match (n_p nd) p else prefix_match p (n_p nd));
         if m then
           (if prefixlen (n_p nd) = prefixlen p then do {
              t \<leftarrow> route_lock_node a t;
              (nxt, t) \<leftarrow> route_next t a;
              case nxt of None \<Rightarrow> Some (None, t)
              | Some c \<Rightarrow> do { t \<leftarrow> route_unlock_node c t; Some (Some c, t) } }
            else if prefixlen p < prefixlen (n_p nd) then Some (Some a, t)
            else do {
              b \<leftarrow> prefix_bit (u_prefix p) (prefixlen (n_p nd));
              case link nd b of
                Some c \<Rightarrow> get_next_loop p (Some c) t
              | None \<Rightarrow>
                  if l_right nd \<noteq> None then Some (l_right nd, t)
                  else do { r \<leftarrow> route_get_subtree_next t a; Some (r, t) } })
         else do {
           c \<leftarrow> route_table_prefix_iter_cmp (n_p nd) p;
           if 0 < c then Some (Some a, t)
           else if \<not> c < 0 then None
           else do { r \<leftarrow> route_get_subtree_next t a; Some (r, t) } } })"

definition route_table_get_next :: "'a route_table \<Rightarrow> prefix \<Rightarrow> (nat option \<times> 'a route_table) option" where
  "route_table_get_next t p = do {
     (node, t) \<leftarrow> get_next_loop p (t_top t) t;
     case node of None \<Rightarrow> Some (None, t)
     | Some a \<Rightarrow> do {
         nd \<leftarrow> nodes t a;
         c \<leftarrow> route_table_prefix_iter_cmp (n_p nd) p;
         if \<not> 0 < c then None
         else do { t \<leftarrow> route_lock_node a t; Some (Some a, t) } } }"

datatype route_table_iter_state =
  RT_ITER_STATE_INIT | RT_ITER_STATE_ITERATING | RT_ITER_STATE_PAUSED | RT_ITER_STATE_DONE

record route_table_iter =
  it_state :: route_table_iter_state
  it_current :: "nat option"
  it_pause_prefix :: prefix

definition route_table_iter_init :: route_table_iter where
  "route_table_iter_init = \<lparr>it_state = RT_ITER_STATE_INIT, it_current = None, it_pause_prefix = prefix_new\<rparr>"

definition route_table_iter_next ::
    "route_table_iter \<Rightarrow> 'a route_table \<Rightarrow> (nat option \<times> route_table_iter \<times> 'a route_table) option" where
  "route_table_iter_next it t =
     (if it_state it = RT_ITER_STATE_DONE then Some (None, it, t)
      else do {
        (node, t) \<leftarrow> (case it_state it of
            RT_ITER_STATE_INIT \<Rightarrow> route_top t
          | RT_ITER_STATE_ITERATING \<Rightarrow> do { a \<leftarrow> it_current it; route_next t a }
          | RT_ITER_STATE_PAUSED \<Rightarrow> route_table_get_next t (it_pause_prefix it)
          | RT_ITER_STATE_DONE \<Rightarrow> None);
        let it = it\<lparr>it_current := node,
                   it_state := (if node \<noteq> None then RT_ITER_STATE_ITERATING else RT_ITER_STATE_DONE)\<rparr>;
        Some (node, it, t) })"

definition route_table_iter_pause ::
    "route_table_iter \<Rightarrow> 'a route_table \<Rightarrow> (route_table_iter \<times> 'a route_table) option" where
  "route_table_iter_pause it t =
     (case it_state it of
        RT_ITER_STATE_ITERATING \<Rightarrow> do {
          a \<leftarrow> it_current it;
          nd \<leftarrow> nodes t a;
          q \<leftarrow> prefix_copy (it_pause_prefix it) (n_p nd);
          t \<leftarrow> route_unlock_node a t;
          Some (it\<lparr>it_pause_prefix := q, it_current := None, it_state := RT_ITER_STATE_PAUSED\<rparr>, t) }
      | _ \<Rightarrow> Some (it, t))"

definition route_table_iter_cleanup ::
    "route_table_iter \<Rightarrow> 'a route_table \<Rightarrow> (route_table_iter \<times> 'a route_table) option" where
  "route_table_iter_cleanup it t = do {
     (it, t) \<leftarrow> (if it_state it = RT_ITER_STATE_ITERATING then do {
                   a \<leftarrow> it_current it;
                   t \<leftarrow> route_unlock_node a t;
                   Some (it\<lparr>it_current := None\<rparr>, t) }
                 else Some (it, t));
     if it_current it \<noteq> None then None
     else Some (it\<lparr>it_state := RT_ITER_STATE_DONE\<rparr>, t) }"

subsection \<open>Releasing a table\<close>

partial_function (option) free_loop :: "nat \<Rightarrow> 'a route_table \<Rightarrow> 'a route_table option" where
  "free_loop a t = do {
     nd \<leftarrow> nodes t a;
     case l_left nd of Some c \<Rightarrow> free_loop c t
     | None \<Rightarrow> (case l_right nd of Some c \<Rightarrow> free_loop c t
       | None \<Rightarrow>
           (let t = route_node_free a (t\<lparr>t_count := t_count t - 1\<rparr>)
            in case n_parent nd of None \<Rightarrow> Some t
               | Some q \<Rightarrow> do {
                   t \<leftarrow> modify q (\<lambda>x. with_link (l_left x \<noteq> Some a) None x) t;
                   free_loop q t })) }"

definition route_table_free :: "'a route_table \<Rightarrow> 'a route_table option" where
  "route_table_free t = do {
     t \<leftarrow> (case t_top t of None \<Rightarrow> Some t | Some a \<Rightarrow> free_loop a t);
     if t_count t \<noteq> 0 then None else Some t }"

subsection \<open>Keys\<close>

abbreviation key :: "'a route_node \<Rightarrow> bool list" where
  "key nd \<equiv> prefix_bits (n_p nd)"

abbreviation klen :: "'a route_node \<Rightarrow> nat" where
  "klen nd \<equiv> prefixlen (n_p nd)"

lemma covers_refl [simp]: "prefix_ok p \<Longrightarrow> covers p p"
  by (simp add: covers_def)

lemma covers_len: "covers p q \<Longrightarrow> prefixlen p \<le> prefixlen q"
  by (simp add: covers_def)

lemma covers_nth: "prefix_ok p \<Longrightarrow> covers p q \<Longrightarrow> i < prefixlen p \<Longrightarrow> prefix_bits q ! i = prefix_bits p ! i"
  unfolding covers_def by (metis nth_take)

lemma covers_trans: "covers p q \<Longrightarrow> covers q r \<Longrightarrow> covers p r"
  by (auto simp: covers_def) (metis min.absorb1 take_take)

lemma covers_linear: "covers p r \<Longrightarrow> covers q r \<Longrightarrow> prefixlen p \<le> prefixlen q \<Longrightarrow> covers p q"
  by (auto simp: covers_def) (metis min.absorb1 take_take)

lemma covers_antisym:
  "prefix_ok p \<Longrightarrow> prefix_ok q \<Longrightarrow> covers p q \<Longrightarrow> prefixlen q \<le> prefixlen p \<Longrightarrow> prefix_bits p = prefix_bits q"
  by (auto simp: covers_def)

lemma covers_key_eq: "prefix_bits q = prefix_bits r \<Longrightarrow> prefixlen q = prefixlen r \<Longrightarrow> covers p q = covers p r"
  by (simp add: covers_def)

lemma prefix_bits_eq_len: "prefix_ok p \<Longrightarrow> prefix_ok q \<Longrightarrow> prefix_bits p = prefix_bits q \<Longrightarrow> prefixlen p = prefixlen q"
  by (metis length_prefix_bits)

lemma covers_eqI: "prefix_ok p \<Longrightarrow> prefix_ok q \<Longrightarrow> prefix_bits p = prefix_bits q \<Longrightarrow> covers p q"
  using prefix_bits_eq_len [of p q] by (simp add: covers_def)

lemma covers_iff:
  assumes "prefix_ok p" "prefix_ok q"
  shows "covers p q \<longleftrightarrow> prefixlen p \<le> prefixlen q \<and> (\<forall>i < prefixlen p. prefix_bits p ! i = prefix_bits q ! i)"
proof -
  have "take (prefixlen p) (prefix_bits q) = prefix_bits p \<longleftrightarrow> (\<forall>i < prefixlen p. prefix_bits p ! i = prefix_bits q ! i)"
    if "prefixlen p \<le> prefixlen q"
    using that assms by (auto simp: list_eq_iff_nth_eq min_absorb2)
  then show ?thesis by (auto simp: covers_def)
qed


subsection \<open>What the common prefix is\<close>

lemma common_bytes_spec:
  assumes "i + r \<le> length np" "i + r \<le> length pp"
  shows "\<exists>j. common_bytes np pp i r = Some j \<and> i \<le> j \<and> j \<le> i + r
    \<and> (\<forall>k. i \<le> k \<and> k < j \<longrightarrow> np ! k = pp ! k) \<and> (j < i + r \<longrightarrow> np ! j \<noteq> pp ! j)"
  using assms
proof (induction r arbitrary: i)
  case (Suc r)
  show ?case
  proof (cases "np ! i = pp ! i")
    case True
    have "Suc i + r \<le> length np" "Suc i + r \<le> length pp" using Suc.prems by simp_all
    from Suc.IH [OF this] obtain j where j: "common_bytes np pp (Suc i) r = Some j" "Suc i \<le> j" "j \<le> Suc i + r"
      "\<forall>k. Suc i \<le> k \<and> k < j \<longrightarrow> np ! k = pp ! k" "j < Suc i + r \<longrightarrow> np ! j \<noteq> pp ! j" by blast
    moreover have "np ! k = pp ! k" if "i \<le> k" "k < j" for k
      using that True j(4) by (cases "k = i") auto
    ultimately show ?thesis using True Suc.prems by (auto simp: byte_at_def)
  qed (use Suc.prems in \<open>auto simp: byte_at_def\<close>)
qed auto

lemma top_bit_and:
  assumes "s < 8"
  shows "drop_bit s 0x80 AND d \<noteq> 0 \<longleftrightarrow> bit (d :: u8) (7 - s)"
proof -
  have "s \<in> {0, 1, 2, 3, 4, 5, 6, 7}" using assms by auto
  then have "drop_bit s (0x80 :: u8) = 2 ^ (7 - s)" by (elim insertE emptyE) simp_all
  then show ?thesis using and_exp_eq_0_iff_not_bit [of d "7 - s"] by (simp add: and.commute)
qed

lemma common_tail_spec:
  assumes "s + r \<le> 8 \<or> (\<exists>k. s \<le> k \<and> k < 8 \<and> bit diff (7 - k))"
  shows "\<exists>d. common_tail diff (drop_bit s 0x80) len r = len + d \<and> d \<le> r \<and> s + d \<le> 8
    \<and> (\<forall>k < d. \<not> bit diff (7 - (s + k))) \<and> (d < r \<longrightarrow> s + d < 8 \<and> bit diff (7 - (s + d)))"
  using assms
proof (induction r arbitrary: s len)
  case (Suc r)
  then have s: "s < 8" by auto
  show ?case
  proof (cases "bit diff (7 - s)")
    case True
    then show ?thesis using top_bit_and [OF s, of diff] s by (intro exI [of _ 0]) simp
  next
    case False
    have "Suc s + r \<le> 8 \<or> (\<exists>k. Suc s \<le> k \<and> k < 8 \<and> bit diff (7 - k))"
      using Suc.prems False by (metis Suc_leI add_Suc add_Suc_right le_neq_implies_less)
    from Suc.IH [OF this, of "Suc len"] obtain d where
      d: "common_tail diff (drop_bit (Suc s) 0x80) (Suc len) r = Suc len + d" "d \<le> r" "Suc s + d \<le> 8"
        "\<forall>k < d. \<not> bit diff (7 - (Suc s + k))" "d < r \<longrightarrow> Suc s + d < 8 \<and> bit diff (7 - (Suc s + d))"
      by blast
    have "\<not> bit diff (7 - (s + k))" if "k < Suc d" for k
      using that d(4) False by (cases k) auto
    moreover have "common_tail diff (drop_bit s 0x80) len (Suc r) = len + Suc d"
      using top_bit_and [OF s, of diff] False d(1) by (simp add: drop_bit_drop_bit)
    ultimately show ?thesis using d(2,3,5) by (intro exI [of _ "Suc d"]) auto
  qed
qed auto


lemma route_common_spec:
  assumes n: "prefix_ok n" and p: "prefix_ok p" and new: "length (u_prefix new) = 16"
  shows "\<exists>r. route_common n p new = Some r \<and> family r = family new \<and> length (u_prefix r) = 16
    \<and> prefixlen r \<le> prefixlen p
    \<and> prefix_bits r = take (prefixlen r) (addr_bits (u_prefix p))
    \<and> take (prefixlen r) (addr_bits (u_prefix n)) = take (prefixlen r) (addr_bits (u_prefix p))
    \<and> (prefixlen r < prefixlen p \<longrightarrow> addr_bits (u_prefix n) ! prefixlen r \<noteq> addr_bits (u_prefix p) ! prefixlen r)"
proof -
  let ?np = "u_prefix n" and ?pp = "u_prefix p" and ?L = "prefixlen p"
  have len: "length ?np = 16" "length ?pp = 16" "?L \<le> 128" using n p by (auto simp: prefix_ok_def)
  have "0 + ?L div 8 \<le> length ?np" "0 + ?L div 8 \<le> length ?pp" using len by simp_all
  from common_bytes_spec [OF this] obtain i where
    i: "common_bytes ?np ?pp 0 (?L div 8) = Some i" "i \<le> ?L div 8"
      "\<forall>k < i. ?np ! k = ?pp ! k" "i < ?L div 8 \<longrightarrow> ?np ! i \<noteq> ?pp ! i" by auto
  have tk: "take i ?np = take i ?pp" using i(2,3) len by (intro nth_take_lemma) auto
  show ?thesis
  proof (cases "i * 8 = ?L")
    case True
    then have "take ?L (addr_bits (take i ?np @ drop i (u_prefix new))) = take ?L (addr_bits ?pp)"
      "take ?L (addr_bits ?np) = take ?L (addr_bits ?pp)"
      using i(2) len tk take_addr_bits [of i ?pp] take_addr_bits [of i ?np] by (simp_all add: mult.commute)
    then show ?thesis using i(1) True new len i(2) by (simp add: route_common_def prefix_bits_def)
  next
    case False
    have il: "i < 16" "8 * i \<le> ?L" using False i(2) len by auto
    let ?d = "?np ! i XOR ?pp ! i"
    have pre: "0 + (?L - 8 * i) \<le> 8 \<or> (\<exists>k. 0 \<le> k \<and> k < 8 \<and> bit ?d (7 - k))"
    proof (cases "i < ?L div 8")
      case True
      then have "?np ! i \<noteq> ?pp ! i" using i(4) by simp
      then have "byte_bits (?np ! i) \<noteq> byte_bits (?pp ! i)" by simp
      then obtain k where "k < 8" "bit (?np ! i) (7 - k) \<noteq> bit (?pp ! i) (7 - k)"
        by (auto simp: list_eq_iff_nth_eq simp del: byte_bits_inj)
      then show ?thesis by (auto simp: bit_xor_iff)
    next
      case False
      then have "i = ?L div 8" using i(2) by simp
      then have "?L - 8 * i \<le> 8" by arith
      then show ?thesis by simp
    qed
    from common_tail_spec [OF pre, of "8 * i"] obtain d where
      d: "common_tail ?d 0x80 (8 * i) (?L - 8 * i) = 8 * i + d" "d \<le> ?L - 8 * i" "d \<le> 8"
        "\<forall>k < d. \<not> bit ?d (7 - k)" "d < ?L - 8 * i \<longrightarrow> d < 8 \<and> bit ?d (7 - d)" by auto
    have bits: "take d (byte_bits (?np ! i)) = take d (byte_bits (?pp ! i))"
      using d(3,4) by (intro nth_take_lemma) (auto simp: bit_xor_iff)
    have d8: "d < 8"
    proof (rule ccontr)
      assume "\<not> d < 8"
      then have "d = 8" using d(3) by simp
      then have "?np ! i = ?pp ! i" using bits by simp
      moreover have "i < ?L div 8" using d(2) \<open>d = 8\<close> by simp
      ultimately show False using i(4) by simp
    qed
    let ?newp = "(take i ?np @ drop i (u_prefix new))[i := ?np ! i AND maskbit ! d]"
    have "length ?newp = 16" "take i ?newp = take i ?pp" "?newp ! i = ?np ! i AND maskbit ! d"
      using il new len tk by simp_all
    moreover have "take d (byte_bits (?np ! i AND maskbit ! d)) = take d (byte_bits (?np ! i))"
      using d8 by (simp add: byte_bits_mask)
    ultimately have new_bits: "take (8 * i + d) (addr_bits ?newp) = take (8 * i + d) (addr_bits ?pp)"
      using il len d8 bits by (simp add: take_split_addr_bits)
    have n_bits: "take (8 * i + d) (addr_bits ?np) = take (8 * i + d) (addr_bits ?pp)"
      using il len d8 bits tk by (simp add: take_split_addr_bits)
    have diff: "addr_bits ?np ! (8 * i + d) \<noteq> addr_bits ?pp ! (8 * i + d)" if "8 * i + d < ?L"
      using that d(5) len il by (simp add: nth_addr_bits bit_xor_iff)
    have "route_common n p new = Some (new\<lparr>prefixlen := 8 * i + d, u_prefix := ?newp\<rparr>)"
      using i(1) False il len d(1) d8 by (simp add: route_common_def byte_at_def mult.commute)
    then show ?thesis using new_bits n_bits diff d(2) il new len by (simp add: prefix_bits_def)
  qed
qed


subsection \<open>Shape of the tree\<close>

text \<open>
  The prefix of a child extends that of its parent, and its next bit says on which side
  it is. \<open>fam\<close> is the address family of the table.
\<close>

definition child_ok :: "'a route_node \<Rightarrow> bool \<Rightarrow> 'a route_node \<Rightarrow> bool" where
  "child_ok nd b nc \<longleftrightarrow> covers (n_p nd) (n_p nc) \<and> klen nd < klen nc \<and> key nc ! klen nd = b"

definition trie_shape :: "nat \<Rightarrow> 'a route_table \<Rightarrow> bool" where
  "trie_shape fam t \<longleftrightarrow>
     finite (dom (nodes t))
     \<and> (\<forall>a nd. nodes t a = Some nd \<longrightarrow> prefix_ok (n_p nd) \<and> family (n_p nd) = fam)
     \<and> (\<forall>a. t_top t = Some a \<longrightarrow> (\<exists>nd. nodes t a = Some nd \<and> n_parent nd = None))
     \<and> (\<forall>a nd. nodes t a = Some nd \<and> n_parent nd = None \<longrightarrow> t_top t = Some a)
     \<and> (\<forall>a nd b c. nodes t a = Some nd \<and> link nd b = Some c \<longrightarrow>
          (\<exists>nc. nodes t c = Some nc \<and> n_parent nc = Some a \<and> child_ok nd b nc))
     \<and> (\<forall>c nc a. nodes t c = Some nc \<and> n_parent nc = Some a \<longrightarrow>
          (\<exists>nd b. nodes t a = Some nd \<and> link nd b = Some c))"

lemma trie_inv_finite: "trie_shape fam t \<Longrightarrow> finite (dom (nodes t))"
  and trie_inv_prefix: "trie_shape fam t \<Longrightarrow> nodes t a = Some nd \<Longrightarrow> prefix_ok (n_p nd)"
  and trie_inv_family: "trie_shape fam t \<Longrightarrow> nodes t a = Some nd \<Longrightarrow> family (n_p nd) = fam"
  and trie_inv_top: "trie_shape fam t \<Longrightarrow> t_top t = Some a \<Longrightarrow> \<exists>nd. nodes t a = Some nd \<and> n_parent nd = None"
  and trie_inv_root: "trie_shape fam t \<Longrightarrow> nodes t a = Some nd \<Longrightarrow> n_parent nd = None \<Longrightarrow> t_top t = Some a"
  and trie_inv_link: "trie_shape fam t \<Longrightarrow> nodes t a = Some nd \<Longrightarrow> link nd b = Some c \<Longrightarrow>
    \<exists>nc. nodes t c = Some nc \<and> n_parent nc = Some a \<and> child_ok nd b nc"
  unfolding trie_shape_def by blast+

lemma trie_inv_parent:
  assumes "trie_shape fam t" "nodes t c = Some nc" "n_parent nc = Some a"
  shows "\<exists>nd. nodes t a = Some nd \<and> link nd (key nc ! klen nd) = Some c \<and> child_ok nd (key nc ! klen nd) nc"
proof -
  obtain nd b where nd: "nodes t a = Some nd" "link nd b = Some c"
    using assms unfolding trie_shape_def by blast
  from trie_inv_link [OF assms(1) this] assms(2) have "child_ok nd b nc" by auto
  with nd show ?thesis by (auto simp: child_ok_def)
qed

lemma trie_shape_init: "trie_shape fam route_table_init"
  by (simp add: trie_shape_def route_table_init_def)

lemma trie_shapeI:
  assumes "finite (dom (nodes t))"
    and "\<And>a nd. nodes t a = Some nd \<Longrightarrow> prefix_ok (n_p nd) \<and> family (n_p nd) = fam"
    and "\<And>a. t_top t = Some a \<Longrightarrow> \<exists>nd. nodes t a = Some nd \<and> n_parent nd = None"
    and "\<And>a nd. nodes t a = Some nd \<Longrightarrow> n_parent nd = None \<Longrightarrow> t_top t = Some a"
    and "\<And>a nd b c. nodes t a = Some nd \<Longrightarrow> link nd b = Some c \<Longrightarrow>
      \<exists>nc. nodes t c = Some nc \<and> n_parent nc = Some a \<and> child_ok nd b nc"
    and "\<And>c nc a. nodes t c = Some nc \<Longrightarrow> n_parent nc = Some a \<Longrightarrow> \<exists>nd b. nodes t a = Some nd \<and> link nd b = Some c"
  shows "trie_shape fam t"
  using assms unfolding trie_shape_def by blast

text \<open>The nodes on the way from \<open>x\<close> up to the top.\<close>

inductive above :: "'a route_table \<Rightarrow> nat \<Rightarrow> nat \<Rightarrow> bool" for t where
  above_refl: "nodes t x = Some nx \<Longrightarrow> above t x x"
| above_up: "nodes t x = Some nx \<Longrightarrow> n_parent nx = Some q \<Longrightarrow> above t a q \<Longrightarrow> above t a x"

lemma above_nodes: "above t a x \<Longrightarrow> (\<exists>na. nodes t a = Some na) \<and> (\<exists>nx. nodes t x = Some nx)"
  by (induction rule: above.induct) auto

lemma above_covers:
  assumes "above t a x" "trie_shape fam t" "nodes t a = Some na" "nodes t x = Some nx"
  shows "covers (n_p na) (n_p nx) \<and> (a \<noteq> x \<longrightarrow> klen na < klen nx)"
  using assms
proof (induction arbitrary: nx rule: above.induct)
  case (above_refl x nx')
  then show ?case using trie_inv_prefix by fastforce
next
  case (above_up x nx' q a)
  from trie_inv_parent [OF above_up.prems(1) above_up.hyps(1,2)] obtain nq where
    nq: "nodes t q = Some nq" "child_ok nq (key nx' ! klen nq) nx'" by blast
  have "covers (n_p na) (n_p nq)" using above_up.IH [OF above_up.prems(1,2) nq(1)] by blast
  moreover have q: "covers (n_p nq) (n_p nx')" "klen nq < klen nx'" using nq(2) by (simp_all add: child_ok_def)
  ultimately have "covers (n_p na) (n_p nx')" "klen na < klen nx'"
    using covers_trans [OF _ q(1)] covers_len by (blast, fastforce)
  then show ?case using above_up.hyps(1) above_up.prems(3) by simp
qed

lemma above_top:
  assumes inv: "trie_shape fam t" and x: "nodes t x = Some nx"
  shows "\<exists>a. t_top t = Some a \<and> above t a x"
  using x
proof (induction "klen nx" arbitrary: x nx rule: less_induct)
  case less
  show ?case
  proof (cases "n_parent nx")
    case None
    then show ?thesis using trie_inv_root [OF inv less.prems] above_refl [OF less.prems] by auto
  next
    case (Some q)
    from trie_inv_parent [OF inv less.prems this] obtain nq where
      "nodes t q = Some nq" "child_ok nq (key nx ! klen nq) nx" by blast
    then show ?thesis using less.hyps [of nq q] above_up [OF less.prems Some] by (auto simp: child_ok_def)
  qed
qed

lemma trie_top_covers:
  assumes inv: "trie_shape fam t" and x: "nodes t x = Some nx"
  shows "\<exists>a na. t_top t = Some a \<and> nodes t a = Some na \<and> covers (n_p na) (n_p nx)"
  using above_top [OF inv x] above_nodes above_covers [OF _ inv _ x] by blast

text \<open>The next node on the way down from \<open>a\<close> to \<open>x\<close> is on the side of the next bit of \<open>x\<close>.\<close>

lemma above_child:
  assumes "above t a x" "trie_shape fam t" "a \<noteq> x" "nodes t a = Some na" "nodes t x = Some nx"
  shows "\<exists>c. link na (key nx ! klen na) = Some c \<and> above t c x"
  using assms
proof (induction arbitrary: nx rule: above.induct)
  case (above_up x nx' q a)
  have x: "nx = nx'" using above_up.hyps(1) above_up.prems(4) by simp
  from trie_inv_parent [OF above_up.prems(1) above_up.hyps(1,2)] obtain nq where
    nq: "nodes t q = Some nq" "link nq (key nx' ! klen nq) = Some x" "child_ok nq (key nx' ! klen nq) nx'" by blast
  show ?case
  proof (cases "a = q")
    case True
    then show ?thesis using nq x above_up.prems(3) above_refl [OF above_up.hyps(1)] by auto
  next
    case False
    then obtain c where c: "link na (key nq ! klen na) = Some c" "above t c q"
      using above_up.IH [OF above_up.prems(1) False above_up.prems(3) nq(1)] by blast
    have "klen na < klen nq"
      using above_covers [OF above_up.hyps(3) above_up.prems(1,3) nq(1)] False by blast
    then have "key nx' ! klen na = key nq ! klen na"
      using covers_nth [OF trie_inv_prefix [OF above_up.prems(1) nq(1)]] nq(3) by (simp add: child_ok_def)
    then show ?thesis using c above.above_up [OF above_up.hyps(1,2)] x by auto
  qed
qed simp

lemma covers_above_from:
  assumes inv: "trie_shape fam t" and "above t s a" "above t s x"
    and n: "nodes t a = Some na" "nodes t x = Some nx" "covers (n_p na) (n_p nx)"
    and s: "nodes t s = Some ns"
  shows "above t a x"
  using assms(2,3) s
proof (induction "klen na - klen ns" arbitrary: s ns rule: less_induct)
  case less
  note sa = above_covers [OF less.prems(1) inv less.prems(3) n(1)]
  note sx = above_covers [OF less.prems(2) inv less.prems(3) n(2)]
  show ?case
  proof (cases "s = a \<or> s = x")
    case True
    then show ?thesis
    proof
      assume "s = x"
      then have "a = x" using sa covers_len [OF n(3)] less.prems(3) n(2) by auto
      then show ?thesis using above_refl n(1) by auto
    qed (use less.prems(2) in simp)
  next
    case False
    then have s_a: "klen ns < klen na" using sa by auto
    obtain c where c: "link ns (key na ! klen ns) = Some c" "above t c a"
      using above_child [OF less.prems(1) inv _ less.prems(3) n(1)] False by blast
    obtain c' where c': "link ns (key nx ! klen ns) = Some c'" "above t c' x"
      using above_child [OF less.prems(2) inv _ less.prems(3) n(2)] False by blast
    have "c' = c" using c(1) c'(1) covers_nth [OF trie_inv_prefix [OF inv n(1)] n(3) s_a] by simp
    from trie_inv_link [OF inv less.prems(3) c(1)] obtain nc where
      nc: "nodes t c = Some nc" "child_ok ns (key na ! klen ns) nc" by blast
    show ?thesis
      using less.hyps [of nc c] nc c(2) c'(2) \<open>c' = c\<close> s_a by (auto simp: child_ok_def)
  qed
qed

text \<open>
  A node contains the prefix of \<open>x\<close> only if it is on the way from \<open>x\<close> to the top; nodes
  have distinct prefixes.
\<close>

lemma covers_above:
  assumes inv: "trie_shape fam t" and "nodes t a = Some na" "nodes t x = Some nx" "covers (n_p na) (n_p nx)"
  shows "above t a x"
proof -
  obtain s where "t_top t = Some s" "above t s a" "above t s x"
    using above_top [OF inv assms(2)] above_top [OF inv assms(3)] by auto
  then show ?thesis using covers_above_from [OF inv _ _ assms(2-4)] above_nodes by blast
qed

lemma trie_step:
  assumes "trie_shape fam t" "nodes t a = Some na" "nodes t x = Some nx" "covers (n_p na) (n_p nx)" "klen na < klen nx"
  shows "\<exists>c nc. link na (key nx ! klen na) = Some c \<and> nodes t c = Some nc \<and> covers (n_p nc) (n_p nx)"
proof -
  have "a \<noteq> x" using assms by auto
  from above_child [OF covers_above [OF assms(1-4)] assms(1) this assms(2,3)] obtain c where
    c: "link na (key nx ! klen na) = Some c" "above t c x" by blast
  then show ?thesis using above_nodes [OF c(2)] above_covers [OF c(2) assms(1) _ assms(3)] by blast
qed

lemma trie_unique:
  assumes "trie_shape fam t" "nodes t a = Some na" "nodes t x = Some nx" "key na = key nx"
  shows "a = x"
proof (rule ccontr)
  assume "a \<noteq> x"
  have ok: "prefix_ok (n_p na)" "prefix_ok (n_p nx)" using trie_inv_prefix assms(1-3) by blast+
  have "above t a x" using covers_above [OF assms(1-3) covers_eqI [OF ok assms(4)]] .
  from above_covers [OF this assms(1-3)] \<open>a \<noteq> x\<close> prefix_bits_eq_len [OF ok assms(4)] show False by simp
qed


subsection \<open>Searching\<close>

text \<open>
  The state of a search for \<open>p\<close> that stands at the pointer \<open>o1\<close>: the nodes of length at
  least \<open>L\<close> that contain \<open>p\<close> are below the node it points to.
\<close>

definition seek :: "'a route_table \<Rightarrow> prefix \<Rightarrow> nat \<Rightarrow> nat option \<Rightarrow> bool" where
  "seek t p L o1 \<longleftrightarrow>
     (\<forall>a. o1 = Some a \<longrightarrow> (\<exists>na. nodes t a = Some na \<and> L \<le> klen na))
     \<and> (\<forall>x nx. nodes t x = Some nx \<and> covers (n_p nx) p \<and> L \<le> klen nx \<longrightarrow>
          (\<exists>a na. o1 = Some a \<and> nodes t a = Some na \<and> covers (n_p na) (n_p nx)))"

lemma seek_top: "trie_shape fam t \<Longrightarrow> seek t p 0 (t_top t)"
  using trie_inv_top trie_top_covers unfolding seek_def by blast

lemma seek_None: "seek t p L None \<Longrightarrow> nodes t x = Some nx \<Longrightarrow> covers (n_p nx) p \<Longrightarrow> klen nx < L"
  unfolding seek_def by (metis not_le option.distinct(1))

lemma seek_stop:
  assumes "seek t p L (Some a)" "nodes t a = Some na" "\<not> covers (n_p na) p" "nodes t x = Some nx" "covers (n_p nx) p"
  shows "klen nx < L"
proof (rule ccontr)
  assume "\<not> klen nx < L"
  then have "covers (n_p na) (n_p nx)" using assms unfolding seek_def by fastforce
  then show False using covers_trans assms(3,5) by blast
qed

lemma seek_step:
  assumes inv: "trie_shape fam t" and p: "prefix_ok p" and "seek t p L (Some a)" and a: "nodes t a = Some na"
    and c: "covers (n_p na) p" and l: "klen na < prefixlen p"
  shows "seek t p (Suc (klen na)) (link na (prefix_bits p ! klen na))"
  unfolding seek_def
proof (intro conjI allI impI)
  fix c assume "link na (prefix_bits p ! klen na) = Some c"
  from trie_inv_link [OF inv a this] show "\<exists>nc. nodes t c = Some nc \<and> Suc (klen na) \<le> klen nc"
    by (auto simp: child_ok_def)
next
  fix x nx assume x: "nodes t x = Some nx \<and> covers (n_p nx) p \<and> Suc (klen na) \<le> klen nx"
  then have "covers (n_p na) (n_p nx)" using covers_linear [OF c] by simp
  moreover have "prefix_bits p ! klen na = key nx ! klen na"
    using covers_nth [of "n_p nx" p "klen na"] x trie_inv_prefix [OF inv] by auto
  ultimately show "\<exists>a' na'. link na (prefix_bits p ! klen na) = Some a' \<and> nodes t a' = Some na' \<and> covers (n_p na') (n_p nx)"
    using trie_step [OF inv a, of x nx] x by auto
qed

lemma walk_on_eq: "prefix_ok (n_p nd) \<Longrightarrow> prefix_ok p \<Longrightarrow> walk_on nd p = Some (covers (n_p nd) p)"
  by (simp add: walk_on_def prefix_match_eq) (meson covers_len)

lemma key_eq_covers:
  assumes "trie_shape fam t" "prefix_ok p" "nodes t x = Some nx" "key nx = prefix_bits p"
  shows "covers (n_p nx) p" "klen nx = prefixlen p"
  using covers_eqI prefix_bits_eq_len trie_inv_prefix [OF assms(1,3)] assms(2,4) by blast+

text \<open>One step of a search: it stops, has found the prefix, or goes on.\<close>

lemma seek_cases:
  assumes inv: "trie_shape fam t" and p: "prefix_ok p" and s: "seek t p L (Some a)"
  obtains (stop) na where "nodes t a = Some na" "walk_on na p = Some False"
      "\<And>x nx. nodes t x = Some nx \<Longrightarrow> covers (n_p nx) p \<Longrightarrow> klen nx < L"
    | (found) na where "nodes t a = Some na" "walk_on na p = Some True" "klen na = prefixlen p" "key na = prefix_bits p"
    | (go) na where "nodes t a = Some na" "walk_on na p = Some True" "klen na < prefixlen p" "L \<le> klen na"
      "covers (n_p na) p" "prefix_bit (u_prefix p) (klen na) = Some (prefix_bits p ! klen na)"
      "seek t p (Suc (klen na)) (link na (prefix_bits p ! klen na))"
proof -
  obtain na where a: "nodes t a = Some na" "L \<le> klen na" using s by (auto simp: seek_def)
  note ok = trie_inv_prefix [OF inv a(1)]
  have w: "walk_on na p = Some (covers (n_p na) p)" by (rule walk_on_eq [OF ok p])
  show thesis
  proof (cases "covers (n_p na) p")
    case False
    then show thesis using stop a w seek_stop [OF s a(1) False] by simp
  next
    case True
    show thesis
    proof (cases "klen na < prefixlen p")
      case True
      then show thesis
        using go [OF a(1) _ True a(2) \<open>covers (n_p na) p\<close> prefix_bit_prefix [OF p True] seek_step [OF inv p s a(1) \<open>covers (n_p na) p\<close> True]]
          w \<open>covers (n_p na) p\<close> by simp
    next
      case False
      then have "klen na = prefixlen p" using covers_len [OF True] by simp
      then show thesis using found [OF a(1)] w True covers_antisym [OF ok p True] by simp
    qed
  qed
qed

lemma lookup_loop_eqs:
  "lookup_loop t p None = Some None"
  "nodes t a = Some na \<Longrightarrow> walk_on na p = Some False \<Longrightarrow> lookup_loop t p (Some a) = Some None"
  "nodes t a = Some na \<Longrightarrow> walk_on na p = Some True \<Longrightarrow> klen na = prefixlen p \<Longrightarrow>
     lookup_loop t p (Some a) = Some (if n_info na \<noteq> None then Some a else None)"
  "nodes t a = Some na \<Longrightarrow> walk_on na p = Some True \<Longrightarrow> klen na < prefixlen p \<Longrightarrow>
     prefix_bit (u_prefix p) (klen na) = Some b \<Longrightarrow> lookup_loop t p (Some a) = lookup_loop t p (link na b)"
  by (subst lookup_loop.simps, simp)+

lemma no_key:
  assumes "trie_shape fam t" "prefix_ok p" "L \<le> prefixlen p"
    and "\<forall>x nx. nodes t x = Some nx \<longrightarrow> covers (n_p nx) p \<longrightarrow> klen nx < L"
  shows "\<forall>x nx. nodes t x = Some nx \<longrightarrow> key nx \<noteq> prefix_bits p"
  using key_eq_covers [OF assms(1,2)] assms(3,4) by (metis not_le)

lemma lookup_loop_spec:
  assumes inv: "trie_shape fam t" and p: "prefix_ok p" and "seek t p L o1" "L \<le> prefixlen p"
  shows "\<exists>r. lookup_loop t p o1 = Some r \<and>
    (\<forall>x. r = Some x \<longleftrightarrow> (\<exists>nx. nodes t x = Some nx \<and> key nx = prefix_bits p \<and> n_info nx \<noteq> None))"
  using assms(3,4)
proof (induction "prefixlen p - L" arbitrary: L o1 rule: less_induct)
  case less
  show ?case
  proof (cases o1)
    case None
    have "\<forall>x nx. nodes t x = Some nx \<longrightarrow> key nx \<noteq> prefix_bits p"
      using no_key [OF inv p less.prems(2)] seek_None [OF less.prems(1) [unfolded None]] by blast
    then show ?thesis unfolding None lookup_loop_eqs by simp blast
  next
    case (Some a)
    from inv p less.prems(1) [unfolded Some] show ?thesis
    proof (cases rule: seek_cases)
      case (stop na)
      have "\<forall>x nx. nodes t x = Some nx \<longrightarrow> key nx \<noteq> prefix_bits p"
        using no_key [OF inv p less.prems(2)] stop(3) by blast
      then show ?thesis unfolding Some lookup_loop_eqs(2) [OF stop(1,2)] by simp blast
    next
      case (found na)
      have "x = a" if "nodes t x = Some nx" "key nx = prefix_bits p" for x nx
        by (rule trie_unique [OF inv that(1) found(1)]) (simp only: that(2) found(4))
      then have iff: "(\<exists>nx. nodes t x = Some nx \<and> key nx = prefix_bits p \<and> n_info nx \<noteq> None)
          \<longleftrightarrow> x = a \<and> n_info na \<noteq> None" for x
        using found(1,4) by (metis option.inject)
      show ?thesis unfolding Some lookup_loop_eqs(3) [OF found(1-3)] iff
        by (rule exI [of _ "if n_info na \<noteq> None then Some a else None"]) auto
    next
      case (go na)
      have "prefixlen p - Suc (klen na) < prefixlen p - L" "Suc (klen na) \<le> prefixlen p" using go(3,4) by simp_all
      then show ?thesis unfolding Some lookup_loop_eqs(4) [OF go(1-3,6)] by (rule less.hyps [OF _ go(7)])
    qed
  qed
qed

text \<open>
  The best match: of the nodes that contain \<open>p\<close> and carry information, the one with the
  longest prefix.
\<close>

definition longest_match :: "'a route_table \<Rightarrow> prefix \<Rightarrow> nat \<Rightarrow> nat \<Rightarrow> bool" where
  "longest_match t p L x \<longleftrightarrow>
     (\<exists>nx. nodes t x = Some nx \<and> covers (n_p nx) p \<and> L \<le> klen nx \<and> n_info nx \<noteq> None
       \<and> (\<forall>y ny. nodes t y = Some ny \<and> covers (n_p ny) p \<and> n_info ny \<noteq> None \<longrightarrow> klen ny \<le> klen nx))"

lemma longest_match_mono: "longest_match t p L x \<Longrightarrow> L' \<le> L \<Longrightarrow> longest_match t p L' x"
  unfolding longest_match_def by (meson le_trans)

lemma seek_len: "seek t p L (Some a) \<Longrightarrow> nodes t a = Some na \<Longrightarrow> L \<le> klen na"
  by (auto simp: seek_def)

lemma seek_first:
  assumes inv: "trie_shape fam t" and "seek t p L (Some a)" "nodes t a = Some na"
    and "nodes t y = Some ny" "covers (n_p ny) p" "L \<le> klen ny" "klen ny \<le> klen na"
  shows "y = a"
proof -
  have c: "covers (n_p na) (n_p ny)" using assms by (fastforce simp: seek_def)
  have "key na = key ny"
    by (rule covers_antisym [OF trie_inv_prefix [OF inv assms(3)] trie_inv_prefix [OF inv assms(4)] c assms(7)])
  then show ?thesis using trie_unique [OF inv assms(4,3)] by simp
qed

lemma match_loop_eqs:
  "match_loop t p None matched = Some matched"
  "nodes t a = Some na \<Longrightarrow> walk_on na p = Some False \<Longrightarrow> match_loop t p (Some a) matched = Some matched"
  "nodes t a = Some na \<Longrightarrow> walk_on na p = Some True \<Longrightarrow> klen na = prefixlen p \<Longrightarrow>
     match_loop t p (Some a) matched = Some (if n_info na \<noteq> None then Some a else matched)"
  "nodes t a = Some na \<Longrightarrow> walk_on na p = Some True \<Longrightarrow> klen na < prefixlen p \<Longrightarrow>
     prefix_bit (u_prefix p) (klen na) = Some b \<Longrightarrow> match_loop t p (Some a) matched
       = match_loop t p (link na b) (if n_info na \<noteq> None then Some a else matched)"
  by (subst match_loop.simps, simp add: Let_def)+

lemma match_loop_spec:
  assumes inv: "trie_shape fam t" and p: "prefix_ok p" and "seek t p L o1"
  shows "\<exists>r. match_loop t p o1 matched = Some r \<and>
    ((\<exists>x. r = Some x \<and> longest_match t p L x)
     \<or> r = matched \<and> (\<forall>y ny. nodes t y = Some ny \<and> covers (n_p ny) p \<and> n_info ny \<noteq> None \<longrightarrow> klen ny < L))"
  using assms(3)
proof (induction "prefixlen p - L" arbitrary: L o1 matched rule: less_induct)
  case less
  show ?case
  proof (cases o1)
    case None
    then show ?thesis unfolding None match_loop_eqs using seek_None [OF less.prems [unfolded None]] by blast
  next
    case (Some a)
    from inv p less.prems [unfolded Some] show ?thesis
    proof (cases rule: seek_cases)
      case (stop na)
      then show ?thesis unfolding Some match_loop_eqs(2) [OF stop(1,2)] by blast
    next
      case (found na)
      have "klen ny < L" if "n_info na = None" "nodes t y = Some ny" "covers (n_p ny) p" "n_info ny \<noteq> None" for y ny
        using seek_first [OF inv less.prems [unfolded Some] found(1) that(2,3)] found(1,3) that covers_len [OF that(3)]
        by (cases "L \<le> klen ny") auto
      moreover have "longest_match t p L a" if "n_info na \<noteq> None"
        unfolding longest_match_def
        using found(1,3) that key_eq_covers [OF inv p found(1,4)] seek_len [OF less.prems [unfolded Some] found(1)] covers_len
        by metis
      moreover have "match_loop t p o1 matched = Some (if n_info na \<noteq> None then Some a else matched)"
        unfolding Some by (rule match_loop_eqs(3) [OF found(1-3)])
      ultimately show ?thesis by auto
    next
      case (go na)
      let ?m = "if n_info na \<noteq> None then Some a else matched"
      have "prefixlen p - Suc (klen na) < prefixlen p - L" using go(3,4) by simp
      from less.hyps [OF this go(7), of ?m] obtain r where
        r: "match_loop t p (link na (prefix_bits p ! klen na)) ?m = Some r"
          "(\<exists>x. r = Some x \<and> longest_match t p (Suc (klen na)) x)
           \<or> r = ?m \<and> (\<forall>y ny. nodes t y = Some ny \<and> covers (n_p ny) p \<and> n_info ny \<noteq> None \<longrightarrow> klen ny < Suc (klen na))"
        by blast
      have step: "match_loop t p o1 matched = Some r"
        unfolding r(1) [symmetric] Some by (rule match_loop_eqs(4) [OF go(1-3,6)])
      from r(2) show ?thesis
      proof
        assume "\<exists>x. r = Some x \<and> longest_match t p (Suc (klen na)) x"
        then show ?thesis using step longest_match_mono [of t p "Suc (klen na)" _ L] go(4) by auto
      next
        assume r2: "r = ?m \<and> (\<forall>y ny. nodes t y = Some ny \<and> covers (n_p ny) p \<and> n_info ny \<noteq> None \<longrightarrow> klen ny < Suc (klen na))"
        then have le: "klen ny \<le> klen na" if "nodes t y = Some ny" "covers (n_p ny) p" "n_info ny \<noteq> None" for y ny
          using that by fastforce
        show ?thesis
        proof (cases "n_info na = None")
          case True
          have "klen ny < L" if "nodes t y = Some ny" "covers (n_p ny) p" "n_info ny \<noteq> None" for y ny
            using seek_first [OF inv less.prems [unfolded Some] go(1) that(1,2)] go(1) that True le [OF that]
            by (cases "L \<le> klen ny") auto
          then show ?thesis using step r2 True by auto
        next
          case False
          then have "longest_match t p L a" unfolding longest_match_def using go(1,4,5) le by blast
          then show ?thesis using step r2 False by auto
        qed
      qed
    qed
  qed
qed


lemma get_loop_eqs:
  "get_loop t p None mat = Some (Inr (mat, None))"
  "nodes t a = Some na \<Longrightarrow> walk_on na p = Some False \<Longrightarrow> get_loop t p (Some a) mat = Some (Inr (mat, Some a))"
  "nodes t a = Some na \<Longrightarrow> walk_on na p = Some True \<Longrightarrow> klen na = prefixlen p \<Longrightarrow>
     get_loop t p (Some a) mat = Some (Inl a)"
  "nodes t a = Some na \<Longrightarrow> walk_on na p = Some True \<Longrightarrow> klen na < prefixlen p \<Longrightarrow>
     prefix_bit (u_prefix p) (klen na) = Some b \<Longrightarrow> get_loop t p (Some a) mat = get_loop t p (link na b) (Some a)"
  by (subst get_loop.simps, simp)+

text \<open>Where an unsuccessful search for \<open>p\<close> stops.\<close>

fun place_at :: "'a route_table \<Rightarrow> prefix \<Rightarrow> nat option \<Rightarrow> nat option \<Rightarrow> bool" where
  "place_at t p None o1 = (o1 = t_top t)"
| "place_at t p (Some m) o1 =
     (\<exists>nm. nodes t m = Some nm \<and> covers (n_p nm) p \<and> klen nm < prefixlen p \<and> o1 = link nm (prefix_bits p ! klen nm))"

definition off_path :: "'a route_table \<Rightarrow> prefix \<Rightarrow> nat option \<Rightarrow> bool" where
  "off_path t p o1 \<longleftrightarrow> (\<forall>b. o1 = Some b \<longrightarrow> (\<exists>nb. nodes t b = Some nb \<and> \<not> covers (n_p nb) p))"

lemma get_loop_spec:
  assumes inv: "trie_shape fam t" and p: "prefix_ok p" and "seek t p L o1" "L \<le> prefixlen p" "place_at t p mat o1"
  shows "(\<exists>a na. get_loop t p o1 mat = Some (Inl a) \<and> nodes t a = Some na \<and> key na = prefix_bits p)
    \<or> (\<exists>m o2. get_loop t p o1 mat = Some (Inr (m, o2)) \<and> place_at t p m o2 \<and> off_path t p o2
        \<and> (\<forall>x nx. nodes t x = Some nx \<longrightarrow> key nx \<noteq> prefix_bits p))"
  using assms(3-)
proof (induction "prefixlen p - L" arbitrary: L o1 mat rule: less_induct)
  case less
  show ?case
  proof (cases o1)
    case None
    have "\<forall>x nx. nodes t x = Some nx \<longrightarrow> key nx \<noteq> prefix_bits p"
      using no_key [OF inv p less.prems(2)] seek_None [OF less.prems(1) [unfolded None]] by blast
    then show ?thesis unfolding None get_loop_eqs using less.prems(3) [unfolded None] by (simp add: off_path_def)
  next
    case (Some a)
    from inv p less.prems(1) [unfolded Some] show ?thesis
    proof (cases rule: seek_cases)
      case (stop na)
      have "\<forall>x nx. nodes t x = Some nx \<longrightarrow> key nx \<noteq> prefix_bits p"
        using no_key [OF inv p less.prems(2)] stop(3) by blast
      moreover have "\<not> covers (n_p na) p"
        using stop(2) walk_on_eq [OF trie_inv_prefix [OF inv stop(1)] p] by simp
      ultimately show ?thesis
        unfolding Some get_loop_eqs(2) [OF stop(1,2)] using less.prems(3) [unfolded Some] stop(1)
        by (simp add: off_path_def)
    next
      case (found na)
      then show ?thesis unfolding Some get_loop_eqs(3) [OF found(1-3)] by blast
    next
      case (go na)
      have "prefixlen p - Suc (klen na) < prefixlen p - L" "Suc (klen na) \<le> prefixlen p" using go(3,4) by simp_all
      moreover have "place_at t p (Some a) (link na (prefix_bits p ! klen na))" using go(1,3,5) by simp
      ultimately show ?thesis unfolding Some get_loop_eqs(4) [OF go(1-3,6)] by (rule less.hyps [OF _ go(7)])
    qed
  qed
qed

end
