(* ===== verification/Route_Table_Update.thy ===== *)
theory Route_Table_Update
  imports Route_Table
begin

text \<open>
  Insertion and removal of nodes in the routing table (\<open>lib/table.c\<close>) and the accounting
  of locks: the tree keeps its shape, every lock is a reference of a client, and nodes
  without a lock are inner nodes with two children. The proofs see a table as a set of
  slots (the top pointer and the links) that hold nodes, and every change of pointers as
  a change of slots.
\<close>

subsection \<open>Links\<close>

lemma link_with_link [simp]: "link (with_link b c nd) b' = (if b' = b then c else link nd b')"
  by (simp add: link_def with_link_def)

lemma with_link_simps [simp]:
  "n_p (with_link b c nd) = n_p nd" "n_parent (with_link b c nd) = n_parent nd"
  "n_lock (with_link b c nd) = n_lock nd" "n_info (with_link b c nd) = n_info nd"
  by (simp_all add: with_link_def)

lemma link_update [simp]:
  "link (nd\<lparr>n_parent := q\<rparr>) b = link nd b" "link (nd\<lparr>n_lock := k\<rparr>) b = link nd b"
  "link (nd\<lparr>n_info := i\<rparr>) b = link nd b" "link (nd\<lparr>n_p := p\<rparr>) b = link nd b"
  by (simp_all add: link_def)

lemma child_ok_with_link [simp]:
  "child_ok (with_link s c nd) b nc = child_ok nd b nc" "child_ok nd b (with_link s c nc) = child_ok nd b nc"
  by (simp_all add: child_ok_def)

lemma child_ok_update [simp]:
  "child_ok (nd\<lparr>n_parent := q\<rparr>) b nc = child_ok nd b nc" "child_ok nd b (nc\<lparr>n_parent := q\<rparr>) = child_ok nd b nc"
  "child_ok (nd\<lparr>n_lock := k\<rparr>) b nc = child_ok nd b nc" "child_ok nd b (nc\<lparr>n_lock := k\<rparr>) = child_ok nd b nc"
  "child_ok (nd\<lparr>n_info := i\<rparr>) b nc = child_ok nd b nc" "child_ok nd b (nc\<lparr>n_info := i\<rparr>) = child_ok nd b nc"
  by (simp_all add: child_ok_def)

lemma no_links: "link nd b = None \<longleftrightarrow> (if b then l_right nd = None else l_left nd = None)"
  by (simp add: link_def)

lemma trie_empty: "trie_shape fam t \<Longrightarrow> t_top t = None \<Longrightarrow> nodes t x = None"
  using above_top [of fam t x] by (cases "nodes t x") auto

lemma child_ok_trans:
  assumes "prefix_ok (n_p nb)" "child_ok na s nb" "child_ok nb b nc"
  shows "child_ok na s nc"
  using assms covers_trans covers_nth [of "n_p nb" "n_p nc" "klen na"] by (auto simp: child_ok_def)

lemma link_unique:
  assumes "trie_shape fam t" "nodes t a = Some na" "nodes t a' = Some na'" "link na b = Some c" "link na' b' = Some c"
  shows "a = a'" "b = b'"
  using trie_inv_link [OF assms(1,2,4)] trie_inv_link [OF assms(1,3,5)] assms(2,3) by (auto simp: child_ok_def)

subsection \<open>Trees of prefixes\<close>

text \<open>
  The shape of the tree depends on three things only: the prefix of each node, its parent,
  and what is in each slot, where a slot is the pointer to the top node or a link of a
  node. The operations change few slots, so their effect is simplest on this view.
\<close>

type_synonym slots = "nat option \<Rightarrow> bool \<Rightarrow> nat option"

definition slot :: "'a route_table \<Rightarrow> slots" where
  "slot t q s = (case q of None \<Rightarrow> t_top t | Some a \<Rightarrow> (case nodes t a of None \<Rightarrow> None | Some nd \<Rightarrow> link nd s))"

definition pfx :: "'a route_table \<Rightarrow> nat \<rightharpoonup> prefix" where
  "pfx t a = map_option n_p (nodes t a)"

definition par_of :: "'a route_table \<Rightarrow> nat \<rightharpoonup> nat option" where
  "par_of t a = map_option n_parent (nodes t a)"

definition same_slot :: "nat option \<Rightarrow> bool \<Rightarrow> nat option \<Rightarrow> bool \<Rightarrow> bool" where
  "same_slot q s q' s' \<longleftrightarrow> q' = q \<and> (q = None \<or> s' = s)"

definition put_slot :: "nat option \<Rightarrow> bool \<Rightarrow> nat option \<Rightarrow> slots \<Rightarrow> slots" where
  "put_slot q s v sl = (\<lambda>q' s'. if same_slot q s q' s' then v else sl q' s')"

definition fits :: "(nat \<rightharpoonup> prefix) \<Rightarrow> nat option \<Rightarrow> bool \<Rightarrow> nat \<Rightarrow> bool" where
  "fits P q s c \<longleftrightarrow> c \<in> dom P \<and>
     (\<forall>a. q = Some a \<longrightarrow> (\<exists>pa pc. P a = Some pa \<and> P c = Some pc
        \<and> covers pa pc \<and> prefixlen pa < prefixlen pc \<and> prefix_bits pc ! prefixlen pa = s))"

definition tree_ok :: "nat \<Rightarrow> (nat \<rightharpoonup> prefix) \<Rightarrow> (nat \<rightharpoonup> nat option) \<Rightarrow> slots \<Rightarrow> bool" where
  "tree_ok fam P R sl \<longleftrightarrow>
     finite (dom P) \<and> dom R = dom P
     \<and> (\<forall>a p. P a = Some p \<longrightarrow> prefix_ok p \<and> family p = fam)
     \<and> (\<forall>q s c. sl q s = Some c \<longrightarrow> R c = Some q \<and> fits P q s c)
     \<and> (\<forall>c q. R c = Some q \<longrightarrow> (\<exists>s. sl q s = Some c))
     \<and> (\<forall>s s'. sl None s = sl None s')"

lemma dom_pfx [simp]: "dom (pfx t) = dom (nodes t)" and dom_par [simp]: "dom (par_of t) = dom (nodes t)"
  by (auto simp: pfx_def par_of_def dom_def)

lemma trie_shape_tree: "trie_shape fam t \<longleftrightarrow> tree_ok fam (pfx t) (par_of t) (slot t)"
proof
  assume sh: "trie_shape fam t"
  have "par_of t c = Some q \<and> fits (pfx t) q s c" if sl: "slot t q s = Some c" for q s c
  proof (cases q)
    case None
    then show ?thesis using sl trie_inv_top [OF sh, of c] by (auto simp: slot_def par_of_def pfx_def fits_def dom_def)
  next
    case (Some a)
    then obtain nd where nd: "nodes t a = Some nd" "link nd s = Some c" using sl by (auto simp: slot_def split: option.splits)
    from trie_inv_link [OF sh this] obtain nc where "nodes t c = Some nc" "n_parent nc = Some a" "child_ok nd s nc" by blast
    then show ?thesis using nd Some by (auto simp: par_of_def pfx_def fits_def child_ok_def)
  qed
  moreover have "\<exists>s. slot t q s = Some c" if pr: "par_of t c = Some q" for c q
  proof -
    obtain nc where nc: "nodes t c = Some nc" "n_parent nc = q" using pr by (auto simp: par_of_def)
    show ?thesis
    proof (cases q)
      case None
      then show ?thesis using trie_inv_root [OF sh nc(1)] nc(2) by (simp add: slot_def)
    next
      case (Some a)
      then show ?thesis using trie_inv_parent [OF sh nc(1)] nc(2) by (auto simp: slot_def)
    qed
  qed
  moreover have "finite (dom (nodes t))" using trie_inv_finite [OF sh] .
  moreover have "prefix_ok p \<and> family p = fam" if "pfx t a = Some p" for a p
    using that trie_inv_prefix [OF sh] trie_inv_family [OF sh] by (auto simp: pfx_def)
  ultimately show "tree_ok fam (pfx t) (par_of t) (slot t)"
    unfolding tree_ok_def by (auto simp: slot_def)
next
  assume tr: "tree_ok fam (pfx t) (par_of t) (slot t)"
  have S1: "par_of t c = Some q" "fits (pfx t) q s c" if "slot t q s = Some c" for q s c
    using tr that unfolding tree_ok_def by blast+
  have S2: "\<exists>s. slot t q s = Some c" if "par_of t c = Some q" for q c
    using tr that unfolding tree_ok_def by blast
  show "trie_shape fam t"
  proof (rule trie_shapeI, goal_cases)
    case 1
    show ?case using tr by (simp add: tree_ok_def)
  next
    case (2 a nd)
    then have "pfx t a = Some (n_p nd)" by (simp add: pfx_def)
    then show ?case using tr unfolding tree_ok_def by blast
  next
    case (3 a)
    then show ?case using S1(1) [of None False a] by (auto simp: slot_def par_of_def)
  next
    case (4 a nd)
    then show ?case using S2 [of a None] by (auto simp: slot_def par_of_def)
  next
    case (5 a nd b c)
    then have "slot t (Some a) b = Some c" by (simp add: slot_def)
    from S1 [OF this] 5(1) show ?case by (auto simp: par_of_def pfx_def fits_def child_ok_def)
  next
    case (6 c nc a)
    then have "par_of t c = Some (Some a)" by (simp add: par_of_def)
    from S2 [OF this] show ?case by (auto simp: slot_def split: option.splits)
  qed
qed


lemma tree_okD:
  assumes "tree_ok fam P R sl"
  shows "finite (dom P)" "dom R = dom P" "sl None s = sl None s'"
    and "P a = Some p \<Longrightarrow> prefix_ok p \<and> family p = fam"
    and "sl q s = Some c \<Longrightarrow> R c = Some q" "sl q s = Some c \<Longrightarrow> fits P q s c"
    and "R c = Some q \<Longrightarrow> \<exists>s. sl q s = Some c"
  using assms unfolding tree_ok_def by blast+

lemma tree_okI:
  assumes "finite (dom P)" "dom R = dom P"
    and "\<And>a p. P a = Some p \<Longrightarrow> prefix_ok p \<and> family p = fam"
    and "\<And>q s c. sl q s = Some c \<Longrightarrow> R c = Some q \<and> fits P q s c"
    and "\<And>c q. R c = Some q \<Longrightarrow> \<exists>s. sl q s = Some c"
    and "\<And>s s'. sl None s = sl None s'"
  shows "tree_ok fam P R sl"
  using assms unfolding tree_ok_def by blast

lemma tree_same_slot:
  assumes "tree_ok fam P R sl" "same_slot q s q' s'"
  shows "sl q' s' = sl q s"
  using tree_okD(3) [OF assms(1), of s' s] assms(2) by (auto simp: same_slot_def)

lemma tree_other_slot:
  assumes "tree_ok fam P R sl" "sl q' s' \<noteq> sl q s"
  shows "\<not> same_slot q s q' s'"
  using tree_same_slot [OF assms(1)] assms(2) by blast

lemma fits_more: "fits P q s c \<Longrightarrow> new \<notin> dom P \<Longrightarrow> fits (P(new \<mapsto> p)) q s c"
proof -
  assume f: "fits P q s c" and new: "new \<notin> dom P"
  then have "c \<noteq> new" "q \<noteq> Some new" by (auto simp: fits_def)
  then show ?thesis using f by (auto simp: fits_def)
qed

lemma fits_less: "fits P q s c \<Longrightarrow> c \<noteq> a \<Longrightarrow> q \<noteq> Some a \<Longrightarrow> fits (P(a := None)) q s c"
  by (auto simp: fits_def)

lemma fits_side: "fits P (Some a) s c \<Longrightarrow> fits P (Some a) s' c \<Longrightarrow> s = s'"
  by (auto simp: fits_def)

lemma fits_irrefl: "fits P (Some a) s c \<Longrightarrow> a \<noteq> c"
  by (auto simp: fits_def)

lemma put_slot_eq: "put_slot q s v sl q' s' = (if same_slot q s q' s' then v else sl q' s')"
  by (simp add: put_slot_def)

lemma put_slotE:
  assumes "put_slot q s v sl q' s' = Some c"
  obtains (here) "same_slot q s q' s'" "v = Some c" | (there) "\<not> same_slot q s q' s'" "sl q' s' = Some c"
  using assms unfolding put_slot_eq by (cases "same_slot q s q' s'") simp_all

text \<open>A new leaf in an empty slot.\<close>

lemma tree_leaf:
  assumes tr: "tree_ok fam P R sl" and new: "new \<notin> dom P" and p: "prefix_ok p" "family p = fam"
    and sl: "sl q s = None" "fits (P(new \<mapsto> p)) q s new"
  shows "tree_ok fam (P(new \<mapsto> p)) (R(new \<mapsto> q)) (put_slot q s (Some new) sl)"
proof -
  note D = tree_okD [OF tr]
  have 1: "(R(new \<mapsto> q)) c = Some q' \<and> fits (P(new \<mapsto> p)) q' s' c"
    if "put_slot q s (Some new) sl q' s' = Some c" for q' s' c
  proof (cases "same_slot q s q' s'")
    case True
    then have "c = new" "fits (P(new \<mapsto> p)) q' s' new"
      using that sl(2) by (auto simp: put_slot_eq same_slot_def fits_def)
    then show ?thesis using True by (simp add: same_slot_def)
  next
    case False
    then have c: "sl q' s' = Some c" using that by (auto simp: put_slot_eq)
    then have "c \<in> dom P" using D(6) by (auto simp: fits_def)
    then show ?thesis using D(5,6) [OF c] new fits_more [OF _ new] by auto
  qed
  have 2: "\<exists>s'. put_slot q s (Some new) sl q' s' = Some c" if pr: "(R(new \<mapsto> q)) c = Some q'" for q' c
  proof (cases "c = new")
    case True
    then show ?thesis using pr by (auto simp: put_slot_eq same_slot_def)
  next
    case False
    then obtain s' where s': "sl q' s' = Some c" using pr D(7) by auto
    moreover have "\<not> same_slot q s q' s'" by (rule tree_other_slot [OF tr]) (simp add: s' sl(1))
    ultimately have "put_slot q s (Some new) sl q' s' = Some c" unfolding put_slot_eq by simp
    then show ?thesis by blast
  qed
  have dom: "dom (R(new \<mapsto> q)) = dom (P(new \<mapsto> p))" using D(2) by simp
  show ?thesis
  proof (rule tree_okI [OF _ dom _ 1 2])
    show "put_slot q s (Some new) sl None s1 = put_slot q s (Some new) sl None s2" for s1 s2
      using D(3) [of s1 s2] by (simp add: put_slot_eq same_slot_def)
  qed (use D(1,4) p in \<open>auto split: if_splits\<close>)
qed


text \<open>A new inner node in the slot of \<open>b\<close>, with \<open>b\<close> below it.\<close>

lemma tree_branch:
  assumes tr: "tree_ok fam P R sl" and new: "new \<notin> dom P" and p: "prefix_ok p" "family p = fam"
    and sl: "sl q s = Some b" "fits (P(new \<mapsto> p)) q s new" "fits (P(new \<mapsto> p)) (Some new) sb b"
  shows "tree_ok fam (P(new \<mapsto> p)) (R(new \<mapsto> q, b \<mapsto> Some new))
    (put_slot q s (Some new) (put_slot (Some new) sb (Some b) sl))" (is "tree_ok _ ?P ?R ?sl")
proof -
  note D = tree_okD [OF tr]
  have b: "b \<in> dom P" "b \<noteq> new" "q \<noteq> Some new" "R b = Some q"
    using D(5,6) [OF sl(1)] new sl(2) by (auto simp: fits_def)
  have free: "sl (Some new) s' = None" for s' using D(6) [of "Some new" s'] new by (cases "sl (Some new) s'") (auto simp: fits_def)
  have 1: "?R c = Some q' \<and> fits ?P q' s' c" if pt: "?sl q' s' = Some c" for q' s' c
  proof -
    from pt show ?thesis
    proof (cases rule: put_slotE)
      case here
      then show ?thesis using sl(2) b(2) by (auto simp: fits_def same_slot_def)
    next
      case there
      note old = there(1)
      from there(2) show ?thesis
      proof (cases rule: put_slotE)
        case here
        then show ?thesis using sl(3) by (simp add: same_slot_def)
      next
        case there
        have "c \<noteq> b"
        proof
          assume "c = b"
          then have "q' = q" using D(5) [OF there(2)] b(4) by simp
          then show False
            using old D(6) [OF there(2)] D(6) [OF sl(1)] \<open>c = b\<close> fits_side [of P _ s' b s]
            by (cases q) (auto simp: same_slot_def)
        qed
        moreover have "c \<noteq> new" using D(6) [OF there(2)] new by (auto simp: fits_def)
        ultimately show ?thesis using D(5,6) [OF there(2)] fits_more [OF _ new] by simp
      qed
    qed
  qed
  have 2: "\<exists>s'. ?sl q' s' = Some c" if pr: "?R c = Some q'" for q' c
  proof -
    consider (new) "c = new" "q' = q" | (below) "c = b" "q' = Some new" | (other) "c \<noteq> b" "c \<noteq> new" "R c = Some q'"
      using pr b(2) by (cases "c = b"; cases "c = new") simp_all
    then show ?thesis
    proof cases
      case other
      then obtain s' where s': "sl q' s' = Some c" using D(7) by blast
      moreover have "\<not> same_slot q s q' s'" by (rule tree_other_slot [OF tr]) (use s' sl(1) other(1) in simp)
      moreover have "q' \<noteq> Some new" using s' free by auto
      ultimately have "?sl q' s' = Some c" unfolding put_slot_eq by (simp add: same_slot_def [of "Some new"])
      then show ?thesis by blast
    qed (use b(3) in \<open>auto simp: put_slot_eq same_slot_def\<close>)
  qed
  have dom: "dom ?R = dom ?P" using D(2) b(1) by auto
  show ?thesis
  proof (rule tree_okI [OF _ dom _ 1 2])
    show "?sl None s1 = ?sl None s2" for s1 s2 using D(3) [of s1 s2] by (simp add: put_slot_eq same_slot_def)
  qed (use D(1,4) p in \<open>auto split: if_splits\<close>)
qed

text \<open>A node with at most one child is taken out and its child put in its slot.\<close>

definition drop_slots :: "nat \<Rightarrow> slots \<Rightarrow> slots" where
  "drop_slots a sl = (\<lambda>q s. if q = Some a then None else sl q s)"

lemma fits_trans:
  assumes "\<And>a p. P a = Some p \<Longrightarrow> prefix_ok p" "fits P q s a" "fits P (Some a) s' c"
  shows "fits P q s c"
proof (cases q)
  case None
  then show ?thesis using assms(3) by (auto simp: fits_def)
next
  case (Some m)
  then obtain pm pa pc where p: "P m = Some pm" "P a = Some pa" "P c = Some pc" "covers pm pa" "covers pa pc"
      "prefixlen pm < prefixlen pa" "prefixlen pa < prefixlen pc" "prefix_bits pa ! prefixlen pm = s"
    using assms(2,3) by (auto simp: fits_def)
  moreover have "prefix_bits pc ! prefixlen pm = s"
    using covers_nth [OF assms(1) [OF p(2)] p(5,6)] p(8) by simp
  ultimately show ?thesis using Some covers_trans [OF p(4,5)] by (auto simp: fits_def)
qed

lemma tree_slot_of:
  assumes "tree_ok fam P R sl" "sl q s = Some a" "sl q' s' = Some a"
  shows "same_slot q s q' s'"
proof -
  have "q' = q" using tree_okD(5) [OF assms(1,2)] tree_okD(5) [OF assms(1,3)] by simp
  then show ?thesis
    using tree_okD(6) [OF assms(1,2)] tree_okD(6) [OF assms(1,3)] fits_side [of P _ s' a s]
    by (cases q) (auto simp: same_slot_def)
qed

lemma tree_remove:
  assumes tr: "tree_ok fam P R sl" and sl: "sl q s = Some a" and one: "sl (Some a) (\<not> sk) = None"
  shows "tree_ok fam (P(a := None))
    (case sl (Some a) sk of None \<Rightarrow> R(a := None) | Some c \<Rightarrow> R(a := None, c \<mapsto> q))
    (drop_slots a (put_slot q s (sl (Some a) sk) sl))" (is "tree_ok _ ?P ?R ?sl")
proof -
  note D = tree_okD [OF tr]
  have q: "q \<noteq> Some a" "R a = Some q" "a \<in> dom P"
    using D(5,6) [OF sl] by (auto simp: fits_def)
  have k: "R c = Some (Some a)" "c \<noteq> a" "c \<in> dom P" "fits P q s c" if "sl (Some a) sk = Some c" for c
    using D(5,6) [OF that] fits_irrefl [of P a sk c] fits_trans [OF _ D(6) [OF sl], of sk c] D(4)
    by (auto simp: fits_def)
  have 1: "?R c = Some q' \<and> fits ?P q' s' c" if pt: "?sl q' s' = Some c" for q' s' c
  proof -
    have q': "q' \<noteq> Some a" and pt': "put_slot q s (sl (Some a) sk) sl q' s' = Some c"
      using pt by (auto simp: drop_slots_def split: if_splits)
    from pt' show ?thesis
    proof (cases rule: put_slotE)
      case here
      have "fits P q' s' c" using k(4) [OF here(2)] here(1) by (auto simp: fits_def same_slot_def)
      then show ?thesis using here k(2) [OF here(2)] fits_less q' by (simp add: same_slot_def)
    next
      case there
      have "c \<noteq> a" using tree_slot_of [OF tr sl] there by auto
      moreover have "R c = Some q'" "fits P q' s' c" using D(5,6) [OF there(2)] by auto
      moreover have "sl (Some a) sk \<noteq> Some c" using k(1) \<open>R c = Some q'\<close> q' by auto
      ultimately show ?thesis using fits_less q' by (auto split: option.splits)
    qed
  qed
  have 2: "\<exists>s'. ?sl q' s' = Some c" if pr: "?R c = Some q'" for q' c
  proof (cases "sl (Some a) sk = Some c")
    case True
    then have "q' = q" using pr by simp
    then show ?thesis using True q(1) by (auto simp: drop_slots_def put_slot_eq same_slot_def)
  next
    case False
    then have c: "c \<noteq> a" "R c = Some q'" using pr by (auto split: option.splits if_splits)
    then obtain s' where s': "sl q' s' = Some c" using D(7) by blast
    have "q' \<noteq> Some a" using s' one False by (cases "s' = sk") auto
    moreover have "\<not> same_slot q s q' s'" by (rule tree_other_slot [OF tr]) (use s' sl c(1) in simp)
    ultimately have "?sl q' s' = Some c" using s' unfolding drop_slots_def put_slot_eq by simp
    then show ?thesis by blast
  qed
  have dom: "dom ?R = dom ?P" using D(2) q(3) k(2,3) by (auto split: option.splits)
  show ?thesis
  proof (rule tree_okI [OF _ dom _ 1 2])
    show "?sl None s1 = ?sl None s2" for s1 s2 using D(3) [of s1 s2] by (simp add: put_slot_eq drop_slots_def same_slot_def)
  qed (use D(1,4) in \<open>auto split: if_splits\<close>)
qed

subsection \<open>Operations on the view\<close>

text \<open>Besides its place in the tree, a node has a prefix, a lock count and information.\<close>

definition node_data :: "'a route_table \<Rightarrow> nat \<rightharpoonup> prefix \<times> nat \<times> 'a option" where
  "node_data t a = map_option (\<lambda>nd. (n_p nd, n_lock nd, n_info nd)) (nodes t a)"

lemma pfx_node_data: "pfx t = (\<lambda>a. map_option fst (node_data t a))"
  by (rule ext) (simp add: pfx_def node_data_def option.map_comp comp_def)

lemma dom_node_data [simp]: "dom (node_data t) = dom (nodes t)"
  by (auto simp: node_data_def dom_def)

lemma node_dataD:
  assumes "node_data t a = Some (p, k, i)"
  obtains nd where "nodes t a = Some nd" "n_p nd = p" "n_lock nd = k" "n_info nd = i"
  using assms by (auto simp: node_data_def)

lemma node_dataI: "nodes t a = Some nd \<Longrightarrow> node_data t a = Some (n_p nd, n_lock nd, n_info nd)"
  by (simp add: node_data_def)

lemma view_link:
  assumes "nodes t m = Some nm"
  shows "\<exists>t'. modify m (with_link b c) t = Some t' \<and> node_data t' = node_data t \<and> par_of t' = par_of t
    \<and> slot t' = put_slot (Some m) b c (slot t) \<and> t_count t' = t_count t"
  using assms
  by (auto simp: modify_def node_data_def par_of_def slot_def put_slot_def same_slot_def fun_eq_iff split: option.splits)

lemma view_top:
  "node_data (t\<lparr>t_top := c\<rparr>) = node_data t" "par_of (t\<lparr>t_top := c\<rparr>) = par_of t"
  "slot (t\<lparr>t_top := c\<rparr>) = put_slot None s c (slot t)"
  by (auto simp: node_data_def par_of_def slot_def put_slot_def same_slot_def fun_eq_iff split: option.splits)

lemma view_count [simp]:
  "node_data (t\<lparr>t_count := k\<rparr>) = node_data t" "par_of (t\<lparr>t_count := k\<rparr>) = par_of t"
  "slot (t\<lparr>t_count := k\<rparr>) = slot t"
  by (auto simp: node_data_def par_of_def slot_def fun_eq_iff split: option.splits)

lemma view_parent:
  assumes "nodes t a = Some na"
  shows "\<exists>t'. modify a (\<lambda>x. x\<lparr>n_parent := q\<rparr>) t = Some t' \<and> node_data t' = node_data t
    \<and> par_of t' = (par_of t)(a \<mapsto> q) \<and> slot t' = slot t \<and> t_count t' = t_count t"
  using assms by (auto simp: modify_def node_data_def par_of_def slot_def fun_eq_iff split: option.splits)

lemma view_data:
  assumes "nodes t a = Some na" "\<And>nd b. link (f nd) b = link nd b" "\<And>nd. n_parent (f nd) = n_parent nd"
  shows "\<exists>t'. modify a f t = Some t' \<and> node_data t' = (node_data t)(a \<mapsto> (n_p (f na), n_lock (f na), n_info (f na)))
    \<and> par_of t' = par_of t \<and> slot t' = slot t \<and> t_count t' = t_count t \<and> nodes t' a = Some (f na)"
  using assms by (auto simp: modify_def node_data_def par_of_def slot_def fun_eq_iff split: option.splits)

lemma view_new:
  assumes "nodes t new = None"
  shows "node_data (route_node_new new t) = (node_data t)(new \<mapsto> (prefix_new, 0, None))"
    "par_of (route_node_new new t) = (par_of t)(new \<mapsto> None)" "slot (route_node_new new t) = slot t"
    "t_count (route_node_new new t) = t_count t"
  using assms
  by (auto simp: route_node_new_def route_node_create_def node_data_def par_of_def slot_def link_def fun_eq_iff split: option.splits)

lemma view_free:
  "node_data (route_node_free a t) = (node_data t)(a := None)" "par_of (route_node_free a t) = (par_of t)(a := None)"
  "slot (route_node_free a t) = drop_slots a (slot t)" "t_count (route_node_free a t) = t_count t"
  by (auto simp: route_node_free_def node_data_def par_of_def slot_def drop_slots_def fun_eq_iff split: option.splits)

lemma set_link_view:
  assumes "nodes t m = Some nm" "nodes t c = Some nc" "m \<noteq> c" "prefix_bit (u_prefix (n_p nc)) (klen nm) = Some b"
  shows "\<exists>t'. set_link m c t = Some t' \<and> node_data t' = node_data t \<and> par_of t' = (par_of t)(c \<mapsto> Some m)
    \<and> slot t' = put_slot (Some m) b (Some c) (slot t) \<and> t_count t' = t_count t"
proof -
  from view_link [OF assms(1), of b "Some c"] obtain t1 where
    t1: "modify m (with_link b (Some c)) t = Some t1" "node_data t1 = node_data t" "par_of t1 = par_of t"
      "slot t1 = put_slot (Some m) b (Some c) (slot t)" "t_count t1 = t_count t" by blast
  have "nodes t1 c = Some nc" using t1(1) assms(1-3) by (auto simp: modify_def)
  from view_parent [OF this, of "Some m"] obtain t2 where
    "modify c (\<lambda>x. x\<lparr>n_parent := Some m\<rparr>) t1 = Some t2" "node_data t2 = node_data t1"
    "par_of t2 = (par_of t1)(c \<mapsto> Some m)" "slot t2 = slot t1" "t_count t2 = t_count t1" by blast
  then show ?thesis using t1 assms by (auto simp: set_link_def)
qed

subsection \<open>Insertion\<close>

lemma prefix_copy_spec:
  assumes p: "prefix_ok p" and d: "length (u_prefix d) = 16"
  shows "\<exists>q. prefix_copy d p = Some q \<and> prefix_ok q \<and> family q = family p
    \<and> prefixlen q = prefixlen p \<and> prefix_bits q = prefix_bits p"
proof (cases "family p = FAM_INET")
  case True
  let ?u = "take 4 (u_prefix p) @ drop 4 (u_prefix d)"
  have l: "length (u_prefix p) = 16" "prefixlen p \<le> 32" using p True by (auto simp: prefix_ok_def)
  have "take (prefixlen p) (addr_bits ?u) = take (prefixlen p) (addr_bits (take 4 (u_prefix p)))"
    using l by (simp add: d)
  also have "addr_bits (take 4 (u_prefix p)) = take 32 (addr_bits (u_prefix p))"
    using l take_addr_bits [of 4 "u_prefix p"] by simp
  also have "take (prefixlen p) (take 32 (addr_bits (u_prefix p))) = take (prefixlen p) (addr_bits (u_prefix p))"
    using l by (simp add: min_absorb1)
  finally show ?thesis using p True l
    by (simp add: prefix_copy_def prefix_bits_def prefix_ok_def d)
next
  case False
  then have "family p = FAM_INET6" using p by (auto simp: prefix_ok_def)
  then show ?thesis using p by (auto simp: prefix_copy_def prefix_ok_def prefix_bits_def)
qed

lemma prefix_copy_new:
  assumes "prefix_ok p"
  shows "\<exists>q. prefix_copy prefix_new p = Some q \<and> prefix_ok q \<and> family q = family p
    \<and> prefixlen q = prefixlen p \<and> prefix_bits q = prefix_bits p"
  by (rule prefix_copy_spec [OF assms]) (simp add: prefix_new_def)

text \<open>The slot in which a node with the prefix \<open>p\<close> belongs.\<close>

definition fits_at :: "(nat \<rightharpoonup> prefix) \<Rightarrow> nat option \<Rightarrow> bool \<Rightarrow> prefix \<Rightarrow> bool" where
  "fits_at P q s p \<longleftrightarrow> (\<forall>m. q = Some m \<longrightarrow> (\<exists>pm. P m = Some pm \<and> covers pm p
      \<and> prefixlen pm < prefixlen p \<and> prefix_bits p ! prefixlen pm = s))"

lemma place_fits: "place_at t p mat o1 \<Longrightarrow> \<exists>s. fits_at (pfx t) mat s p \<and> slot t mat s = o1"
  by (cases mat) (auto simp: fits_at_def slot_def pfx_def)

lemma fits_at_fits: "fits_at P q s p \<Longrightarrow> new \<notin> dom P \<Longrightarrow> fits (P(new \<mapsto> p)) q s new"
  by (auto simp: fits_def fits_at_def)

lemma fits_at_more: "fits_at P q s p \<Longrightarrow> new \<notin> dom P \<Longrightarrow> fits_at (P(new \<mapsto> r)) q s p"
  by (auto simp: fits_at_def)

lemma fits_at_cong:
  "prefix_bits p' = prefix_bits p \<Longrightarrow> prefixlen p' = prefixlen p \<Longrightarrow> fits_at P q s p' = fits_at P q s p"
  by (simp add: fits_at_def covers_def)

lemma attach_view:
  assumes "node_data t new = Some (p, k, i)" "prefix_ok p" "par_of t new = Some None" "fits_at (pfx t) q s p"
  shows "\<exists>t'. attach q new t = Some t' \<and> node_data t' = node_data t \<and> par_of t' = (par_of t)(new \<mapsto> q)
    \<and> slot t' = put_slot q s (Some new) (slot t) \<and> t_count t' = t_count t"
proof (cases q)
  case None
  then have "(par_of t)(new \<mapsto> None) = par_of t" using assms(3) by (simp add: map_upd_triv)
  then show ?thesis using None by (simp add: attach_def view_top(1,2) view_top(3) [where s = s])
next
  case (Some m)
  obtain nw where nw: "nodes t new = Some nw" "n_p nw = p" using assms(1) by (auto elim: node_dataD)
  obtain nm where m: "nodes t m = Some nm" "klen nm < prefixlen p" "prefix_bits p ! klen nm = s"
    using assms(4) Some by (auto simp: fits_at_def pfx_def)
  have "m \<noteq> new" using m nw by auto
  from set_link_view [OF m(1) nw(1) this] show ?thesis
    using prefix_bit_prefix [OF assms(2) m(2)] m(3) nw(2) Some by (auto simp: attach_def)
qed

text \<open>A new node that is not linked yet.\<close>

lemma fresh_node:
  assumes "nodes t new = None"
  shows "\<exists>t'. modify new (\<lambda>nd. nd\<lparr>n_p := p\<rparr>) (route_node_new new t) = Some t'
    \<and> node_data t' = (node_data t)(new \<mapsto> (p, 0, None)) \<and> par_of t' = (par_of t)(new \<mapsto> None)
    \<and> slot t' = slot t \<and> t_count t' = t_count t"
  using view_data [of "route_node_new new t" new route_node_create "\<lambda>nd. nd\<lparr>n_p := p\<rparr>"] view_new [OF assms]
  by (auto simp: route_node_new_def route_node_create_def)

lemma insert_leaf_spec:
  assumes sh: "trie_shape fam t" and new: "nodes t new = None" and p: "prefix_ok p" "family p = fam"
    and at: "fits_at (pfx t) q s p" "slot t q s = None"
  shows "\<exists>t' p'. insert_leaf q new p t = Some t' \<and> trie_shape fam t' \<and> prefix_bits p' = prefix_bits p
    \<and> node_data t' = (node_data t)(new \<mapsto> (p', 0, None)) \<and> slot t' = put_slot q s (Some new) (slot t)
    \<and> t_count t' = t_count t"
proof -
  obtain p' where p': "prefix_copy prefix_new p = Some p'" "prefix_ok p'" "family p' = family p"
    "prefixlen p' = prefixlen p" "prefix_bits p' = prefix_bits p" using prefix_copy_new [OF p(1)] by blast
  have nd: "new \<notin> dom (pfx t)" using new by (simp add: domIff)
  from fresh_node [OF new] obtain t2 where
    t2: "modify new (\<lambda>nd. nd\<lparr>n_p := p'\<rparr>) (route_node_new new t) = Some t2"
      "node_data t2 = (node_data t)(new \<mapsto> (p', 0, None))" "par_of t2 = (par_of t)(new \<mapsto> None)"
      "slot t2 = slot t" "t_count t2 = t_count t" by blast
  have pfx2: "pfx t2 = (pfx t)(new \<mapsto> p')" using t2(2) by (auto simp: pfx_node_data)
  have at': "fits_at (pfx t) q s p'" using at(1) fits_at_cong [OF p'(5,4)] by blast
  then have "fits_at (pfx t2) q s p'" unfolding pfx2 by (rule fits_at_more [OF _ nd])
  with t2(2,3) p'(2) obtain t3 where t3: "attach q new t2 = Some t3" "node_data t3 = node_data t2"
    "par_of t3 = (par_of t2)(new \<mapsto> q)" "slot t3 = put_slot q s (Some new) (slot t2)" "t_count t3 = t_count t2"
    using attach_view [of t2 new p' 0 None q s] by auto
  have "tree_ok fam ((pfx t)(new \<mapsto> p')) ((par_of t)(new \<mapsto> q)) (put_slot q s (Some new) (slot t))"
    using tree_leaf [OF sh [unfolded trie_shape_tree] nd p'(2) _ at(2) fits_at_fits [OF at' nd]] p p'(3) by simp
  moreover have "pfx t3 = (pfx t)(new \<mapsto> p')" using t3(2) pfx2 by (simp add: pfx_node_data)
  ultimately have "trie_shape fam t3" using t3 t2 by (simp add: trie_shape_tree)
  then show ?thesis using t3 t2 p' by (auto simp: insert_leaf_def route_node_set_def)
qed

text \<open>The prefix of the inner node that separates \<open>n\<close> and \<open>p\<close>.\<close>

lemma branch_prefix:
  assumes n: "prefix_ok n" and p: "prefix_ok p" and nc: "\<not> covers n p"
  shows "\<exists>r. route_common n p prefix_new = Some r \<and> prefix_ok (r\<lparr>family := family p\<rparr>)
    \<and> covers (r\<lparr>family := family p\<rparr>) p \<and> covers (r\<lparr>family := family p\<rparr>) n
    \<and> prefixlen r < prefixlen n \<and> (prefixlen r < prefixlen p \<longrightarrow> prefix_bits n ! prefixlen r \<noteq> prefix_bits p ! prefixlen r)"
proof -
  obtain r where r: "route_common n p prefix_new = Some r" "length (u_prefix r) = 16" "prefixlen r \<le> prefixlen p"
      "prefix_bits r = take (prefixlen r) (addr_bits (u_prefix p))"
      "take (prefixlen r) (addr_bits (u_prefix n)) = take (prefixlen r) (addr_bits (u_prefix p))"
      "prefixlen r < prefixlen p \<longrightarrow> addr_bits (u_prefix n) ! prefixlen r \<noteq> addr_bits (u_prefix p) ! prefixlen r"
    using route_common_spec [OF n p, of prefix_new] by (auto simp: prefix_new_def)
  have bits: "prefix_bits (r\<lparr>family := f\<rparr>) = prefix_bits r" for f by (simp add: prefix_bits_def)
  have less: "prefixlen r < prefixlen n"
  proof (rule ccontr)
    assume "\<not> prefixlen r < prefixlen n"
    then have le: "prefixlen n \<le> prefixlen r" by simp
    have "take (prefixlen n) (addr_bits (u_prefix n)) = take (prefixlen n) (addr_bits (u_prefix p))"
      using arg_cong [OF r(5), of "take (prefixlen n)"] le by (simp add: min_absorb1)
    then have "covers n p" using le r(3) by (simp add: covers_def prefix_bits_def min_absorb1)
    then show False using nc by simp
  qed
  have "covers (r\<lparr>family := family p\<rparr>) p" "covers (r\<lparr>family := family p\<rparr>) n"
    using r(3-5) less by (simp_all add: covers_def bits) (simp_all add: prefix_bits_def min_absorb1)
  moreover have "prefix_ok (r\<lparr>family := family p\<rparr>)" using p r(2,3) by (auto simp: prefix_ok_def)
  moreover have "prefix_bits n ! prefixlen r \<noteq> prefix_bits p ! prefixlen r" if "prefixlen r < prefixlen p"
    using that r(6) less by (simp add: prefix_bits_def)
  ultimately show ?thesis using r(1) less by blast
qed

lemma branch_below:
  assumes ok: "prefix_ok g" "prefix_ok nb" "prefix_ok p" "prefix_ok nm"
    and m: "covers nm p" "prefixlen nm < prefixlen p" "covers nm nb" "prefixlen nm < prefixlen nb"
      "prefix_bits nb ! prefixlen nm = prefix_bits p ! prefixlen nm"
    and g: "covers g p" "prefixlen g < prefixlen p \<longrightarrow> prefix_bits nb ! prefixlen g \<noteq> prefix_bits p ! prefixlen g"
  shows "covers nm g \<and> prefixlen nm < prefixlen g \<and> prefix_bits g ! prefixlen nm = prefix_bits p ! prefixlen nm"
proof -
  have "prefixlen nm < prefixlen g"
  proof (rule ccontr)
    assume "\<not> prefixlen nm < prefixlen g"
    then have le: "prefixlen g \<le> prefixlen nm" by simp
    have "prefix_bits nb ! prefixlen g = prefix_bits p ! prefixlen g"
    proof (cases "prefixlen g = prefixlen nm")
      case False
      then have "prefixlen g < prefixlen nm" using le by simp
      then show ?thesis using covers_nth [OF ok(4) m(1)] covers_nth [OF ok(4) m(3)] by simp
    qed (use m(5) in simp)
    then show False using g(2) le m(2) by simp
  qed
  then show ?thesis using covers_linear [OF m(1) g(1)] covers_nth [OF ok(1) g(1)] by simp
qed

lemma slot_Some:
  assumes "trie_shape fam t" "slot t q s = Some b"
  shows "par_of t b = Some q" "fits (pfx t) q s b"
  using tree_okD(5,6) [OF assms(1) [unfolded trie_shape_tree] assms(2)] by auto

lemma insert_branch_spec:
  assumes sh: "trie_shape fam t" and new: "nodes t new = None" and p: "prefix_ok p" "family p = fam"
    and at: "fits_at (pfx t) q s p" "slot t q s = Some b" and nb: "nodes t b = Some nb" "\<not> covers (n_p nb) p"
  shows "\<exists>t' g. insert_branch q b new p t = Some (g, t') \<and> trie_shape fam t'
    \<and> prefix_ok g \<and> family g = fam \<and> covers g p \<and> prefixlen g < klen nb
    \<and> (prefixlen g < prefixlen p \<longrightarrow> prefix_bits p ! prefixlen g = (\<not> key nb ! prefixlen g))
    \<and> node_data t' = (node_data t)(new \<mapsto> (g, 0, None))
    \<and> slot t' = put_slot q s (Some new) (put_slot (Some new) (key nb ! prefixlen g) (Some b) (slot t))
    \<and> t_count t' = t_count t"
proof -
  have okb: "prefix_ok (n_p nb)" by (rule trie_inv_prefix [OF sh nb(1)])
  from branch_prefix [OF okb p(1) nb(2)] obtain r where r: "route_common (n_p nb) p prefix_new = Some r"
      "prefix_ok (r\<lparr>family := family p\<rparr>)" "covers (r\<lparr>family := family p\<rparr>) p" "covers (r\<lparr>family := family p\<rparr>) (n_p nb)"
      "prefixlen r < klen nb" "prefixlen r < prefixlen p \<longrightarrow> key nb ! prefixlen r \<noteq> prefix_bits p ! prefixlen r" by blast
  define g sb where "g = r\<lparr>family := family p\<rparr>" and "sb = (key nb ! prefixlen g)"
  have g: "prefix_ok g" "covers g p" "covers g (n_p nb)" "prefixlen g < klen nb" "family g = fam"
      "prefixlen g < prefixlen p \<longrightarrow> key nb ! prefixlen g \<noteq> prefix_bits p ! prefixlen g"
    using r p(2) by (simp_all add: g_def)
  have nd: "new \<notin> dom (pfx t)" using new by (simp add: domIff)
  have bn: "b \<noteq> new" using new nb(1) by auto
  from fresh_node [OF new] obtain t2 where t2: "modify new (\<lambda>nd. nd\<lparr>n_p := g\<rparr>) (route_node_new new t) = Some t2"
      "node_data t2 = (node_data t)(new \<mapsto> (g, 0, None))" "par_of t2 = (par_of t)(new \<mapsto> None)"
      "slot t2 = slot t" "t_count t2 = t_count t" by blast
  have "node_data t2 new = Some (g, 0, None)" "node_data t2 b = Some (n_p nb, n_lock nb, n_info nb)"
    using node_dataI [OF nb(1)] t2(2) bn by simp_all
  then obtain nw nb2 where nw: "nodes t2 new = Some nw" "n_p nw = g" and nb2: "nodes t2 b = Some nb2" "n_p nb2 = n_p nb"
    by (metis node_dataD)
  from set_link_view [OF nw(1) nb2(1) bn [symmetric], of sb] obtain t3 where
    t3: "set_link new b t2 = Some t3" "node_data t3 = node_data t2" "par_of t3 = (par_of t2)(b \<mapsto> Some new)"
      "slot t3 = put_slot (Some new) sb (Some b) (slot t2)" "t_count t3 = t_count t2"
    using prefix_bit_prefix [OF okb g(4)] nw(2) nb2(2) by (auto simp: sb_def)
  have pfx3: "pfx t3 = (pfx t)(new \<mapsto> g)" using t3(2) t2(2) by (auto simp: pfx_node_data)
  have at': "fits_at (pfx t) q s g"
  proof (unfold fits_at_def, intro allI impI)
    fix m assume q: "q = Some m"
    then obtain pm where pm: "pfx t m = Some pm" "covers pm p" "prefixlen pm < prefixlen p" "prefix_bits p ! prefixlen pm = s"
      using at(1) by (auto simp: fits_at_def)
    have "covers pm (n_p nb)" "prefixlen pm < klen nb" "key nb ! prefixlen pm = s"
      using slot_Some(2) [OF sh at(2)] q pm(1) nb(1) by (auto simp: fits_def pfx_def)
    moreover have "prefix_ok pm" using pm(1) trie_inv_prefix [OF sh] by (auto simp: pfx_def)
    ultimately show "\<exists>pm. pfx t m = Some pm \<and> covers pm g \<and> prefixlen pm < prefixlen g \<and> prefix_bits g ! prefixlen pm = s"
      using branch_below [OF g(1) okb p(1) _ pm(2,3)] g(2,6) pm by auto
  qed
  have "fits_at (pfx t3) q s g" unfolding pfx3 by (rule fits_at_more [OF at' nd])
  moreover have "node_data t3 new = Some (g, 0, None)" "par_of t3 new = Some None" using t3 t2 bn by simp_all
  ultimately obtain t4 where t4: "attach q new t3 = Some t4" "node_data t4 = node_data t3" "par_of t4 = (par_of t3)(new \<mapsto> q)"
      "slot t4 = put_slot q s (Some new) (slot t3)" "t_count t4 = t_count t3"
    using attach_view [of t3 new g 0 None q s] g(1) by auto
  have "fits ((pfx t)(new \<mapsto> g)) (Some new) sb b" using nb(1) bn g(3,4) by (simp add: fits_def pfx_def sb_def domIff)
  then have "tree_ok fam ((pfx t)(new \<mapsto> g)) ((par_of t)(new \<mapsto> q, b \<mapsto> Some new))
      (put_slot q s (Some new) (put_slot (Some new) sb (Some b) (slot t)))"
    by (rule tree_branch [OF sh [unfolded trie_shape_tree] nd g(1,5) at(2) fits_at_fits [OF at' nd]])
  moreover have "pfx t4 = (pfx t)(new \<mapsto> g)" using t4(2) pfx3 by (simp add: pfx_node_data)
  moreover have "par_of t4 = (par_of t)(new \<mapsto> q, b \<mapsto> Some new)" using t4(3) t3(3) t2(3) bn by auto
  ultimately have "trie_shape fam t4" using t4 t3 t2 by (simp add: trie_shape_tree)
  moreover have "insert_branch q b new p t = Some (g, t4)"
    using r(1) t2(1) t3(1) t4(1) nb(1) by (simp add: insert_branch_def g_def [symmetric])
  ultimately show ?thesis using t4 t3 t2 g by (auto simp: sb_def)
qed

subsection \<open>Removal\<close>

lemma slot_parent:
  assumes "trie_shape fam t" "nodes t a = Some na"
  shows "\<exists>s. slot t (n_parent na) s = Some a"
  using tree_okD(7) [OF assms(1) [unfolded trie_shape_tree], of a "n_parent na"] assms(2) by (simp add: par_of_def)

lemma slot_left_right: "nodes t a = Some na \<Longrightarrow> slot t (Some a) b = (if b then l_right na else l_left na)"
  by (simp add: slot_def link_def)

lemma unlink_node_spec:
  assumes sh: "trie_shape fam t" and a: "nodes t a = Some na" and one: "l_left na = None \<or> l_right na = None"
  shows "\<exists>t' s. unlink_node a na t = Some t' \<and> trie_shape fam t' \<and> slot t (n_parent na) s = Some a
    \<and> node_data t' = (node_data t)(a := None)
    \<and> slot t' = drop_slots a (put_slot (n_parent na) s (if l_left na \<noteq> None then l_left na else l_right na) (slot t))
    \<and> t_count t' = t_count t - 1"
proof -
  define child sk where "child = (if l_left na \<noteq> None then l_left na else l_right na)" and "sk = (l_left na = None)"
  have sl: "slot t (Some a) sk = child" "slot t (Some a) (\<not> sk) = None"
    using one by (auto simp: child_def sk_def slot_left_right [OF a])
  have "\<exists>t1. (case child of None \<Rightarrow> Some t | Some c \<Rightarrow> modify c (\<lambda>x. x\<lparr>n_parent := n_parent na\<rparr>) t) = Some t1
      \<and> node_data t1 = node_data t \<and> slot t1 = slot t \<and> t_count t1 = t_count t
      \<and> par_of t1 = (case child of None \<Rightarrow> par_of t | Some c \<Rightarrow> (par_of t)(c \<mapsto> n_parent na))"
  proof (cases child)
    case (Some c)
    then obtain nc where "nodes t c = Some nc" using slot_Some(2) [OF sh] sl(1) by (force simp: fits_def)
    then show ?thesis using view_parent [of t c nc "n_parent na"] Some by auto
  qed simp
  then obtain t1 where t1: "(case child of None \<Rightarrow> Some t | Some c \<Rightarrow> modify c (\<lambda>x. x\<lparr>n_parent := n_parent na\<rparr>) t) = Some t1"
      "node_data t1 = node_data t" "slot t1 = slot t" "t_count t1 = t_count t"
      "par_of t1 = (case child of None \<Rightarrow> par_of t | Some c \<Rightarrow> (par_of t)(c \<mapsto> n_parent na))" by blast
  have "\<exists>t2 s. (case n_parent na of None \<Rightarrow> Some (t1\<lparr>t_top := child\<rparr>)
        | Some q \<Rightarrow> modify q (\<lambda>x. with_link (l_left x \<noteq> Some a) child x) t1) = Some t2
      \<and> slot t (n_parent na) s = Some a \<and> node_data t2 = node_data t1 \<and> par_of t2 = par_of t1
      \<and> slot t2 = put_slot (n_parent na) s child (slot t1) \<and> t_count t2 = t_count t1"
  proof (cases "n_parent na")
    case None
    then obtain s where "slot t None s = Some a" using slot_parent [OF sh a] by auto
    then show ?thesis using None by (auto simp: view_top(1,2) view_top(3) [where s = s])
  next
    case (Some q)
    obtain s where s: "slot t (Some q) s = Some a" using slot_parent [OF sh a] Some by auto
    then have "q \<in> dom (node_data t1)" using slot_Some(2) [OF sh s] t1(2) by (auto simp: fits_def pfx_node_data simp del: dom_node_data)
    then obtain nq where nq: "nodes t1 q = Some nq" by auto
    have lr: "slot t (Some q) b = (if b then l_right nq else l_left nq)" for b
      using slot_left_right [OF nq] t1(3) by simp
    let ?s = "l_left nq \<noteq> Some a"
    have "slot t (Some q) ?s = Some a" using s lr [of False] lr [of True] by (cases s; cases "l_left nq = Some a") auto
    moreover have "modify q (\<lambda>x. with_link (l_left x \<noteq> Some a) child x) t1 = modify q (with_link ?s child) t1"
      using nq by (simp add: modify_def)
    ultimately show ?thesis using view_link [OF nq, of ?s child] Some by auto
  qed
  then obtain t2 s where t2: "(case n_parent na of None \<Rightarrow> Some (t1\<lparr>t_top := child\<rparr>)
        | Some q \<Rightarrow> modify q (\<lambda>x. with_link (l_left x \<noteq> Some a) child x) t1) = Some t2"
      "slot t (n_parent na) s = Some a" "node_data t2 = node_data t1" "par_of t2 = par_of t1"
      "slot t2 = put_slot (n_parent na) s child (slot t1)" "t_count t2 = t_count t1" by blast
  let ?t3 = "route_node_free a (t2\<lparr>t_count := t_count t2 - 1\<rparr>)"
  have "tree_ok fam ((pfx t)(a := None)) (case child of None \<Rightarrow> (par_of t)(a := None) | Some c \<Rightarrow> (par_of t)(a := None, c \<mapsto> n_parent na))
      (drop_slots a (put_slot (n_parent na) s child (slot t)))"
    using tree_remove [OF sh [unfolded trie_shape_tree] t2(2) sl(2)] sl(1) by simp
  moreover have "pfx ?t3 = (pfx t)(a := None)" using t1(2) t2(3) by (auto simp: pfx_node_data view_free)
  moreover have "child \<noteq> Some a" using slot_Some(2) [OF sh, of "Some a" sk a] sl(1) by (auto simp: fits_def)
  then have "par_of ?t3 = (case child of None \<Rightarrow> (par_of t)(a := None) | Some c \<Rightarrow> (par_of t)(a := None, c \<mapsto> n_parent na))"
    using t1(5) t2(4) by (auto simp: view_free fun_eq_iff split: option.splits)
  moreover have "slot ?t3 = drop_slots a (put_slot (n_parent na) s child (slot t))" using t1(3) t2(5) by (simp add: view_free)
  ultimately have "trie_shape fam ?t3" by (simp add: trie_shape_tree)
  moreover have "unlink_node a na t = Some ?t3"
    unfolding unlink_node_def child_def [symmetric] Let_def using t1(1) t2(1) by simp
  ultimately show ?thesis unfolding child_def [symmetric] using t1(2-4) t2(2-6) by (intro exI [of _ ?t3] exI [of _ s]) (simp add: view_free)
qed

subsection \<open>The invariant of a table in use\<close>

text \<open>
  The clients hold references: the multiset \<open>H\<close> has each node once for each of
  them. A node that nobody holds has no data and two children, as it is there only to branch.
\<close>

definition held :: "nat multiset \<Rightarrow> 'a route_table \<Rightarrow> nat \<Rightarrow> bool" where
  "held H t a \<longleftrightarrow> (\<forall>p k i. node_data t a = Some (p, k, i) \<longrightarrow>
     k = count H a \<and> (k = 0 \<longrightarrow> i = None \<and> slot t (Some a) False \<noteq> None \<and> slot t (Some a) True \<noteq> None))"

definition table_inv :: "nat \<Rightarrow> nat multiset \<Rightarrow> 'a route_table \<Rightarrow> bool" where
  "table_inv fam H t \<longleftrightarrow> trie_shape fam t \<and> t_count t = card (dom (nodes t)) \<and> set_mset H \<subseteq> dom (nodes t) \<and> (\<forall>a. held H t a)"

text \<open>What the table stores: the data of a prefix, given by its bits.\<close>

definition stores :: "'a route_table \<Rightarrow> bool list \<Rightarrow> 'a \<Rightarrow> bool" where
  "stores t k v \<longleftrightarrow> (\<exists>a nd. nodes t a = Some nd \<and> key nd = k \<and> n_info nd = Some v)"

lemma stores_data: "stores t k v \<longleftrightarrow> (\<exists>a p l. node_data t a = Some (p, l, Some v) \<and> prefix_bits p = k)"
proof
  assume "stores t k v"
  then show "\<exists>a p l. node_data t a = Some (p, l, Some v) \<and> prefix_bits p = k"
    unfolding stores_def by (metis node_dataI)
next
  assume "\<exists>a p l. node_data t a = Some (p, l, Some v) \<and> prefix_bits p = k"
  then show "stores t k v" unfolding stores_def by (metis node_dataD)
qed

lemma heldI:
  assumes "\<And>p k i. node_data t a = Some (p, k, i) \<Longrightarrow> k = count H a"
    and "\<And>p i. node_data t a = Some (p, 0, i) \<Longrightarrow> i = None \<and> slot t (Some a) False \<noteq> None \<and> slot t (Some a) True \<noteq> None"
  shows "held H t a"
  using assms by (auto simp: held_def)

lemma heldD:
  assumes "held H t a" "node_data t a = Some (p, k, i)"
  shows "k = count H a" "k = 0 \<Longrightarrow> i = None \<and> slot t (Some a) False \<noteq> None \<and> slot t (Some a) True \<noteq> None"
  using assms by (auto simp: held_def)

lemma held_other:
  assumes "held H t x" "node_data t' x = node_data t x" "\<And>b. slot t (Some x) b \<noteq> None \<Longrightarrow> slot t' (Some x) b \<noteq> None"
    "count H' x = count H x"
  shows "held H' t' x"
  using assms unfolding held_def by auto

lemma table_inv_init: "table_inv fam {#} route_table_init"
  by (simp add: table_inv_def held_def trie_shape_init) (simp add: route_table_init_def node_data_def)

lemma trie_shape_view:
  assumes "trie_shape fam t" "pfx t' = pfx t" "par_of t' = par_of t" "slot t' = slot t"
  shows "trie_shape fam t'"
  using assms by (simp add: trie_shape_tree)

lemma route_lock_view:
  assumes "node_data t a = Some (p, k, i)"
  shows "\<exists>t'. route_lock_node a t = Some t' \<and> node_data t' = (node_data t)(a \<mapsto> (p, k + 1, i))
    \<and> par_of t' = par_of t \<and> slot t' = slot t \<and> t_count t' = t_count t"
proof -
  obtain nd where "nodes t a = Some nd" "n_p nd = p" "n_lock nd = k" "n_info nd = i" by (rule node_dataD [OF assms])
  with view_data [of t a nd "\<lambda>nd. nd\<lparr>n_lock := n_lock nd + 1\<rparr>"] show ?thesis
    by (force simp: route_lock_node_def)
qed

lemma stores_same_info:
  assumes "map_option (\<lambda>(p, k, i). (prefix_bits p, i)) \<circ> node_data t' = map_option (\<lambda>(p, k, i). (prefix_bits p, i)) \<circ> node_data t"
  shows "stores t' = stores t"
proof -
  have "stores u k v \<longleftrightarrow> (\<exists>a. (map_option (\<lambda>(p, k, i). (prefix_bits p, i)) \<circ> node_data u) a = Some (k, Some v))" for u :: "'a route_table" and k v
    by (auto simp: stores_data)
  then show ?thesis unfolding fun_eq_iff using assms by metis
qed

lemma stores_remove:
  assumes "node_data t a = Some (p, k, None)" "node_data t' = (node_data t)(a := None)"
  shows "stores t' = stores t"
proof -
  have "node_data t' x = Some (q, l, Some v) \<longleftrightarrow> node_data t x = Some (q, l, Some v)" for x q l v
    using assms by auto
  then show ?thesis by (simp add: fun_eq_iff stores_data)
qed

lemma stores_add:
  assumes "a \<notin> dom (nodes t)" "node_data t' = (node_data t)(a \<mapsto> (p, k, None))"
  shows "stores t' = stores t"
proof -
  have "node_data t a = None" using assms(1) by (metis dom_node_data domIff)
  then have "node_data t' x = Some (q, l, Some v) \<longleftrightarrow> node_data t x = Some (q, l, Some v)" for x q l v
    using assms(2) by auto
  then show ?thesis by (simp add: fun_eq_iff stores_data)
qed

lemma delete_eqs:
  "nodes t a = Some nd \<Longrightarrow> n_lock nd = 0 \<Longrightarrow> n_info nd = None \<Longrightarrow> l_left nd \<noteq> None \<Longrightarrow> l_right nd \<noteq> None \<Longrightarrow>
     route_node_delete a t = Some t"
  "nodes t a = Some nd \<Longrightarrow> n_lock nd = 0 \<Longrightarrow> n_info nd = None \<Longrightarrow> l_left nd = None \<or> l_right nd = None \<Longrightarrow>
     unlink_node a nd t = Some t1 \<Longrightarrow> n_parent nd = None \<Longrightarrow> route_node_delete a t = Some t1"
  "nodes t a = Some nd \<Longrightarrow> n_lock nd = 0 \<Longrightarrow> n_info nd = None \<Longrightarrow> l_left nd = None \<or> l_right nd = None \<Longrightarrow>
     unlink_node a nd t = Some t1 \<Longrightarrow> n_parent nd = Some q \<Longrightarrow> nodes t1 q = Some nq \<Longrightarrow>
     route_node_delete a t = (if n_lock nq = 0 then route_node_delete q t1 else Some t1)"
  by (subst route_node_delete.simps, auto)+

lemma slot_parent_in:
  assumes "trie_shape fam t" "slot t (Some q) s = Some a"
  shows "q \<noteq> a" "q \<in> dom (nodes t)"
proof -
  obtain pq where "pfx t q = Some pq" using slot_Some(2) [OF assms] by (auto simp: fits_def)
  then show "q \<in> dom (nodes t)" by (auto simp: pfx_def)
  show "q \<noteq> a" using slot_Some(2) [OF assms] by (auto simp: fits_def)
qed

lemma unlink_node_inv:
  assumes sh: "trie_shape fam t" and cnt: "t_count t = card (dom (nodes t))" and H: "set_mset H \<subseteq> dom (nodes t)" "count H a = 0"
    and held: "\<And>x. x \<noteq> a \<Longrightarrow> held H t x" and a: "nodes t a = Some na" "n_info na = None"
    and one: "l_left na = None \<or> l_right na = None"
  obtains t1 where "unlink_node a na t = Some t1" "trie_shape fam t1" "t_count t1 = card (dom (nodes t1))"
    "card (dom (nodes t1)) < card (dom (nodes t))" "set_mset H \<subseteq> dom (nodes t1)" "stores t1 = stores t"
    "\<And>x. Some x \<noteq> n_parent na \<Longrightarrow> held H t1 x"
    "\<And>q. n_parent na = Some q \<Longrightarrow> q \<noteq> a \<and> q \<in> dom (nodes t1) \<and> node_data t1 q = node_data t q"
proof -
  define child where "child = (if l_left na \<noteq> None then l_left na else l_right na)"
  from unlink_node_spec [OF sh a(1) one, folded child_def] obtain t1 s where
    t1: "unlink_node a na t = Some t1" "trie_shape fam t1" "slot t (n_parent na) s = Some a"
      "node_data t1 = (node_data t)(a := None)" "slot t1 = drop_slots a (put_slot (n_parent na) s child (slot t))"
      "t_count t1 = t_count t - 1" by blast
  have dom1: "dom (nodes t1) = dom (nodes t) - {a}"
    using t1(4) dom_node_data [of t1] dom_node_data [of t] by auto
  have ain: "a \<in> dom (nodes t)" "finite (dom (nodes t))" using a(1) trie_inv_finite [OF sh] by blast+
  then have card: "card (dom (nodes t1)) < card (dom (nodes t))" "t_count t1 = card (dom (nodes t1))"
    using cnt t1(6) card_Diff1_less [OF ain(2,1)] card_Diff_singleton [OF ain(1)] by (simp_all add: dom1)
  have "held H t1 x" if "Some x \<noteq> n_parent na" for x
  proof (cases "x = a")
    case True
    then show ?thesis using t1(4) by (simp add: held_def)
  next
    case False
    then show ?thesis using that held [OF False] t1(4,5)
      by (auto intro!: held_other [of H t x] simp: drop_slots_def put_slot_def same_slot_def)
  qed
  moreover have "q \<noteq> a \<and> q \<in> dom (nodes t1) \<and> node_data t1 q = node_data t q" if "n_parent na = Some q" for q
    using slot_parent_in [OF sh t1(3) [unfolded that]] dom1 t1(4) by simp
  moreover have "stores t1 = stores t" by (rule stores_remove [OF node_dataI [OF a(1), unfolded a(2)] t1(4)])
  moreover have "set_mset H \<subseteq> dom (nodes t1)" using H dom1 by (auto simp: count_eq_zero_iff)
  ultimately show ?thesis using that [OF t1(1,2) card(2,1)] by blast
qed

text \<open>
  Deleting a node that is out of use returns, restores the invariant and loses no data.
\<close>

lemma route_node_delete_spec:
  assumes "trie_shape fam t" "t_count t = card (dom (nodes t))" "set_mset H \<subseteq> dom (nodes t)"
    "\<And>x. x \<noteq> a \<Longrightarrow> held H t x" "node_data t a = Some (p, 0, None)" "count H a = 0"
  shows "\<exists>t'. route_node_delete a t = Some t' \<and> table_inv fam H t' \<and> stores t' = stores t"
  using assms
proof (induction "card (dom (nodes t))" arbitrary: t a p rule: less_induct)
  case less
  obtain na where na: "nodes t a = Some na" "n_p na = p" "n_lock na = 0" "n_info na = None"
    by (rule node_dataD [OF less.prems(5)]) blast
  show ?case
  proof (cases "l_left na \<noteq> None \<and> l_right na \<noteq> None")
    case True
    then have "held H t a" using less.prems(5,6) by (auto simp: held_def slot_left_right [OF na(1)])
    then have "table_inv fam H t" using less.prems unfolding table_inv_def by metis
    then show ?thesis using delete_eqs(1) [OF na(1,3,4)] True by simp
  next
    case False
    then have one: "l_left na = None \<or> l_right na = None" by blast
    obtain t1 where t1: "unlink_node a na t = Some t1" "trie_shape fam t1" "t_count t1 = card (dom (nodes t1))"
        "card (dom (nodes t1)) < card (dom (nodes t))" "set_mset H \<subseteq> dom (nodes t1)" "stores t1 = stores t"
      and held1: "\<And>x. Some x \<noteq> n_parent na \<Longrightarrow> held H t1 x"
      and par1: "\<And>q. n_parent na = Some q \<Longrightarrow> q \<noteq> a \<and> q \<in> dom (nodes t1) \<and> node_data t1 q = node_data t q"
      by (rule unlink_node_inv [OF less.prems(1-3,6,4) na(1,4) one]) blast+
    show ?thesis
    proof (cases "n_parent na")
      case None
      then have "table_inv fam H t1" using t1 held1 by (simp add: table_inv_def)
      then show ?thesis using delete_eqs(2) [OF na(1,3,4) one t1(1) None] t1(6) by simp
    next
      case (Some q)
      obtain nq where nq: "nodes t1 q = Some nq" using par1 [OF Some] by blast
      have q1: "node_data t1 q = Some (n_p nq, n_lock nq, n_info nq)" by (rule node_dataI [OF nq])
      have "q \<noteq> a" "node_data t q = Some (n_p nq, n_lock nq, n_info nq)" using q1 par1 [OF Some] by auto
      note hq = heldD [OF less.prems(4) [OF this(1)] this(2)]
      have heldx: "held H t1 x" if "x \<noteq> q" for x using held1 [of x] that Some by simp
      have "\<exists>t'. (if n_lock nq = 0 then route_node_delete q t1 else Some t1) = Some t' \<and> table_inv fam H t' \<and> stores t' = stores t1"
      proof (cases "n_lock nq = 0")
        case True
        then have "node_data t1 q = Some (n_p nq, 0, None)" "count H q = 0" using q1 hq by auto
        from less.hyps [OF t1(4,2,3,5) heldx this] True show ?thesis by simp
      next
        case False
        then have "held H t1 q" using q1 hq(1) unfolding held_def by (metis option.inject prod.inject)
        then have "\<forall>x. held H t1 x" using heldx by metis
        then show ?thesis using False t1 by (simp add: table_inv_def)
      qed
      then show ?thesis using delete_eqs(3) [OF na(1,3,4) one t1(1) Some nq] t1(6) by simp
    qed
  qed
qed

subsection \<open>The operations of the clients\<close>

lemma table_invD:
  assumes "table_inv fam H t"
  shows "trie_shape fam t" "t_count t = card (dom (nodes t))" "set_mset H \<subseteq> dom (nodes t)" "held H t a"
  using assms by (auto simp: table_inv_def)

lemma table_invI:
  assumes "trie_shape fam t" "t_count t = card (dom (nodes t))" "set_mset H \<subseteq> dom (nodes t)" "\<And>a. held H t a"
  shows "table_inv fam H t"
  using assms by (simp add: table_inv_def)

lemma held_pos: "node_data t a = Some (p, k, i) \<Longrightarrow> k = count H a \<Longrightarrow> k \<noteq> 0 \<Longrightarrow> held H t a"
  unfolding held_def by (metis option.inject prod.inject)

lemma same_dom: "node_data t' = (node_data t)(a \<mapsto> d) \<Longrightarrow> dom (nodes t') = insert a (dom (nodes t))"
  using dom_node_data [of t'] by simp

text \<open>A lock is a new reference to a node.\<close>

lemma route_lock_spec:
  assumes sh: "trie_shape fam t" and cnt: "t_count t = card (dom (nodes t))" and H: "set_mset H \<subseteq> dom (nodes t)"
    and held: "\<And>x. x \<noteq> a \<Longrightarrow> held H t x" and a: "node_data t a = Some (p, count H a, i)"
  shows "\<exists>t'. route_lock_node a t = Some t' \<and> table_inv fam (add_mset a H) t' \<and> stores t' = stores t
    \<and> node_data t' = (node_data t)(a \<mapsto> (p, count H a + 1, i))"
proof -
  obtain t' where t': "route_lock_node a t = Some t'" "node_data t' = (node_data t)(a \<mapsto> (p, count H a + 1, i))"
    "par_of t' = par_of t" "slot t' = slot t" "t_count t' = t_count t" using route_lock_view [OF a] by blast
  have ain: "a \<in> dom (nodes t)" using a by (metis dom_node_data domI)
  have dom: "dom (nodes t') = dom (nodes t)" using same_dom [OF t'(2)] ain by (simp add: insert_absorb)
  have "pfx t' = pfx t" using t'(2) a by (auto simp: pfx_node_data)
  then have sh': "trie_shape fam t'" using trie_shape_view [OF sh] t'(3,4) by blast
  have "held (add_mset a H) t' x" for x
  proof (cases "x = a")
    case True
    then show ?thesis using t'(2) by (simp add: held_def)
  next
    case False
    then show ?thesis using held_other [OF held [OF False]] t'(2,4) by simp
  qed
  moreover have "stores t' = stores t" by (rule stores_same_info) (use t'(2) a in \<open>auto simp: fun_eq_iff\<close>)
  ultimately show ?thesis using table_invI [OF sh'] t'(1,2,5) dom cnt H ain by simp
qed

text \<open>Releasing a reference: the last one of a node without data deletes it.\<close>

lemma route_unlock_node_spec:
  assumes inv: "table_inv fam (add_mset a H) t" and i: "node_data t a = Some (p, k, i)" "a \<in># H \<or> i = None"
  shows "\<exists>t'. route_unlock_node a t = Some t' \<and> table_inv fam H t' \<and> stores t' = stores t"
proof -
  note I = table_invD [OF inv]
  have k: "k = Suc (count H a)" using heldD(1) [OF I(4) i(1)] by simp
  obtain na where na: "nodes t a = Some na" "n_p na = p" "n_lock na = k" "n_info na = i" by (rule node_dataD [OF i(1)])
  obtain t1 where t1: "modify a (\<lambda>nd. nd\<lparr>n_lock := n_lock nd - 1\<rparr>) t = Some t1"
      "node_data t1 = (node_data t)(a \<mapsto> (p, count H a, i))" "par_of t1 = par_of t" "slot t1 = slot t" "t_count t1 = t_count t"
    using view_data [of t a na "\<lambda>nd. nd\<lparr>n_lock := n_lock nd - 1\<rparr>"] na k by force
  have dom: "dom (nodes t1) = dom (nodes t)" using same_dom [OF t1(2)] na(1) by (simp add: insert_absorb domI)
  have "pfx t1 = pfx t" using t1(2) i(1) by (auto simp: pfx_node_data)
  then have sh: "trie_shape fam t1" using trie_shape_view [OF I(1)] t1(3,4) by blast
  have cnt: "t_count t1 = card (dom (nodes t1))" "set_mset H \<subseteq> dom (nodes t1)" using I(2,3) t1(5) dom by auto
  have st: "stores t1 = stores t" by (rule stores_same_info) (use t1(2) i(1) in \<open>auto simp: fun_eq_iff\<close>)
  have held: "held H t1 x" if "x \<noteq> a" for x
    using held_other [OF I(4), of t1 x H] t1(2,4) that by simp
  show ?thesis
  proof (cases "count H a = 0")
    case True
    then have "node_data t1 a = Some (p, 0, None)" using t1(2) i(2) by (auto simp: count_eq_zero_iff)
    from route_node_delete_spec [OF sh cnt held this True] show ?thesis
      using st t1(1) na k True by (auto simp: route_unlock_node_def)
  next
    case False
    then have "held H t1 a" using held_pos [of t1 a p "count H a" i H] t1(2) by simp
    then have "table_inv fam H t1" using table_invI [OF sh cnt] held by metis
    then show ?thesis using st t1(1) na k False by (auto simp: route_unlock_node_def count_eq_zero_iff)
  qed
qed

lemma covers_same_len: "covers g p \<Longrightarrow> prefixlen g = prefixlen p \<Longrightarrow> prefix_ok g \<Longrightarrow> prefix_ok p \<Longrightarrow> prefix_bits g = prefix_bits p"
  by (simp add: covers_def length_prefix_bits)

lemma view_count_inv [simp]:
  "trie_shape fam (t\<lparr>t_count := k\<rparr>) = trie_shape fam t" "held H (t\<lparr>t_count := k\<rparr>) x = held H t x"
  "stores (t\<lparr>t_count := k\<rparr>) = stores t"
  by (simp_all add: trie_shape_tree pfx_node_data held_def stores_def fun_eq_iff)

text \<open>
  A new node \<open>a\<close> for the prefix \<open>p\<close> is in the table \<open>t1\<close>, not yet locked nor counted.
\<close>

definition inserted :: "nat \<Rightarrow> nat multiset \<Rightarrow> 'a route_table \<Rightarrow> prefix \<Rightarrow> nat \<Rightarrow> 'a route_table \<Rightarrow> bool" where
  "inserted fam H t p a t1 \<longleftrightarrow> trie_shape fam t1 \<and> Suc (t_count t1) = card (dom (nodes t1))
     \<and> insert a (dom (nodes t)) \<subseteq> dom (nodes t1) \<and> a \<notin> dom (nodes t) \<and> (\<forall>x. x \<noteq> a \<longrightarrow> held H t1 x)
     \<and> (\<exists>p'. node_data t1 a = Some (p', 0, None) \<and> prefix_bits p' = prefix_bits p)
     \<and> stores t1 = stores t \<and> (\<forall>x\<in>dom (nodes t). node_data t1 x = node_data t x)"

lemma inserted_leaf:
  assumes inv: "table_inv fam H t" and new: "nodes t new = None" and p: "prefix_ok p" "family p = fam"
    and s: "fits_at (pfx t) m s p" "slot t m s = None"
  shows "\<exists>t1. insert_leaf m new p t = Some t1 \<and> inserted fam H t p new t1"
proof -
  note I = table_invD [OF inv]
  have fin: "finite (dom (nodes t))" "new \<notin> dom (nodes t)" using trie_inv_finite [OF I(1)] new by blast+
  obtain t1 p' where t1: "insert_leaf m new p t = Some t1" "trie_shape fam t1" "prefix_bits p' = prefix_bits p"
      "node_data t1 = (node_data t)(new \<mapsto> (p', 0, None))" "slot t1 = put_slot m s (Some new) (slot t)" "t_count t1 = t_count t"
    using insert_leaf_spec [OF I(1) new p s] by blast
  have "held H t1 x" if "x \<noteq> new" for x
    by (rule held_other [OF I(4)]) (use t1(4,5) that in \<open>auto simp: put_slot_def\<close>)
  then have "inserted fam H t p new t1" unfolding inserted_def
    using t1 same_dom [OF t1(4)] fin I(2) stores_add [OF fin(2) t1(4)] by auto
  then show ?thesis using t1(1) by blast
qed

lemma inserted_branch:
  assumes inv: "table_inv fam H t" and new: "nodes t new1 = None" "nodes t new2 = None" "new1 \<noteq> new2"
    and p: "prefix_ok p" "family p = fam"
    and s: "fits_at (pfx t) m s p" "slot t m s = Some b" and nb: "nodes t b = Some nb" "\<not> covers (n_p nb) p"
  shows "\<exists>g t1. insert_branch m b new1 p t = Some (g, t1) \<and>
    (if prefixlen g = prefixlen p then inserted fam H t p new1 t1
     else \<exists>t2. insert_leaf (Some new1) new2 p t1 = Some t2 \<and> inserted fam H t p new2 (t2\<lparr>t_count := t_count t2 + 1\<rparr>))"
proof -
  note I = table_invD [OF inv]
  have fin: "finite (dom (nodes t))" "new1 \<notin> dom (nodes t)" "new2 \<notin> dom (nodes t)"
    using trie_inv_finite [OF I(1)] new by blast+
  have cH: "count H new1 = 0" using I(3) new by (auto simp: count_eq_zero_iff)
  obtain t1 g where t1: "insert_branch m b new1 p t = Some (g, t1)" "trie_shape fam t1"
      "prefix_ok g" "family g = fam" "covers g p" "prefixlen g < klen nb"
      "prefixlen g < prefixlen p \<longrightarrow> prefix_bits p ! prefixlen g = (\<not> key nb ! prefixlen g)"
      "node_data t1 = (node_data t)(new1 \<mapsto> (g, 0, None))"
      "slot t1 = put_slot m s (Some new1) (put_slot (Some new1) (key nb ! prefixlen g) (Some b) (slot t))" "t_count t1 = t_count t"
    using insert_branch_spec [OF I(1) new(1) p s nb] by blast
  have held1: "held H t1 x" if "x \<noteq> new1" for x
    by (rule held_other [OF I(4)]) (use t1(8,9) that in \<open>auto simp: put_slot_def\<close>)
  note st1 = stores_add [OF fin(2) t1(8)] and dom1 = same_dom [OF t1(8)]
  show ?thesis
  proof (cases "prefixlen g = prefixlen p")
    case True
    then have "inserted fam H t p new1 t1" unfolding inserted_def
      using t1(2,8,10) dom1 fin I(2) st1 held1 covers_same_len [OF t1(5) True t1(3) p(1)] by auto
    then show ?thesis using True t1(1) by simp
  next
    case False
    then have lt: "prefixlen g < prefixlen p" using t1(5) by (auto simp: covers_def)
    let ?s = "prefix_bits p ! prefixlen g"
    have "m \<noteq> Some new1" using s(1) new(1) by (auto simp: fits_at_def pfx_def)
    then have slots: "slot t1 (Some new1) ?s = None" "slot t1 (Some new1) (\<not> ?s) = Some b"
      using t1(7,9) lt new(1) by (auto simp: put_slot_def same_slot_def slot_def)
    have fit: "fits_at (pfx t1) (Some new1) ?s p" using t1(5,8) lt by (simp add: fits_at_def pfx_node_data)
    have new2: "nodes t1 new2 = None" "new2 \<notin> dom (nodes t1)" using dom1 fin(3) new(3) by auto
    then obtain t2 p' where t2: "insert_leaf (Some new1) new2 p t1 = Some t2" "trie_shape fam t2" "prefix_bits p' = prefix_bits p"
        "node_data t2 = (node_data t1)(new2 \<mapsto> (p', 0, None))" "slot t2 = put_slot (Some new1) ?s (Some new2) (slot t1)"
        "t_count t2 = t_count t1"
      using insert_leaf_spec [OF t1(2) _ p fit slots(1)] by blast
    have two: "slot t2 (Some new1) c \<noteq> None" for c
      using slots(2) t2(5) by (cases "c = ?s") (auto simp: put_slot_def same_slot_def)
    have "held H t2 new1" using two t2(4) t1(8) new(3) cH by (auto simp: held_def)
    moreover have "held H t2 x" if "x \<noteq> new2" "x \<noteq> new1" for x
      using that by (intro held_other [OF held1]) (use t2(4,5) that in \<open>auto simp: put_slot_def\<close>)
    ultimately have held2: "x \<noteq> new2 \<Longrightarrow> held H t2 x" for x by (cases "x = new1") simp_all
    have "inserted fam H t p new2 (t2\<lparr>t_count := t_count t2 + 1\<rparr>)" unfolding inserted_def
      using t2(2-4,6) t1(8,10) dom1 same_dom [OF t2(4)] fin new(3) I(2) held2 stores_add [OF new2(2) t2(4)] st1 by auto
    then show ?thesis using False t1(1) t2(1) by simp
  qed
qed

text \<open>
  \<open>route_node_get\<close> returns a node for the prefix, one reference to which is the caller's.
\<close>

lemma route_node_get_spec:
  assumes inv: "table_inv fam H t" and new: "nodes t new1 = None" "nodes t new2 = None" "new1 \<noteq> new2"
    and p: "prefix_ok p" "family p = fam"
  shows "\<exists>a t' p' k i. route_node_get new1 new2 t p = Some (a, t') \<and> table_inv fam (add_mset a H) t'
    \<and> node_data t' a = Some (p', k, i) \<and> prefix_bits p' = prefix_bits p \<and> stores t' = stores t
    \<and> (\<forall>x\<in>dom (nodes t) - {a}. node_data t' x = node_data t x)"
proof -
  note I = table_invD [OF inv]
  consider (found) a na where "get_loop t p (t_top t) None = Some (Inl a)" "nodes t a = Some na" "key na = prefix_bits p"
    | (insert) m o2 where "get_loop t p (t_top t) None = Some (Inr (m, o2))" "place_at t p m o2" "off_path t p o2"
    using get_loop_spec [OF I(1) p(1) seek_top [OF I(1)], of None] by auto
  then show ?thesis
  proof cases
    case found
    have nd: "node_data t a = Some (n_p na, count H a, n_info na)"
      using node_dataI [OF found(2)] heldD(1) [OF I(4)] by metis
    from route_lock_spec [OF I(1-4) nd] obtain t' where t': "route_lock_node a t = Some t'" "table_inv fam (add_mset a H) t'"
      "stores t' = stores t" "node_data t' = (node_data t)(a \<mapsto> (n_p na, count H a + 1, n_info na))" by blast
    then show ?thesis using found by (simp add: route_node_get_def)
  next
    case insert
    obtain s where s: "fits_at (pfx t) m s p" "slot t m s = o2" using place_fits [OF insert(2)] by blast
    let ?ins = "case o2 of None \<Rightarrow> do { t \<leftarrow> insert_leaf m new1 p t; Some (new1, t) }
           | Some b \<Rightarrow> do {
               (q, t) \<leftarrow> insert_branch m b new1 p t;
               if prefixlen q \<noteq> prefixlen p then do {
                 t \<leftarrow> insert_leaf (Some new1) new2 p t;
                 Some (new2, t\<lparr>t_count := t_count t + 1\<rparr>) }
               else Some (new1, t) }"
    have "\<exists>a t1. ?ins = Some (a, t1) \<and> inserted fam H t p a t1"
    proof (cases o2)
      case None
      then show ?thesis using inserted_leaf [OF inv new(1) p s(1)] s(2) by auto
    next
      case (Some b)
      then obtain nb where "nodes t b = Some nb" "\<not> covers (n_p nb) p" using insert(3) by (auto simp: off_path_def)
      from inserted_branch [OF inv new p s(1) s(2) [unfolded Some] this] Some show ?thesis by (auto split: if_splits)
    qed
    then obtain a t1 where t1: "?ins = Some (a, t1)" "inserted fam H t p a t1" by blast
    let ?t = "t1\<lparr>t_count := t_count t1 + 1\<rparr>"
    have cH: "count H a = 0" using t1(2) I(3) by (auto simp: inserted_def count_eq_zero_iff)
    then obtain p' where p': "node_data ?t a = Some (p', count H a, None)" "prefix_bits p' = prefix_bits p"
      using t1(2) by (auto simp: inserted_def)
    have "trie_shape fam ?t" "t_count ?t = card (dom (nodes ?t))" "set_mset H \<subseteq> dom (nodes ?t)" "\<And>x. x \<noteq> a \<Longrightarrow> held H ?t x"
      using t1(2) I(3) by (auto simp: inserted_def)
    from route_lock_spec [OF this p'(1)] obtain t' where t': "route_lock_node a ?t = Some t'" "table_inv fam (add_mset a H) t'"
      "stores t' = stores ?t" "node_data t' = (node_data ?t)(a \<mapsto> (p', count H a + 1, None))" by blast
    have "route_node_get new1 new2 t p = Some (a, t')"
      unfolding route_node_get_def insert(1) Let_def using t1(1) t'(1) by simp
    then show ?thesis using t' p'(2) t1(2) by (auto simp: inserted_def)
  qed
qed

end
