(* ===== verification/Route_Table_Order.thy ===== *)
theory Route_Table_Order
  imports Route_Table "HOL-Library.List_Lexorder"
begin

text \<open>
  The order of a walk over a route table (\<open>lib/table.c\<close>): a node comes before the nodes
  below it, and what is below its left link before what is below its right link. This is
  the lexicographic order of the prefixes as lists of bits. The theory shows that
  \<open>route_next\<close> and \<open>route_table_get_next\<close> find the successor in this order and that
  \<open>route_table_prefix_iter_cmp\<close> decides it.
\<close>

section \<open>The order of a walk\<close>

subsection \<open>The order on prefixes\<close>

text \<open>The first bit in which the prefixes differ is 0 in \<open>p\<close> and 1 in \<open>q\<close>.\<close>

definition splits :: "prefix \<Rightarrow> prefix \<Rightarrow> bool" where
  "splits p q \<longleftrightarrow> (\<exists>i < min (prefixlen p) (prefixlen q). take i (prefix_bits p) = take i (prefix_bits q)
     \<and> \<not> prefix_bits p ! i \<and> prefix_bits q ! i)"

lemma prefix_less_iff:
  assumes "prefix_ok p" "prefix_ok q"
  shows "prefix_bits p < prefix_bits q \<longleftrightarrow> covers p q \<and> prefixlen p < prefixlen q \<or> splits p q"
  using assms by (auto simp: list_less_def lexord_take_index_conv splits_def covers_def)

lemma splits_not_covers:
  assumes "splits p q"
  shows "\<not> covers p q" "\<not> covers q p"
proof -
  obtain i where i: "i < prefixlen p" "i < prefixlen q" "\<not> prefix_bits p ! i" "prefix_bits q ! i"
    using assms by (auto simp: splits_def)
  show "\<not> covers p q" "\<not> covers q p" using i unfolding covers_def by (metis nth_take)+
qed

lemma take_take_eq: "take n xs = ys \<Longrightarrow> i \<le> n \<Longrightarrow> take i xs = take i ys"
  by (metis min.absorb1 take_take)

lemma splits_covers:
  assumes "splits p q" "covers p p'" "covers q q'"
  shows "splits p' q'"
proof -
  obtain i where i: "i < prefixlen p" "i < prefixlen q" "take i (prefix_bits p) = take i (prefix_bits q)"
    "\<not> prefix_bits p ! i" "prefix_bits q ! i" using assms by (auto simp: splits_def)
  have "take i (prefix_bits p') = take i (prefix_bits p)" "prefix_bits p' ! i = prefix_bits p ! i"
    using assms(2) i(1) by (metis covers_def less_imp_le take_take_eq, metis covers_def nth_take)
  moreover have "take i (prefix_bits q') = take i (prefix_bits q)" "prefix_bits q' ! i = prefix_bits q ! i"
    using assms(3) i(2) by (metis covers_def less_imp_le take_take_eq, metis covers_def nth_take)
  ultimately show ?thesis using i assms(2,3) covers_len unfolding splits_def by (metis min_less_iff_conj order_less_le_trans)
qed

lemma splits_cut:
  assumes ok: "prefix_ok p" "prefix_ok q" and "splits p' q" "covers p p'" "\<not> covers p q"
  shows "splits p q"
proof -
  obtain i where i: "i < prefixlen p'" "i < prefixlen q" "take i (prefix_bits p') = take i (prefix_bits q)"
    "\<not> prefix_bits p' ! i" "prefix_bits q ! i" using assms(3) by (auto simp: splits_def)
  have "i < prefixlen p"
  proof (rule ccontr)
    assume n: "\<not> i < prefixlen p"
    then have "take (prefixlen p) (prefix_bits q) = take (prefixlen p) (prefix_bits p')"
      using i(3) by (metis not_less take_take_eq)
    then show False using assms(4,5) i(2) n by (simp add: covers_def)
  qed
  moreover have "take i (prefix_bits p') = take i (prefix_bits p)" "prefix_bits p' ! i = prefix_bits p ! i"
    using assms(4) \<open>i < prefixlen p\<close> by (metis covers_def less_imp_le take_take_eq, metis covers_def nth_take)
  ultimately show ?thesis using i unfolding splits_def by (metis min_less_iff_conj)
qed

lemma splits_sides:
  assumes ok: "prefix_ok q" and "covers q x" "covers q y" "prefixlen q < prefixlen x" "prefixlen q < prefixlen y"
    "\<not> prefix_bits x ! prefixlen q" "prefix_bits y ! prefixlen q"
  shows "splits x y"
  using assms unfolding splits_def covers_def by (intro exI [of _ "prefixlen q"]) simp

lemma splits_total:
  assumes ok: "prefix_ok p" "prefix_ok q"
  shows "covers p q \<or> covers q p \<or> splits p q \<or> splits q p"
proof -
  consider "prefix_bits p < prefix_bits q" | "prefix_bits q < prefix_bits p" | "prefix_bits p = prefix_bits q" by fastforce
  then show ?thesis using prefix_less_iff ok covers_eqI by cases blast+
qed

subsection \<open>The next node\<close>

text \<open>The least node that satisfies \<open>P\<close>, or none.\<close>

definition least_node :: "'a route_table \<Rightarrow> (prefix \<Rightarrow> bool) \<Rightarrow> nat option \<Rightarrow> bool" where
  "least_node t P r \<longleftrightarrow> (case r of
      None \<Rightarrow> \<forall>x nx. nodes t x = Some nx \<longrightarrow> \<not> P (n_p nx)
    | Some c \<Rightarrow> \<exists>nc. nodes t c = Some nc \<and> P (n_p nc)
        \<and> (\<forall>x nx. nodes t x = Some nx \<and> P (n_p nx) \<longrightarrow> key nc \<le> key nx))"

lemma least_node_cong:
  assumes "\<And>x nx. nodes t x = Some nx \<Longrightarrow> P (n_p nx) = Q (n_p nx)"
  shows "least_node t P r = least_node t Q r"
  using assms by (auto simp: least_node_def split: option.splits)

lemma subtree_next_eqs:
  "nodes t a = Some na \<Longrightarrow> n_parent na = None \<Longrightarrow> route_get_subtree_next t a = Some None"
  "nodes t a = Some na \<Longrightarrow> n_parent na = Some q \<Longrightarrow> nodes t q = Some nq \<Longrightarrow>
     route_get_subtree_next t a = (if l_left nq = Some a \<and> l_right nq \<noteq> None then Some (l_right nq) else route_get_subtree_next t q)"
  by (subst route_get_subtree_next.simps, simp)+

lemma covers_key_le: "prefix_ok p \<Longrightarrow> prefix_ok q \<Longrightarrow> covers p q \<Longrightarrow> prefix_bits p \<le> prefix_bits q"
  using prefix_less_iff covers_antisym by (metis le_less not_less)

lemma splits_key_le: "prefix_ok p \<Longrightarrow> prefix_ok q \<Longrightarrow> splits p q \<Longrightarrow> prefix_bits p \<le> prefix_bits q"
  using prefix_less_iff by (metis le_less)

text \<open>A node is below its parent, and so is everything that its parent covers on its side.\<close>

lemma sibling_side:
  assumes inv: "trie_shape fam t" and a: "nodes t a = Some na" and q: "n_parent na = Some q" "nodes t q = Some nq"
    and x: "nodes t x = Some nx" "covers (n_p nq) (n_p nx)" "klen nq < klen nx"
  shows "covers (n_p na) (n_p nx) \<or> key nx ! klen nq \<noteq> key na ! klen nq
    \<and> (\<exists>c nc. link nq (key nx ! klen nq) = Some c \<and> nodes t c = Some nc \<and> covers (n_p nc) (n_p nx))"
proof -
  have l: "link nq (key na ! klen nq) = Some a" using trie_inv_parent [OF inv a q(1)] q(2) by auto
  obtain c nc where c: "link nq (key nx ! klen nq) = Some c" "nodes t c = Some nc" "covers (n_p nc) (n_p nx)"
    using trie_step [OF inv q(2) x] by blast
  show ?thesis
  proof (cases "key nx ! klen nq = key na ! klen nq")
    case True
    then show ?thesis using c l a by auto
  next
    case False
    then show ?thesis using c by blast
  qed
qed

lemma below_strict:
  assumes "prefix_ok p" "prefix_ok q" "prefix_ok x" "covers q p" "splits p x" "covers q x"
  shows "prefixlen q < prefixlen x"
proof (rule ccontr)
  assume "\<not> prefixlen q < prefixlen x"
  then have "covers x q" using covers_antisym [of q x] covers_eqI [of x q] assms by simp
  then show False using covers_trans assms(4) splits_not_covers(2) [OF assms(5)] by blast
qed

lemma splits_asym: "prefix_ok p \<Longrightarrow> prefix_ok q \<Longrightarrow> splits p q \<Longrightarrow> \<not> splits q p"
  using prefix_less_iff by (metis less_asym)

text \<open>Climbing finds the first node after everything below \<open>a\<close>.\<close>

lemma subtree_right:
  assumes inv: "trie_shape fam t" and a: "nodes t a = Some na" and q: "n_parent na = Some q" "nodes t q = Some nq"
    and l: "l_left nq = Some a" "l_right nq = Some c"
  shows "least_node t (splits (n_p na)) (Some c)"
proof -
  have ca: "child_ok nq False na" using trie_inv_link [OF inv q(2), of False a] l a by (auto simp: link_def)
  obtain nc where c: "nodes t c = Some nc" "child_ok nq True nc" using trie_inv_link [OF inv q(2), of True c] l by (auto simp: link_def)
  note ok = trie_inv_prefix [OF inv]
  have "splits (n_p na) (n_p nc)" using splits_sides [OF ok [OF q(2)]] ca c(2) by (auto simp: child_ok_def)
  moreover have "key nc \<le> key nx" if x: "nodes t x = Some nx" "splits (n_p na) (n_p nx)" for x nx
  proof (cases "covers (n_p nq) (n_p nx)")
    case True
    have "klen nq < klen nx"
      using below_strict [OF ok [OF a] ok [OF q(2)] ok [OF x(1)] _ x(2) True] ca by (simp add: child_ok_def)
    then have "covers (n_p nc) (n_p nx)"
      using sibling_side [OF inv a q x(1) True] splits_not_covers(1) [OF x(2)] ca c(1) l(2) by (auto simp: child_ok_def link_def split: if_splits)
    then show ?thesis using covers_key_le [OF ok [OF c(1)] ok [OF x(1)]] by blast
  next
    case False
    have "splits (n_p nq) (n_p nx)" using splits_cut [OF ok [OF q(2)] ok [OF x(1)] x(2) _ False] ca by (simp add: child_ok_def)
    then have "splits (n_p nc) (n_p nx)" using splits_covers c(2) ok [OF x(1)] covers_refl unfolding child_ok_def by blast
    then show ?thesis using splits_key_le [OF ok [OF c(1)] ok [OF x(1)]] by blast
  qed
  ultimately show ?thesis using c(1) by (auto simp: least_node_def)
qed

lemma subtree_up:
  assumes inv: "trie_shape fam t" and a: "nodes t a = Some na" and q: "n_parent na = Some q" "nodes t q = Some nq"
    and l: "\<not> (l_left nq = Some a \<and> l_right nq \<noteq> None)" and x: "nodes t x = Some nx"
  shows "splits (n_p na) (n_p nx) = splits (n_p nq) (n_p nx)"
proof
  note ok = trie_inv_prefix [OF inv]
  have link: "link nq (key na ! klen nq) = Some a" and ca: "covers (n_p nq) (n_p na)" "klen nq < klen na"
    using trie_inv_parent [OF inv a q(1)] q(2) by (auto simp: child_ok_def)
  show "splits (n_p na) (n_p nx)" if "splits (n_p nq) (n_p nx)"
    using splits_covers [OF that ca(1)] ok [OF x] by simp
  assume s: "splits (n_p na) (n_p nx)"
  show "splits (n_p nq) (n_p nx)"
  proof (cases "covers (n_p nq) (n_p nx)")
    case True
    have lx: "klen nq < klen nx" by (rule below_strict [OF ok [OF a] ok [OF q(2)] ok [OF x] ca(1) s True])
    have side: "key nx ! klen nq \<noteq> key na ! klen nq" "link nq (key nx ! klen nq) \<noteq> None"
      using sibling_side [OF inv a q x True lx] splits_not_covers(1) [OF s] by auto
    then have "key na ! klen nq" "\<not> key nx ! klen nq" using l link by (auto simp: link_def split: if_splits)
    then have "splits (n_p nx) (n_p na)" using splits_sides [OF ok [OF q(2)] True ca(1) lx ca(2)] by simp
    then show ?thesis using splits_asym [OF ok [OF a] ok [OF x] s] by blast
  next
    case False
    then show ?thesis using splits_cut [OF ok [OF q(2)] ok [OF x] s ca(1)] by blast
  qed
qed

lemma subtree_next_spec:
  assumes inv: "trie_shape fam t" and "nodes t a = Some na"
  shows "\<exists>r. route_get_subtree_next t a = Some r \<and> least_node t (splits (n_p na)) r"
  using assms(2)
proof (induction "klen na" arbitrary: a na rule: less_induct)
  case less
  note a = less.prems
  show ?case
  proof (cases "n_parent na")
    case None
    have "\<not> splits (n_p na) (n_p nx)" if "nodes t x = Some nx" for x nx
      using trie_top_covers [OF inv that] trie_inv_root [OF inv a None] a splits_not_covers(1) by auto
    then show ?thesis using subtree_next_eqs(1) [OF a None] by (auto simp: least_node_def)
  next
    case (Some q)
    obtain nq where q: "nodes t q = Some nq" "klen nq < klen na"
      using trie_inv_parent [OF inv a Some] by (auto simp: child_ok_def)
    show ?thesis
    proof (cases "l_left nq = Some a \<and> l_right nq \<noteq> None")
      case True
      then show ?thesis using subtree_right [OF inv a Some q(1)] subtree_next_eqs(2) [OF a Some q(1)] by auto
    next
      case False
      then show ?thesis
        using less.hyps [OF q(2,1)] subtree_next_eqs(2) [OF a Some q(1)]
          least_node_cong [of t "splits (n_p na)" "splits (n_p nq)", OF subtree_up [OF inv a Some q(1) False]] by auto
    qed
  qed
qed

text \<open>The next node is the one with the next greater key.\<close>

lemma next_child:
  assumes inv: "trie_shape fam t" and a: "nodes t a = Some na" and c: "link na b = Some c" "b \<longrightarrow> l_left na = None"
  shows "least_node t (\<lambda>p. key na < prefix_bits p) (Some c)"
proof -
  note ok = trie_inv_prefix [OF inv]
  obtain nc where nc: "nodes t c = Some nc" "child_ok na b nc" using trie_inv_link [OF inv a c(1)] by blast
  have "key na < key nc" using prefix_less_iff [OF ok [OF a] ok [OF nc(1)]] nc(2) by (simp add: child_ok_def)
  moreover have "key nc \<le> key nx" if x: "nodes t x = Some nx" "key na < key nx" for x nx
  proof (cases "splits (n_p na) (n_p nx)")
    case True
    then have "splits (n_p nc) (n_p nx)" using splits_covers nc(2) ok [OF x(1)] covers_refl unfolding child_ok_def by blast
    then show ?thesis using splits_key_le [OF ok [OF nc(1)] ok [OF x(1)]] by blast
  next
    case False
    then have cv: "covers (n_p na) (n_p nx)" "klen na < klen nx" using prefix_less_iff [OF ok [OF a] ok [OF x(1)]] x(2) by auto
    obtain d nd where d: "link na (key nx ! klen na) = Some d" "nodes t d = Some nd" "covers (n_p nd) (n_p nx)"
      using trie_step [OF inv a x(1) cv] by blast
    show ?thesis
    proof (cases "key nx ! klen na = b")
      case True
      then show ?thesis using d c nc(1) covers_key_le [OF ok [OF nc(1)] ok [OF x(1)]] by simp
    next
      case False
      then have "\<not> b" "key nx ! klen na" using c(2) d(1) by (auto simp: link_def split: if_splits)
      then have "splits (n_p nc) (n_p nx)" using splits_sides [OF ok [OF a]] nc(2) cv by (auto simp: child_ok_def)
      then show ?thesis using splits_key_le [OF ok [OF nc(1)] ok [OF x(1)]] by blast
    qed
  qed
  ultimately show ?thesis using nc(1) by (auto simp: least_node_def)
qed

lemma next_node_spec:
  assumes inv: "trie_shape fam t" and a: "nodes t a = Some na"
  shows "\<exists>r. next_node t a = Some r \<and> least_node t (\<lambda>p. key na < prefix_bits p) r"
proof -
  note ok = trie_inv_prefix [OF inv]
  consider c where "l_left na = Some c" | c where "l_left na = None" "l_right na = Some c" | "l_left na = None" "l_right na = None"
    by (cases "l_left na"; cases "l_right na") auto
  then show ?thesis
  proof cases
    case 1
    then show ?thesis using next_child [OF inv a, of False] a by (simp add: next_node_def link_def)
  next
    case 2
    then show ?thesis using next_child [OF inv a, of True] a by (simp add: next_node_def link_def)
  next
    case 3
    obtain r where r: "route_get_subtree_next t a = Some r" "least_node t (splits (n_p na)) r" using subtree_next_spec [OF inv a] by blast
    have "splits (n_p na) (n_p nx) = (key na < key nx)" if x: "nodes t x = Some nx" for x nx
      using prefix_less_iff [OF ok [OF a] ok [OF x]] trie_step [OF inv a x] 3 by (auto simp: link_def split: if_splits)
    then have "least_node t (splits (n_p na)) r = least_node t (\<lambda>p. key na < prefix_bits p) r" by (rule least_node_cong)
    then show ?thesis using r a 3 by (simp add: next_node_def)
  qed
qed

subsection \<open>Comparing prefixes\<close>

lemma common_splits:
  assumes ok: "prefix_ok p" "prefix_ok q" and n: "\<not> covers p q" "\<not> covers q p"
  obtains r where "route_common p q prefix_new = Some r" "prefixlen r < prefixlen p" "prefixlen r < prefixlen q"
    "prefix_bits p ! prefixlen r \<noteq> prefix_bits q ! prefixlen r"
    "take (prefixlen r) (prefix_bits p) = take (prefixlen r) (prefix_bits q)"
proof -
  have len: "length (u_prefix prefix_new) = 16" by (simp add: prefix_new_def)
  let ?p = "addr_bits (u_prefix p)" and ?q = "addr_bits (u_prefix q)"
  obtain r where r: "route_common p q prefix_new = Some r" "prefixlen r \<le> prefixlen q"
      "take (prefixlen r) ?p = take (prefixlen r) ?q" "prefixlen r < prefixlen q \<longrightarrow> ?p ! prefixlen r \<noteq> ?q ! prefixlen r"
    using route_common_spec [OF ok len] by blast
  have "\<not> (prefixlen p \<le> prefixlen r)"
  proof
    assume le: "prefixlen p \<le> prefixlen r"
    then have "take (prefixlen p) ?q = take (prefixlen p) ?p" using r(3) by (metis take_take_eq)
    then show False using n(1) le r(2) by (simp add: covers_def prefix_bits_def min_absorb1)
  qed
  moreover have "prefixlen r \<noteq> prefixlen q"
  proof
    assume eq: "prefixlen r = prefixlen q"
    then show False using n(2) r(3) calculation by (simp add: covers_def prefix_bits_def min_absorb1)
  qed
  ultimately show ?thesis using that [OF r(1)] r(2-4) by (simp add: prefix_bits_def)
qed

lemma iter_cmp_spec:
  assumes ok: "prefix_ok p" "prefix_ok q"
  shows "route_table_prefix_iter_cmp p q =
    Some (if prefix_bits p < prefix_bits q then -1 else if prefix_bits p = prefix_bits q then 0 else 1)"
proof (cases "covers p q \<or> covers q p")
  case True
  consider (lt) "prefixlen p < prefixlen q" | (eq) "prefixlen p = prefixlen q" | (gt) "prefixlen q < prefixlen p" by linarith
  then show ?thesis
  proof cases
    case lt
    then have "covers p q" using True covers_len [of q p] by auto
    then show ?thesis using lt prefix_less_iff [OF ok] ok by (simp add: route_table_prefix_iter_cmp_def prefix_match_eq)
  next
    case eq
    then have "prefix_bits p = prefix_bits q" using True covers_antisym ok by (metis order_refl)
    then show ?thesis using eq ok covers_eqI [OF ok] by (simp add: route_table_prefix_iter_cmp_def prefix_match_eq)
  next
    case gt
    then have "covers q p" using True covers_len [of p q] by auto
    moreover from this have "prefix_bits q < prefix_bits p" using gt prefix_less_iff [OF ok(2,1)] by simp
    ultimately show ?thesis using gt ok by (auto simp: route_table_prefix_iter_cmp_def prefix_match_eq)
  qed
next
  case False
  then obtain r where r: "route_common p q prefix_new = Some r" "prefixlen r < prefixlen p" "prefixlen r < prefixlen q"
    "prefix_bits p ! prefixlen r \<noteq> prefix_bits q ! prefixlen r" "take (prefixlen r) (prefix_bits p) = take (prefixlen r) (prefix_bits q)"
    using common_splits [OF ok] by blast
  have bits: "prefix_bit (u_prefix p) (prefixlen r) = Some (prefix_bits p ! prefixlen r)"
    "prefix_bit (u_prefix q) (prefixlen r) = Some (prefix_bits q ! prefixlen r)"
    using prefix_bit_prefix ok r(2,3) by blast+
  have "if prefix_bits p ! prefixlen r then splits q p else splits p q"
    unfolding splits_def using r(2-5) by (auto intro!: exI [of _ "prefixlen r"])
  then have "if prefix_bits p ! prefixlen r then prefix_bits q < prefix_bits p else prefix_bits p < prefix_bits q"
    using prefix_less_iff ok by auto
  then show ?thesis using r False bits ok by (auto simp: route_table_prefix_iter_cmp_def prefix_match_eq split: if_splits)
qed

subsection \<open>The first node after a prefix\<close>

text \<open>
  The search of \<open>route_table_get_next\<close> is at node \<open>a\<close>: of the nodes that are not below
  \<open>a\<close>, the ones after \<open>p\<close> are those after everything below \<open>a\<close>.
\<close>

definition next_at :: "'a route_table \<Rightarrow> prefix \<Rightarrow> prefix \<Rightarrow> bool" where
  "next_at t p pa \<longleftrightarrow> (\<forall>x nx. nodes t x = Some nx \<and> \<not> covers pa (n_p nx) \<longrightarrow>
     (prefix_bits p < key nx) = splits pa (n_p nx))"

lemma next_at_top: "trie_shape fam t \<Longrightarrow> t_top t = Some a \<Longrightarrow> nodes t a = Some na \<Longrightarrow> next_at t p (n_p na)"
  unfolding next_at_def using trie_top_covers by fastforce

lemma next_at_here:
  assumes inv: "trie_shape fam t" and a: "nodes t a = Some na" and at: "next_at t p (n_p na)" and lt: "prefix_bits p < key na"
  shows "least_node t (\<lambda>q. prefix_bits p < prefix_bits q) (Some a)"
proof -
  note ok = trie_inv_prefix [OF inv]
  have "key na \<le> key nx" if x: "nodes t x = Some nx" "prefix_bits p < key nx" for x nx
    using x at covers_key_le [OF ok [OF a] ok [OF x(1)]] splits_key_le [OF ok [OF a] ok [OF x(1)]] unfolding next_at_def by blast
  then show ?thesis using a lt by (auto simp: least_node_def)
qed

lemma next_at_after:
  assumes inv: "trie_shape fam t" and a: "nodes t a = Some na" and at: "next_at t p (n_p na)"
    and none: "\<And>x nx. nodes t x = Some nx \<Longrightarrow> covers (n_p na) (n_p nx) \<Longrightarrow> \<not> prefix_bits p < key nx"
  shows "\<exists>r. route_get_subtree_next t a = Some r \<and> least_node t (\<lambda>q. prefix_bits p < prefix_bits q) r"
proof -
  have "splits (n_p na) (n_p nx) = (prefix_bits p < key nx)" if x: "nodes t x = Some nx" for x nx
    using at x none [OF x] splits_not_covers(1) unfolding next_at_def by blast
  from least_node_cong [of t "splits (n_p na)" "\<lambda>q. prefix_bits p < prefix_bits q", OF this] subtree_next_spec [OF inv a]
  show ?thesis by auto
qed

text \<open>The nodes below a node that covers \<open>p\<close>, by the side they are on.\<close>

lemma below_sides:
  assumes inv: "trie_shape fam t" and a: "nodes t a = Some na" and p: "prefix_ok p" "covers (n_p na) p" "klen na < prefixlen p"
    and x: "nodes t x = Some nx" "covers (n_p na) (n_p nx)"
  obtains (self) "key nx = key na" "\<not> prefix_bits p < key nx"
    | (same) c nc where "link na (prefix_bits p ! klen na) = Some c" "nodes t c = Some nc" "covers (n_p nc) (n_p nx)"
    | (right) c nc where "\<not> prefix_bits p ! klen na" "l_right na = Some c" "nodes t c = Some nc" "covers (n_p nc) (n_p nx)" "splits p (n_p nx)"
        "key nx ! klen na" "klen na < klen nx"
    | (left) "prefix_bits p ! klen na" "splits (n_p nx) p" "\<not> key nx ! klen na" "klen na < klen nx"
proof -
  note ok = trie_inv_prefix [OF inv]
  show ?thesis
  proof (cases "klen na < klen nx")
    case False
    then have k: "key nx = key na" using covers_antisym [OF ok [OF a] ok [OF x(1)] x(2)] by simp
    moreover have "key na < prefix_bits p" using prefix_less_iff [OF ok [OF a] p(1)] p(2,3) by blast
    ultimately show ?thesis using self by (metis less_asym)
  next
    case True
    obtain c nc where c: "link na (key nx ! klen na) = Some c" "nodes t c = Some nc" "covers (n_p nc) (n_p nx)"
      using trie_step [OF inv a x True] by blast
    show ?thesis
    proof (cases "key nx ! klen na"; cases "prefix_bits p ! klen na")
      assume "key nx ! klen na" "\<not> prefix_bits p ! klen na"
      then show ?thesis using right [of c nc] c True splits_sides [OF ok [OF a] p(2) x(2) p(3) True] by (simp add: link_def)
    next
      assume "\<not> key nx ! klen na" "prefix_bits p ! klen na"
      then show ?thesis using left True splits_sides [OF ok [OF a] x(2) p(2) True p(3)] by simp
    qed (use same [of c nc] c in simp_all)
  qed
qed

lemma next_at_down:
  assumes inv: "trie_shape fam t" and a: "nodes t a = Some na" and p: "prefix_ok p" "covers (n_p na) p" "klen na < prefixlen p"
    and at: "next_at t p (n_p na)" and c: "link na (prefix_bits p ! klen na) = Some c" "nodes t c = Some nc"
  shows "next_at t p (n_p nc)"
  unfolding next_at_def
proof (intro allI impI)
  fix x nx assume "nodes t x = Some nx \<and> \<not> covers (n_p nc) (n_p nx)"
  then have x: "nodes t x = Some nx" "\<not> covers (n_p nc) (n_p nx)" by auto
  note ok = trie_inv_prefix [OF inv]
  have ch: "covers (n_p na) (n_p nc)" "klen na < klen nc" "key nc ! klen na = prefix_bits p ! klen na"
    using trie_inv_link [OF inv a c(1)] c(2) by (auto simp: child_ok_def)
  show "(prefix_bits p < key nx) = splits (n_p nc) (n_p nx)"
  proof (cases "covers (n_p na) (n_p nx)")
    case True
    from inv a p x(1) True show ?thesis
    proof (cases rule: below_sides)
      case self
      then have "covers (n_p nx) (n_p nc)"
        using covers_eqI [OF ok [OF x(1)] ok [OF a]] covers_trans ch(1) by blast
      then show ?thesis using self splits_not_covers(2) by blast
    next
      case (same d nd)
      then show ?thesis using c x(2) by simp
    next
      case (right d nd)
      then have "splits (n_p nc) (n_p nx)" using splits_sides [OF ok [OF a] ch(1) True ch(2)] ch(3) by simp
      then show ?thesis using right(5) prefix_less_iff [OF p(1) ok [OF x(1)]] by blast
    next
      case left
      then have "splits (n_p nx) (n_p nc)" using splits_sides [OF ok [OF a] True ch(1) _ ch(2)] ch(3) by simp
      then have "\<not> splits (n_p nc) (n_p nx)" using splits_asym [OF ok [OF x(1)] ok [OF c(2)]] by blast
      moreover have "key nx < prefix_bits p" using left(2) prefix_less_iff [OF ok [OF x(1)] p(1)] by blast
      ultimately show ?thesis by (metis less_asym)
    qed
  next
    case False
    then have "(prefix_bits p < key nx) = splits (n_p na) (n_p nx)" using at x(1) by (auto simp: next_at_def)
    moreover have "splits (n_p na) (n_p nx) = splits (n_p nc) (n_p nx)"
      using splits_cut [OF ok [OF a] ok [OF x(1)] _ ch(1) False] splits_covers [OF _ ch(1) covers_refl [OF ok [OF x(1)]]] by blast
    ultimately show ?thesis by simp
  qed
qed

lemma next_at_right:
  assumes inv: "trie_shape fam t" and a: "nodes t a = Some na" and p: "prefix_ok p" "covers (n_p na) p" "klen na < prefixlen p"
    and at: "next_at t p (n_p na)" and c: "link na (prefix_bits p ! klen na) = None" "l_right na = Some c"
  shows "least_node t (\<lambda>q. prefix_bits p < prefix_bits q) (Some c)"
proof -
  note ok = trie_inv_prefix [OF inv]
  obtain nc where nc: "nodes t c = Some nc" "child_ok na True nc"
    using trie_inv_link [OF inv a, of True] c(2) by (auto simp: link_def)
  have b: "\<not> prefix_bits p ! klen na" using c by (auto simp: link_def split: if_splits)
  have "splits p (n_p nc)" using splits_sides [OF ok [OF a] p(2) _ p(3)] nc(2) b by (auto simp: child_ok_def)
  then have "prefix_bits p < key nc" using prefix_less_iff [OF p(1) ok [OF nc(1)]] by blast
  moreover have "key nc \<le> key nx" if x: "nodes t x = Some nx" "prefix_bits p < key nx" for x nx
  proof (cases "covers (n_p na) (n_p nx)")
    case True
    from inv a p x(1) True have "covers (n_p nc) (n_p nx)"
      by (cases rule: below_sides) (use x c nc b in auto)
    then show ?thesis using covers_key_le [OF ok [OF nc(1)] ok [OF x(1)]] by blast
  next
    case False
    then have "splits (n_p nc) (n_p nx)" using at x splits_covers [OF _ _ covers_refl [OF ok [OF x(1)]]] nc(2)
      unfolding next_at_def child_ok_def by blast
    then show ?thesis using splits_key_le [OF ok [OF nc(1)] ok [OF x(1)]] by blast
  qed
  ultimately show ?thesis using nc(1) by (auto simp: least_node_def)
qed

lemma next_at_left:
  assumes inv: "trie_shape fam t" and a: "nodes t a = Some na" and p: "prefix_ok p" "covers (n_p na) p" "klen na < prefixlen p"
    and at: "next_at t p (n_p na)" and c: "link na (prefix_bits p ! klen na) = None" "l_right na = None"
  shows "\<exists>r. route_get_subtree_next t a = Some r \<and> least_node t (\<lambda>q. prefix_bits p < prefix_bits q) r"
proof (rule next_at_after [OF inv a at])
  fix x nx assume x: "nodes t x = Some nx" "covers (n_p na) (n_p nx)"
  from inv a p x show "\<not> prefix_bits p < key nx"
  proof (cases rule: below_sides)
    case left
    then have "key nx < prefix_bits p" using prefix_less_iff [OF trie_inv_prefix [OF inv x(1)] p(1)] by blast
    then show ?thesis by (metis less_asym)
  qed (use c in auto)
qed

subsection \<open>The next node below a limit\<close>

lemma subtree_until_eqs:
  "nodes t a = Some na \<Longrightarrow> n_parent na = None \<Longrightarrow> subtree_next_until t lim a = Some None"
  "nodes t a = Some na \<Longrightarrow> n_parent na = Some q \<Longrightarrow> subtree_next_until t a a = Some None"
  "nodes t a = Some na \<Longrightarrow> n_parent na = Some q \<Longrightarrow> a \<noteq> lim \<Longrightarrow> nodes t q = Some nq \<Longrightarrow>
     subtree_next_until t lim a = (if l_left nq = Some a \<and> l_right nq \<noteq> None then Some (l_right nq) else subtree_next_until t lim q)"
  by (subst subtree_next_until.simps, simp)+

lemma least_node_inter:
  assumes "least_node t P (Some c)" "nodes t c = Some nc" "Q (n_p nc)"
  shows "least_node t (\<lambda>p. P p \<and> Q p) (Some c)"
  using assms by (auto simp: least_node_def)

lemma covers_parent:
  assumes inv: "trie_shape fam t" and l: "nodes t lim = Some nl" and a: "nodes t a = Some na" "n_parent na = Some q" "nodes t q = Some nq"
    and c: "covers (n_p nl) (n_p na)" "a \<noteq> lim"
  shows "covers (n_p nl) (n_p nq)"
proof -
  have "above t lim a" by (rule covers_above [OF inv l a(1) c(1)])
  then have "above t lim q" using c(2) a by (cases rule: above.cases) auto
  then show ?thesis using above_covers [OF _ inv l a(3)] by blast
qed

lemma subtree_until_spec:
  assumes inv: "trie_shape fam t" and l: "nodes t lim = Some nl" and "nodes t a = Some na" "covers (n_p nl) (n_p na)"
  shows "\<exists>r. subtree_next_until t lim a = Some r \<and> least_node t (\<lambda>p. splits (n_p na) p \<and> covers (n_p nl) p) r"
  using assms(3,4)
proof (induction "klen na" arbitrary: a na rule: less_induct)
  case less
  note a = less.prems(1)
  show ?case
  proof (cases "n_parent na")
    case None
    have "\<not> splits (n_p na) (n_p nx)" if "nodes t x = Some nx" for x nx
      using trie_top_covers [OF inv that] trie_inv_root [OF inv a None] a splits_not_covers(1) by auto
    then show ?thesis using subtree_until_eqs(1) [OF a None] by (auto simp: least_node_def)
  next
    case (Some q)
    obtain nq where q: "nodes t q = Some nq" "klen nq < klen na"
      using trie_inv_parent [OF inv a Some] by (auto simp: child_ok_def)
    show ?thesis
    proof (cases "a = lim")
      case True
      then show ?thesis using subtree_until_eqs(2) [OF a Some] l a splits_not_covers(1) by (auto simp: least_node_def)
    next
      case False
      note eq = subtree_until_eqs(3) [OF a Some False q(1)] and cq = covers_parent [OF inv l a Some q(1) less.prems(2) False]
      show ?thesis
      proof (cases "l_left nq = Some a \<and> l_right nq \<noteq> None")
        case True
        then obtain c where c: "l_right nq = Some c" by auto
        obtain nc where nc: "nodes t c = Some nc" "covers (n_p nq) (n_p nc)"
          using trie_inv_link [OF inv q(1), of True c] c by (auto simp: link_def child_ok_def)
        have "least_node t (splits (n_p na)) (Some c)" using subtree_right [OF inv a Some q(1) _ c] True by blast
        from least_node_inter [OF this nc(1)] covers_trans [OF cq nc(2)] show ?thesis using eq True c by simp
      next
        case False
        have "(splits (n_p na) (n_p nx) \<and> covers (n_p nl) (n_p nx)) = (splits (n_p nq) (n_p nx) \<and> covers (n_p nl) (n_p nx))"
          if "nodes t x = Some nx" for x nx using subtree_up [OF inv a Some q(1) False that] by simp
        from least_node_cong [of t "\<lambda>p. splits (n_p na) p \<and> covers (n_p nl) p" "\<lambda>p. splits (n_p nq) p \<and> covers (n_p nl) p", OF this]
        show ?thesis using less.hyps [OF q(2,1) cq] eq False by auto
      qed
    qed
  qed
qed

definition next_node_until :: "'a route_table \<Rightarrow> nat \<Rightarrow> nat \<Rightarrow> nat option option" where
  "next_node_until t a lim = do {
     nd \<leftarrow> nodes t a;
     if l_left nd \<noteq> None then Some (l_left nd)
     else if l_right nd \<noteq> None then Some (l_right nd)
     else subtree_next_until t lim a }"

lemma route_next_until_eq:
  "route_next_until t a lim = do {
     nxt \<leftarrow> next_node_until t a lim;
     t \<leftarrow> (case nxt of None \<Rightarrow> Some t | Some c \<Rightarrow> route_lock_node c t);
     t \<leftarrow> route_unlock_node a t;
     Some (nxt, t) }"
  by (cases "nodes t a") (simp_all add: route_next_until_def next_node_until_def)

lemma next_node_until_spec:
  assumes inv: "trie_shape fam t" and l: "nodes t lim = Some nl" and a: "nodes t a = Some na" "covers (n_p nl) (n_p na)"
  shows "\<exists>r. next_node_until t a lim = Some r \<and> least_node t (\<lambda>p. key na < prefix_bits p \<and> covers (n_p nl) p) r"
proof -
  note ok = trie_inv_prefix [OF inv]
  have child: "least_node t (\<lambda>p. key na < prefix_bits p \<and> covers (n_p nl) p) (Some c)"
    if "link na b = Some c" "b \<longrightarrow> l_left na = None" for b c
    using least_node_inter [OF next_child [OF inv a(1) that]] trie_inv_link [OF inv a(1) that(1)] covers_trans [OF a(2)]
    unfolding child_ok_def by blast
  consider c where "l_left na = Some c" | c where "l_left na = None" "l_right na = Some c" | "l_left na = None" "l_right na = None"
    by (cases "l_left na"; cases "l_right na") auto
  then show ?thesis
  proof cases
    case 1
    then show ?thesis using child [of False] a by (simp add: next_node_until_def link_def)
  next
    case 2
    then show ?thesis using child [of True] a by (simp add: next_node_until_def link_def)
  next
    case 3
    obtain r where r: "subtree_next_until t lim a = Some r" "least_node t (\<lambda>p. splits (n_p na) p \<and> covers (n_p nl) p) r"
      using subtree_until_spec [OF inv l a] by blast
    have "(splits (n_p na) (n_p nx) \<and> covers (n_p nl) (n_p nx)) = (key na < key nx \<and> covers (n_p nl) (n_p nx))"
      if x: "nodes t x = Some nx" for x nx
      using prefix_less_iff [OF ok [OF a(1)] ok [OF x]] trie_step [OF inv a(1) x] 3 by (auto simp: link_def split: if_splits)
    from least_node_cong [of t "\<lambda>p. splits (n_p na) p \<and> covers (n_p nl) p" "\<lambda>p. key na < prefix_bits p \<and> covers (n_p nl) p", OF this]
    show ?thesis using r a 3 by (simp add: next_node_until_def)
  qed
qed

end
