(* ===== verification/Route_Table_Iter.thy ===== *)
theory Route_Table_Iter
  imports Route_Table_Update Route_Table_Order
begin

text \<open>
  Walks over a route table (\<open>lib/table.c\<close>) that is in use: \<open>route_next\<close>, the search
  for the first node after a prefix, and the iterator with its pauses. A walk holds a
  reference to the node it is at and leaves the table as it was.
\<close>

section \<open>Walks\<close>

subsection \<open>One more reference\<close>

definition locked :: "nat \<Rightarrow> 'a route_table \<Rightarrow> 'a route_table" where
  "locked a t = t\<lparr>nodes := (nodes t)(a := map_option (\<lambda>nd. nd\<lparr>n_lock := n_lock nd + 1\<rparr>) (nodes t a))\<rparr>"

abbreviation locked_at :: "nat option \<Rightarrow> 'a route_table \<Rightarrow> 'a route_table" where
  "locked_at r t \<equiv> (case r of None \<Rightarrow> t | Some a \<Rightarrow> locked a t)"

lemma lock_locked: "nodes t a = Some na \<Longrightarrow> route_lock_node a t = Some (locked a t)"
  by (simp add: route_lock_node_def modify_def locked_def)

lemma locked_commute: "a \<noteq> c \<Longrightarrow> locked a (locked c t) = locked c (locked a t)"
  by (simp add: locked_def fun_upd_twist)

lemma locked_nodes:
  "nodes (locked a t) x = (if x = a then map_option (\<lambda>nd. nd\<lparr>n_lock := n_lock nd + 1\<rparr>) (nodes t a) else nodes t x)"
  by (simp add: locked_def)

lemma pfx_locked [simp]: "pfx (locked a t) = pfx t"
  by (auto simp: pfx_def locked_nodes fun_eq_iff option.map_comp comp_def)

lemma least_node_pfx:
  "least_node t P r \<longleftrightarrow> (case r of
      None \<Rightarrow> \<forall>x p. pfx t x = Some p \<longrightarrow> \<not> P p
    | Some c \<Rightarrow> \<exists>pc. pfx t c = Some pc \<and> P pc \<and> (\<forall>x p. pfx t x = Some p \<and> P p \<longrightarrow> prefix_bits pc \<le> prefix_bits p))"
  by (cases r) (auto simp: least_node_def pfx_def)

lemma least_node_locked [simp]: "least_node (locked a t) P r = least_node t P r"
  unfolding least_node_pfx pfx_locked ..

lemma table_inv_locked:
  assumes "table_inv fam H t" "nodes t a = Some na"
  shows "table_inv fam (add_mset a H) (locked a t)"
  using route_lock_spec [OF table_invD(1-4) [OF assms(1)], of a "n_p na" "n_info na"] lock_locked [OF assms(2)]
    node_dataI [OF assms(2)] heldD(1) [OF table_invD(4) [OF assms(1)]] by fastforce

text \<open>Releasing a reference just taken gives the table back, also when nobody else holds the node.\<close>

lemma unlock_locked:
  assumes inv: "table_inv fam H t" and a: "nodes t a = Some na"
  shows "route_unlock_node a (locked a t) = Some t"
proof -
  have "modify a (\<lambda>nd. nd\<lparr>n_lock := n_lock nd - 1\<rparr>) (locked a t) = Some t"
    using a by (auto simp: modify_def locked_def fun_upd_idem_iff)
  moreover have "route_node_delete a t = Some t" if "n_lock na = 0"
    using heldD(2) [OF table_invD(4) [OF inv] node_dataI [OF a] that] delete_eqs(1) [OF a that] by (auto simp: slot_left_right [OF a])
  ultimately show ?thesis using a by (auto simp: route_unlock_node_def locked_nodes)
qed

lemma least_node_in: "least_node t P (Some c) \<Longrightarrow> \<exists>nc. nodes t c = Some nc \<and> P (n_p nc)"
  by (auto simp: least_node_def)

lemma route_next_locked:
  assumes inv: "table_inv fam H t" and a: "nodes t a = Some na"
  shows "\<exists>r. route_next (locked a t) a = Some (r, locked_at r t) \<and> least_node t (\<lambda>p. key na < prefix_bits p) r"
proof -
  have "nodes (locked a t) a = Some (na\<lparr>n_lock := n_lock na + 1\<rparr>)" using a by (simp add: locked_nodes)
  from next_node_spec [OF table_invD(1) [OF table_inv_locked [OF inv a]] this]
  obtain r where r: "next_node (locked a t) a = Some r" "least_node t (\<lambda>p. key na < prefix_bits p) r" by auto
  show ?thesis
  proof (cases r)
    case None
    then show ?thesis using r unlock_locked [OF inv a] by (simp add: route_next_def)
  next
    case (Some c)
    obtain nc where c: "nodes t c = Some nc" "key na < key nc" using least_node_in r(2) Some by blast
    then have ca: "c \<noteq> a" using a by auto
    have "route_lock_node c (locked a t) = Some (locked a (locked c t))"
      using lock_locked [of "locked a t" c nc] c(1) ca locked_commute [OF ca] by (simp add: locked_nodes)
    moreover have "route_unlock_node a (locked a (locked c t)) = Some (locked c t)"
      using unlock_locked [OF table_inv_locked [OF inv c(1)], of a na] a ca by (simp add: locked_nodes)
    ultimately show ?thesis using r Some by (simp add: route_next_def)
  qed
qed

subsection \<open>The first node after a prefix\<close>

lemma get_next_eqs:
  "get_next_loop p None t = Some (None, t)"
  "nodes t a = Some nd \<Longrightarrow> (if prefixlen (n_p nd) < prefixlen p then prefix_match (n_p nd) p else prefix_match p (n_p nd)) = Some m \<Longrightarrow>
    get_next_loop p (Some a) t = (if m then
           (if prefixlen (n_p nd) = prefixlen p then do {
              t \<leftarrow> route_lock_node a t;
              (nxt, t) \<leftarrow> route_next t a;
              case nxt of None \<Rightarrow> Some (None, t)
              | Some c \<Rightarrow> do { t \<leftarrow> route_unlock_node c t; Some (Some c, t) } }
            else if prefixlen p < prefixlen (n_p nd) then Some (Some a, t)
            else do {
              b \<leftarrow> prefix_bit (u_prefix p) (prefixlen (n_p nd));
              case link nd b of
                Some c \<Rightarrow> get_next_loop p (Some c) t
              | None \<Rightarrow>
                  if l_right nd \<noteq> None then Some (l_right nd, t)
                  else do { r \<leftarrow> route_get_subtree_next t a; Some (r, t) } })
         else do {
           c \<leftarrow> route_table_prefix_iter_cmp (n_p nd) p;
           if 0 < c then Some (Some a, t)
           else if \<not> c < 0 then None
           else do { r \<leftarrow> route_get_subtree_next t a; Some (r, t) } })"
  by (subst get_next_loop.simps, simp)+

lemma prefix_rel_cases:
  assumes "prefix_ok p" "prefix_ok q"
  obtains (found) "prefixlen q = prefixlen p" "prefix_bits p = prefix_bits q"
    | (below) "prefixlen p < prefixlen q" "covers p q"
    | (above) "prefixlen q < prefixlen p" "covers q p"
    | (off) "\<not> covers p q" "\<not> covers q p"
proof (cases "covers p q \<or> covers q p")
  case True
  then show ?thesis
    using that(1-3) covers_antisym [of p q] covers_antisym [of q p] covers_len [of p q] covers_len [of q p] assms
    by (metis le_antisym nat_less_le order_refl)
next
  case False
  then show ?thesis using that(4) by blast
qed

lemma get_next_loop_spec:
  assumes inv: "table_inv fam H t" and p: "prefix_ok p" and "nodes t a = Some na" "next_at t p (n_p na)"
  shows "\<exists>r. get_next_loop p (Some a) t = Some (r, t) \<and> least_node t (\<lambda>q. prefix_bits p < prefix_bits q) r"
  using assms(3,4)
proof (induction "128 - klen na" arbitrary: a na rule: less_induct)
  case less
  note sh = table_invD(1) [OF inv] and a = less.prems(1) and at = less.prems(2)
  have ok: "prefix_ok (n_p na)" by (rule trie_inv_prefix [OF sh a])
  let ?m = "if klen na < prefixlen p then covers (n_p na) p else covers p (n_p na)"
  have "(if klen na < prefixlen p then prefix_match (n_p na) p else prefix_match p (n_p na)) = Some ?m"
    using prefix_match_eq [OF ok p] prefix_match_eq [OF p ok] by simp
  note eq = get_next_eqs(2) [OF a this]
  from p ok show ?case
  proof (cases rule: prefix_rel_cases)
    case found
    obtain r where "route_next (locked a t) a = Some (r, locked_at r t)" "least_node t (\<lambda>q. key na < prefix_bits q) r"
      using route_next_locked [OF inv a] by blast
    moreover have "(case r of None \<Rightarrow> Some (None, locked_at r t)
        | Some c \<Rightarrow> do { t \<leftarrow> route_unlock_node c (locked_at r t); Some (Some c, t) }) = Some (r, t)"
    proof (cases r)
      case (Some c)
      then obtain nc where "nodes t c = Some nc" using least_node_in calculation(2) by blast
      then show ?thesis using unlock_locked [OF inv] Some by simp
    qed simp
    ultimately show ?thesis using found eq lock_locked [OF a] covers_eqI [OF p ok] by simp
  next
    case below
    then have "prefix_bits p < key na" using prefix_less_iff [OF p ok] by blast
    then show ?thesis using below eq next_at_here [OF sh a at] by simp
  next
    case above
    have bit: "prefix_bit (u_prefix p) (klen na) = Some (prefix_bits p ! klen na)"
      by (rule prefix_bit_prefix [OF p above(1)])
    show ?thesis
    proof (cases "link na (prefix_bits p ! klen na)")
      case (Some c)
      obtain nc where c: "nodes t c = Some nc" "klen na < klen nc" using trie_inv_link [OF sh a Some] by (auto simp: child_ok_def)
      have "klen nc \<le> 128" using trie_inv_prefix [OF sh c(1)] by (auto simp: prefix_ok_def)
      with c(2) have "128 - klen nc < 128 - klen na" by simp
      from less.hyps [OF this c(1) next_at_down [OF sh a p above(2,1) at Some c(1)]] show ?thesis
        using eq above bit Some by simp
    next
      case None
      then show ?thesis using eq above bit next_at_right [OF sh a p above(2,1) at None] next_at_left [OF sh a p above(2,1) at None]
        by (cases "l_right na") auto
    qed
  next
    case off
    note cmp = iter_cmp_spec [OF ok p]
    have sp: "splits (n_p na) p \<or> splits p (n_p na)" using splits_total [OF ok p] off by blast
    show ?thesis
    proof (cases "prefix_bits p < key na")
      case True
      then have "route_table_prefix_iter_cmp (n_p na) p = Some 1" using cmp by (metis less_asym less_irrefl)
      then show ?thesis using eq off next_at_here [OF sh a at True] by simp
    next
      case False
      then have s: "splits (n_p na) p" using sp prefix_less_iff [OF p ok] by blast
      then have "route_table_prefix_iter_cmp (n_p na) p = Some (-1)" using cmp prefix_less_iff [OF ok p] by simp
      moreover have "\<not> prefix_bits p < key nx" if x: "nodes t x = Some nx" "covers (n_p na) (n_p nx)" for x nx
        using splits_covers [OF s x(2) covers_refl [OF p]] prefix_less_iff [OF trie_inv_prefix [OF sh x(1)] p] less_asym by blast
      ultimately show ?thesis using eq off next_at_after [OF sh a at] by fastforce
    qed
  qed
qed

lemma route_table_get_next_spec:
  assumes inv: "table_inv fam H t" and p: "prefix_ok p"
  shows "\<exists>r. route_table_get_next t p = Some (r, locked_at r t) \<and> least_node t (\<lambda>q. prefix_bits p < prefix_bits q) r"
proof -
  note sh = table_invD(1) [OF inv]
  have "\<exists>r. get_next_loop p (t_top t) t = Some (r, t) \<and> least_node t (\<lambda>q. prefix_bits p < prefix_bits q) r"
  proof (cases "t_top t")
    case None
    then have "nodes t x = None" for x using above_top [OF sh, of x] by (cases "nodes t x") auto
    then show ?thesis using None by (simp add: get_next_eqs(1) least_node_def)
  next
    case (Some a)
    then obtain na where a: "nodes t a = Some na" using trie_inv_top [OF sh] by blast
    then show ?thesis using get_next_loop_spec [OF inv p a next_at_top [OF sh Some a]] Some by simp
  qed
  then obtain r where r: "get_next_loop p (t_top t) t = Some (r, t)" "least_node t (\<lambda>q. prefix_bits p < prefix_bits q) r" by blast
  show ?thesis
  proof (cases r)
    case None
    then show ?thesis using r by (simp add: route_table_get_next_def)
  next
    case (Some c)
    obtain nc where c: "nodes t c = Some nc" "prefix_bits p < key nc" using least_node_in r(2) Some by blast
    have "route_table_prefix_iter_cmp (n_p nc) p = Some 1"
      using iter_cmp_spec [OF trie_inv_prefix [OF sh c(1)] p] c(2) by (metis less_asym less_irrefl)
    then show ?thesis using r Some c lock_locked [OF c(1)] by (simp add: route_table_get_next_def)
  qed
qed

subsection \<open>The iterator\<close>

text \<open>All nodes that an iterator returns until it is done.\<close>

partial_function (option) iter_collect ::
    "route_table_iter \<Rightarrow> 'a route_table \<Rightarrow> (nat list \<times> route_table_iter \<times> 'a route_table) option" where
  "iter_collect it t = do {
     (node, it, t) \<leftarrow> route_table_iter_next it t;
     case node of None \<Rightarrow> Some ([], it, t)
     | Some a \<Rightarrow> do { (as, it, t) \<leftarrow> iter_collect it t; Some (a # as, it, t) } }"

lemma collect_eqs:
  "route_table_iter_next it t = Some (None, it', t') \<Longrightarrow> iter_collect it t = Some ([], it', t')"
  "route_table_iter_next it t = Some (Some a, it', t') \<Longrightarrow>
     iter_collect it t = do { (as, it, t) \<leftarrow> iter_collect it' t'; Some (a # as, it, t) }"
  by (subst iter_collect.simps, simp)+

definition iter_after :: "nat option \<Rightarrow> route_table_iter \<Rightarrow> route_table_iter" where
  "iter_after r it = it\<lparr>it_current := r, it_state := (if r \<noteq> None then RT_ITER_STATE_ITERATING else RT_ITER_STATE_DONE)\<rparr>"

lemma iter_next_eqs:
  "it_state it = RT_ITER_STATE_INIT \<Longrightarrow> route_top t = Some (r, t') \<Longrightarrow>
     route_table_iter_next it t = Some (r, iter_after r it, t')"
  "it_state it = RT_ITER_STATE_ITERATING \<Longrightarrow> it_current it = Some a \<Longrightarrow> route_next t a = Some (r, t') \<Longrightarrow>
     route_table_iter_next it t = Some (r, iter_after r it, t')"
  "it_state it = RT_ITER_STATE_PAUSED \<Longrightarrow> route_table_get_next t (it_pause_prefix it) = Some (r, t') \<Longrightarrow>
     route_table_iter_next it t = Some (r, iter_after r it, t')"
  by (simp_all add: route_table_iter_next_def iter_after_def)

lemma iter_after_simps [simp]:
  "it_current (iter_after r it) = r" "it_pause_prefix (iter_after r it) = it_pause_prefix it"
  "it_state (iter_after None it) = RT_ITER_STATE_DONE" "it_state (iter_after (Some a) it) = RT_ITER_STATE_ITERATING"
  by (simp_all add: iter_after_def)

definition key_of :: "'a route_table \<Rightarrow> nat \<Rightarrow> bool list" where
  "key_of t a = (case nodes t a of None \<Rightarrow> [] | Some nd \<Rightarrow> key nd)"

lemma least_node_after:
  assumes "least_node t (\<lambda>p. k < prefix_bits p) (Some c)" "nodes t c = Some nc"
  shows "{x. \<exists>nx. nodes t x = Some nx \<and> k < key nx} = {x. \<exists>nx. nodes t x = Some nx \<and> key nc \<le> key nx}"
proof -
  have "key nc \<le> key nx \<longleftrightarrow> k < key nx" if "nodes t x = Some nx" for x nx
    using assms that unfolding least_node_def by (auto intro: less_le_trans)
  then show ?thesis by blast
qed

lemma nodes_from:
  assumes "trie_shape fam t" "nodes t c = Some nc"
  shows "{x. \<exists>nx. nodes t x = Some nx \<and> key nc \<le> key nx} = insert c {x. \<exists>nx. nodes t x = Some nx \<and> key nc < key nx}"
proof -
  have "key nc \<le> key nx \<longleftrightarrow> x = c \<or> key nc < key nx" if "nodes t x = Some nx" for x nx
    using trie_unique [OF assms(1,2) that] assms(2) that by (auto simp: le_less)
  then show ?thesis using assms(2) by auto
qed

lemma iter_collect_from:
  assumes inv: "table_inv fam H t" and "nodes t a = Some na" "it_state it = RT_ITER_STATE_ITERATING" "it_current it = Some a"
  shows "\<exists>as it'. iter_collect it (locked a t) = Some (as, it', t) \<and> it_state it' = RT_ITER_STATE_DONE \<and> it_current it' = None
    \<and> set as = {x. \<exists>nx. nodes t x = Some nx \<and> key na < key nx} \<and> sorted_wrt (<) (map (key_of t) (a # as))"
  using assms(2-)
proof (induction "card {x. \<exists>nx. nodes t x = Some nx \<and> key na < key nx}" arbitrary: a na it rule: less_induct)
  case less
  note sh = table_invD(1) [OF inv]
  have fin: "finite {x. \<exists>nx. nodes t x = Some nx \<and> k < key nx}" for k
    by (rule finite_subset [OF _ trie_inv_finite [OF sh]]) auto
  obtain r where r: "route_next (locked a t) a = Some (r, locked_at r t)" "least_node t (\<lambda>p. key na < prefix_bits p) r"
    using route_next_locked [OF inv less.prems(1)] by blast
  note nxt = iter_next_eqs(2) [OF less.prems(2,3) r(1)]
  show ?case
  proof (cases r)
    case None
    have "{x. \<exists>nx. nodes t x = Some nx \<and> key na < key nx} = {}" using r(2) None by (auto simp: least_node_def)
    moreover have "iter_collect it (locked a t) = Some ([], iter_after None it, t)" using collect_eqs(1) [OF nxt [unfolded None]] by simp
    ultimately show ?thesis by (intro exI [of _ "[]"] exI [of _ "iter_after None it"]) simp
  next
    case (Some c)
    obtain nc where c: "nodes t c = Some nc" "key na < key nc" using least_node_in r(2) Some by blast
    have after: "{x. \<exists>nx. nodes t x = Some nx \<and> key na < key nx} = insert c {x. \<exists>nx. nodes t x = Some nx \<and> key nc < key nx}"
      using least_node_after [OF r(2) [unfolded Some] c(1)] nodes_from [OF sh c(1)] by simp
    moreover have "c \<notin> {x. \<exists>nx. nodes t x = Some nx \<and> key nc < key nx}" using c(1) by simp
    ultimately have "card {x. \<exists>nx. nodes t x = Some nx \<and> key nc < key nx} < card {x. \<exists>nx. nodes t x = Some nx \<and> key na < key nx}"
      using fin by simp
    from less.hyps [OF this c(1), of "iter_after r it"] Some obtain as it' where
      as: "iter_collect (iter_after r it) (locked c t) = Some (as, it', t)" "it_state it' = RT_ITER_STATE_DONE" "it_current it' = None"
        "set as = {x. \<exists>nx. nodes t x = Some nx \<and> key nc < key nx}" "sorted_wrt (<) (map (key_of t) (c # as))" by auto
    have "iter_collect it (locked a t) = Some (c # as, it', t)" using collect_eqs(2) [OF nxt [unfolded Some]] as(1) Some by simp
    moreover have "sorted_wrt (<) (map (key_of t) (a # c # as))"
      using as(5) c less.prems(1) by (auto simp: key_of_def)
    ultimately show ?thesis using as(2-4) after by auto
  qed
qed

lemma iter_collect_all:
  assumes inv: "table_inv fam H t"
  shows "\<exists>as it. iter_collect route_table_iter_init t = Some (as, it, t) \<and> it_state it = RT_ITER_STATE_DONE
    \<and> set as = dom (nodes t) \<and> sorted_wrt (<) (map (key_of t) as)"
proof (cases "t_top t")
  case None
  then have "nodes t x = None" for x using above_top [OF table_invD(1) [OF inv], of x] by (cases "nodes t x") auto
  then have "dom (nodes t) = {}" by auto
  moreover have "route_top t = Some (None, t)" using None by (simp add: route_top_def)
  then have "iter_collect route_table_iter_init t = Some ([], iter_after None route_table_iter_init, t)"
    by (intro collect_eqs(1) iter_next_eqs(1)) (simp_all add: route_table_iter_init_def)
  ultimately show ?thesis by (intro exI [of _ "[]"] exI [of _ "iter_after None route_table_iter_init"]) simp
next
  case (Some a)
  note sh = table_invD(1) [OF inv]
  obtain na where a: "nodes t a = Some na" using trie_inv_top [OF sh Some] by blast
  let ?it = "iter_after (Some a) route_table_iter_init"
  have init: "it_state route_table_iter_init = RT_ITER_STATE_INIT" by (simp add: route_table_iter_init_def)
  have top: "route_top t = Some (Some a, locked a t)" using Some lock_locked [OF a] by (simp add: route_top_def)
  obtain as it' where as: "iter_collect ?it (locked a t) = Some (as, it', t)" "it_state it' = RT_ITER_STATE_DONE"
    "set as = {x. \<exists>nx. nodes t x = Some nx \<and> key na < key nx}" "sorted_wrt (<) (map (key_of t) (a # as))"
    using iter_collect_from [OF inv a, of ?it] by auto
  have "key na \<le> key nx" if x: "nodes t x = Some nx" for x nx
    using trie_top_covers [OF sh x] Some a covers_key_le [OF trie_inv_prefix [OF sh a] trie_inv_prefix [OF sh x]] by auto
  then have "set (a # as) = dom (nodes t)" using nodes_from [OF sh a] as(3) by auto
  moreover have "iter_collect route_table_iter_init t = Some (a # as, it', t)"
    using collect_eqs(2) [OF iter_next_eqs(1) [OF init top]] as(1) by simp
  ultimately show ?thesis using as(2,4) by blast
qed

lemma iter_pause_spec:
  assumes inv: "table_inv fam H t" and a: "nodes t a = Some na"
    and it: "it_state it = RT_ITER_STATE_ITERATING" "it_current it = Some a" "length (u_prefix (it_pause_prefix it)) = 16"
  shows "\<exists>it'. route_table_iter_pause it (locked a t) = Some (it', t) \<and> it_state it' = RT_ITER_STATE_PAUSED
    \<and> it_current it' = None \<and> prefix_ok (it_pause_prefix it') \<and> prefix_bits (it_pause_prefix it') = key na"
proof -
  obtain q where q: "prefix_copy (it_pause_prefix it) (n_p na) = Some q" "prefix_ok q" "prefix_bits q = key na"
    using prefix_copy_spec [OF trie_inv_prefix [OF table_invD(1) [OF inv] a] it(3)] by blast
  then show ?thesis using it unlock_locked [OF inv a] a by (auto simp: route_table_iter_pause_def locked_nodes)
qed

lemma iter_resume_spec:
  assumes inv: "table_inv fam H t" and it: "it_state it = RT_ITER_STATE_PAUSED" "prefix_ok (it_pause_prefix it)"
  shows "\<exists>r. route_table_iter_next it t = Some (r, iter_after r it, locked_at r t)
    \<and> least_node t (\<lambda>q. prefix_bits (it_pause_prefix it) < prefix_bits q) r"
  using route_table_get_next_spec [OF inv it(2)] iter_next_eqs(3) [OF it(1)] by blast

end
