(* ===== verification/Route_Table_Runs.thy ===== *)
theory Route_Table_Runs
  imports Route_Table_Iter
begin

text \<open>
  Runs of a route table (\<open>lib/table.c\<close>): what every sequence of operations of its
  clients gives. The tree stays well formed, the counters are exact, the table stores
  the map the clients think of, every operation returns, and a table whose references
  have all been released is empty.
\<close>

section \<open>A route table in use\<close>

subsection \<open>Releasing a whole table\<close>

lemma free_loop_eqs:
  "nodes t a = Some na \<Longrightarrow> link na b = Some c \<Longrightarrow> b \<longrightarrow> l_left na = None \<Longrightarrow> free_loop a t = free_loop c t"
  "nodes t a = Some na \<Longrightarrow> l_left na = None \<Longrightarrow> l_right na = None \<Longrightarrow> n_parent na = None \<Longrightarrow>
     free_loop a t = Some (route_node_free a (t\<lparr>t_count := t_count t - 1\<rparr>))"
  "nodes t a = Some na \<Longrightarrow> l_left na = None \<Longrightarrow> l_right na = None \<Longrightarrow> n_parent na = Some q \<Longrightarrow>
     free_loop a t = do { t \<leftarrow> modify q (\<lambda>x. with_link (l_left x \<noteq> Some a) None x) (route_node_free a (t\<lparr>t_count := t_count t - 1\<rparr>));
       free_loop q t }"
  by (subst free_loop.simps, simp add: link_def split: if_splits option.splits)+

text \<open>Freeing a leaf before or after its parent's link is cut comes to the same.\<close>

lemma free_leaf_unlink:
  assumes "nodes t a = Some na" "l_left na = None" "l_right na = None" "n_parent na = Some q" "q \<noteq> a"
  shows "modify q (\<lambda>x. with_link (l_left x \<noteq> Some a) None x) (route_node_free a (t\<lparr>t_count := t_count t - 1\<rparr>)) = unlink_node a na t"
  using assms by (cases "nodes t q") (auto simp: unlink_node_def modify_def route_node_free_def fun_upd_twist)

lemma free_loop_spec:
  assumes "trie_shape fam t" "t_count t = card (dom (nodes t))" "nodes t a = Some na"
  shows "\<exists>t'. free_loop a t = Some t' \<and> nodes t' = Map.empty \<and> t_count t' = 0"
  using assms
proof (induction "card (dom (nodes t)) * 200 + (128 - klen na)" arbitrary: t a na rule: less_induct)
  case less
  note sh = less.prems(1) and a = less.prems(3)
  show ?case
  proof (cases "\<exists>b c. link na b = Some c \<and> (b \<longrightarrow> l_left na = None)")
    case True
    then obtain b c where c: "link na b = Some c" "b \<longrightarrow> l_left na = None" by blast
    obtain nc where nc: "nodes t c = Some nc" "klen na < klen nc" using trie_inv_link [OF sh a c(1)] by (auto simp: child_ok_def)
    have "klen nc \<le> 128" using trie_inv_prefix [OF sh nc(1)] by (auto simp: prefix_ok_def)
    then have "card (dom (nodes t)) * 200 + (128 - klen nc) < card (dom (nodes t)) * 200 + (128 - klen na)" using nc(2) by simp
    from less.hyps [OF this sh less.prems(2) nc(1)] free_loop_eqs(1) [OF a c] show ?thesis by simp
  next
    case False
    then have no: "link na b = None" if "b \<longrightarrow> l_left na = None" for b using that by (cases "link na b") blast+
    have leaf: "l_left na = None" "l_right na = None" using no [of False] no [of True] by (simp_all add: link_def)
    show ?thesis
    proof (cases "n_parent na")
      case None
      have "x = a" if x: "nodes t x = Some nx" for x nx
      proof (rule ccontr)
        assume "x \<noteq> a"
        have "above t a x" using above_top [OF sh x] trie_inv_root [OF sh a None] by simp
        from above_child [OF this sh _ a x] \<open>x \<noteq> a\<close> leaf show False by (auto simp: link_def split: if_splits)
      qed
      then have "dom (nodes t) = {a}" using a by blast
      then show ?thesis using free_loop_eqs(2) [OF a leaf None] less.prems(2) by (auto simp: route_node_free_def fun_eq_iff domIff)
    next
      case (Some q)
      obtain t1 s where t1: "unlink_node a na t = Some t1" "trie_shape fam t1" "slot t (n_parent na) s = Some a"
        "node_data t1 = (node_data t)(a := None)" "t_count t1 = t_count t - 1"
        using unlink_node_spec [OF sh a] leaf(1) by blast
      have q: "q \<noteq> a" "q \<in> dom (nodes t)" using slot_parent_in [OF sh t1(3) [unfolded Some]] by auto
      have dom1: "dom (nodes t1) = dom (nodes t) - {a}" using t1(4) dom_node_data [of t1] dom_node_data [of t] by auto
      have ain: "a \<in> dom (nodes t)" "finite (dom (nodes t))" using a trie_inv_finite [OF sh] by blast+
      have card1: "card (dom (nodes t1)) = card (dom (nodes t)) - 1" "0 < card (dom (nodes t))"
        using dom1 ain card_Diff_singleton [OF ain(1)] by (auto simp: card_gt_0_iff)
      obtain nq where nq: "nodes t1 q = Some nq" using q dom1 by auto
      have "card (dom (nodes t1)) * 200 + (128 - klen nq) < card (dom (nodes t)) * 200 + (128 - klen na)"
        using card1 by linarith
      from less.hyps [OF this t1(2) _ nq] t1(5) card1 less.prems(2) obtain t' where
        "free_loop q t1 = Some t'" "nodes t' = Map.empty" "t_count t' = 0" by auto
      then show ?thesis using free_loop_eqs(3) [OF a leaf Some] free_leaf_unlink [OF a leaf Some q(1)] t1(1) by simp
    qed
  qed
qed

lemma route_table_free_spec:
  assumes inv: "table_inv fam H t"
  shows "\<exists>t'. route_table_free t = Some t' \<and> nodes t' = Map.empty"
proof (cases "t_top t")
  case None
  then have "nodes t x = None" for x using above_top [OF table_invD(1) [OF inv], of x] by (cases "nodes t x") auto
  then have "nodes t = Map.empty" by auto
  then show ?thesis using None table_invD(2) [OF inv] by (simp add: route_table_free_def)
next
  case (Some a)
  then obtain na where "nodes t a = Some na" using trie_inv_top [OF table_invD(1) [OF inv]] by blast
  from free_loop_spec [OF table_invD(1,2) [OF inv] this] Some show ?thesis by (auto simp: route_table_free_def)
qed

subsection \<open>Runs of a table\<close>

text \<open>
  What the clients of a table do, in any order: they look up a prefix or find the best
  match, which gives them a reference to the node if there is one, get the node of a
  prefix, walk from a node they hold to the next one, take another reference to a node
  they hold, set the data of a node they hold, and release a reference. The last
  reference to a node with data is not released. In
  \<open>table_run fam H M t\<close>, \<open>H\<close> has the references held and \<open>M\<close> is the map from
  prefixes to data that the clients think of.
\<close>

abbreviation take_ref :: "nat option \<Rightarrow> nat multiset \<Rightarrow> nat multiset" where
  "take_ref r H \<equiv> (case r of None \<Rightarrow> H | Some a \<Rightarrow> add_mset a H)"

inductive table_run :: "nat \<Rightarrow> nat multiset \<Rightarrow> (bool list \<rightharpoonup> 'a) \<Rightarrow> 'a route_table \<Rightarrow> bool" for fam where
  init: "table_run fam {#} Map.empty route_table_init"
| lookup: "table_run fam H M t \<Longrightarrow> prefix_ok p \<Longrightarrow> route_node_lookup t p = Some (r, t') \<Longrightarrow> table_run fam (take_ref r H) M t'"
| match: "table_run fam H M t \<Longrightarrow> prefix_ok p \<Longrightarrow> route_node_match t p = Some (r, t') \<Longrightarrow> table_run fam (take_ref r H) M t'"
| get: "table_run fam H M t \<Longrightarrow> prefix_ok p \<Longrightarrow> family p = fam \<Longrightarrow>
     nodes t new1 = None \<Longrightarrow> nodes t new2 = None \<Longrightarrow> new1 \<noteq> new2 \<Longrightarrow>
     route_node_get new1 new2 t p = Some (a, t') \<Longrightarrow> table_run fam (add_mset a H) M t'"
| lock: "table_run fam H M t \<Longrightarrow> a \<in># H \<Longrightarrow> route_lock_node a t = Some t' \<Longrightarrow> table_run fam (add_mset a H) M t'"
| info: "table_run fam H M t \<Longrightarrow> a \<in># H \<Longrightarrow> nodes t a = Some nd \<Longrightarrow> modify a (\<lambda>nd. nd\<lparr>n_info := i\<rparr>) t = Some t' \<Longrightarrow>
     table_run fam H (M(key nd := i)) t'"
| top: "table_run fam H M t \<Longrightarrow> route_top t = Some (r, t') \<Longrightarrow> table_run fam (take_ref r H) M t'"
| get_next: "table_run fam H M t \<Longrightarrow> prefix_ok p \<Longrightarrow> route_table_get_next t p = Some (r, t') \<Longrightarrow>
     table_run fam (take_ref r H) M t'"
| step: "table_run fam (add_mset a H) M t \<Longrightarrow> nodes t a = Some nd \<Longrightarrow> a \<in># H \<or> n_info nd = None \<Longrightarrow>
     route_next t a = Some (r, t') \<Longrightarrow> table_run fam (take_ref r H) M t'"
| step_until: "table_run fam (add_mset a H) M t \<Longrightarrow> nodes t a = Some nd \<Longrightarrow> a \<in># H \<or> n_info nd = None \<Longrightarrow>
     nodes t lim = Some nl \<Longrightarrow> covers (n_p nl) (n_p nd) \<Longrightarrow>
     route_next_until t a lim = Some (r, t') \<Longrightarrow> table_run fam (take_ref r H) M t'"
| unlock: "table_run fam (add_mset a H) M t \<Longrightarrow> nodes t a = Some nd \<Longrightarrow> a \<in># H \<or> n_info nd = None \<Longrightarrow>
     route_unlock_node a t = Some t' \<Longrightarrow> table_run fam H M t'"

definition table_of :: "nat \<Rightarrow> nat multiset \<Rightarrow> (bool list \<rightharpoonup> 'a) \<Rightarrow> 'a route_table \<Rightarrow> bool" where
  "table_of fam H M t \<longleftrightarrow> table_inv fam H t \<and> (\<forall>k v. stores t k v \<longleftrightarrow> M k = Some v)"

lemma lookup_loop_top:
  assumes "trie_shape fam t" "prefix_ok p"
  shows "\<exists>r. lookup_loop t p (t_top t) = Some r \<and>
    (\<forall>x. r = Some x \<longleftrightarrow> (\<exists>nx. nodes t x = Some nx \<and> key nx = prefix_bits p \<and> n_info nx \<noteq> None))"
  using lookup_loop_spec [OF assms seek_top [OF assms(1)]] by simp

lemma match_loop_top:
  assumes "trie_shape fam t" "prefix_ok p"
  shows "\<exists>r. match_loop t p (t_top t) None = Some r \<and> ((\<exists>x. r = Some x \<and> longest_match t p 0 x)
    \<or> r = None \<and> (\<forall>y ny. nodes t y = Some ny \<and> covers (n_p ny) p \<longrightarrow> n_info ny = None))"
  using match_loop_spec [OF assms seek_top [OF assms(1)], of None] by auto

lemma lock_held_node:
  assumes inv: "table_inv fam H t" and a: "nodes t a = Some na"
  shows "\<exists>t'. route_lock_node a t = Some t' \<and> table_inv fam (add_mset a H) t' \<and> stores t' = stores t
    \<and> node_data t' = (node_data t)(a \<mapsto> (n_p na, n_lock na + 1, n_info na))"
proof -
  have "n_lock na = count H a" by (rule heldD(1) [OF table_invD(4) [OF inv] node_dataI [OF a]])
  then show ?thesis using route_lock_spec [OF table_invD(1-4) [OF inv], of a "n_p na" "n_info na"] node_dataI [OF a] by simp
qed

lemma found_ref:
  assumes inv: "table_inv fam H t" and r: "\<And>a. r = Some a \<Longrightarrow> \<exists>na. nodes t a = Some na"
  shows "\<exists>t'. (case r of None \<Rightarrow> Some (None, t) | Some a \<Rightarrow> do { t \<leftarrow> route_lock_node a t; Some (Some a, t) }) = Some (r, t')
    \<and> table_inv fam (take_ref r H) t' \<and> stores t' = stores t"
  using r lock_held_node [OF inv] inv by (cases r) fastforce+

lemma route_node_lookup_spec:
  assumes inv: "table_inv fam H t" and p: "prefix_ok p"
  shows "\<exists>r t'. route_node_lookup t p = Some (r, t') \<and> table_inv fam (take_ref r H) t' \<and> stores t' = stores t
    \<and> (\<forall>x. r = Some x \<longleftrightarrow> (\<exists>nx. nodes t x = Some nx \<and> key nx = prefix_bits p \<and> n_info nx \<noteq> None))"
proof -
  obtain r where r: "lookup_loop t p (t_top t) = Some r"
      "\<forall>x. r = Some x \<longleftrightarrow> (\<exists>nx. nodes t x = Some nx \<and> key nx = prefix_bits p \<and> n_info nx \<noteq> None)"
    using lookup_loop_top [OF table_invD(1) [OF inv] p] by blast
  then show ?thesis using found_ref [OF inv, of r] by (auto simp: route_node_lookup_def)
qed

lemma route_node_match_spec:
  assumes inv: "table_inv fam H t" and p: "prefix_ok p"
  shows "\<exists>r t'. route_node_match t p = Some (r, t') \<and> table_inv fam (take_ref r H) t' \<and> stores t' = stores t
    \<and> (case r of Some x \<Rightarrow> longest_match t p 0 x
       | None \<Rightarrow> \<forall>y ny. nodes t y = Some ny \<and> covers (n_p ny) p \<longrightarrow> n_info ny = None)"
proof -
  obtain r where r: "match_loop t p (t_top t) None = Some r" "(\<exists>x. r = Some x \<and> longest_match t p 0 x)
    \<or> r = None \<and> (\<forall>y ny. nodes t y = Some ny \<and> covers (n_p ny) p \<longrightarrow> n_info ny = None)"
    using match_loop_top [OF table_invD(1) [OF inv] p] by blast
  have "\<exists>na. nodes t a = Some na" if "r = Some a" for a using r(2) that by (auto simp: longest_match_def)
  then obtain t' where "(case r of None \<Rightarrow> Some (None, t) | Some a \<Rightarrow> do { t \<leftarrow> route_lock_node a t; Some (Some a, t) }) = Some (r, t')"
    "table_inv fam (take_ref r H) t'" "stores t' = stores t" using found_ref [OF inv, of r] by blast
  then show ?thesis using r by (intro exI [of _ r] exI [of _ t']) (auto simp: route_node_match_def)
qed

lemma route_top_spec:
  assumes inv: "table_inv fam H t"
  shows "\<exists>t'. route_top t = Some (t_top t, t') \<and> table_inv fam (take_ref (t_top t) H) t' \<and> stores t' = stores t"
  using found_ref [OF inv, of "t_top t"] trie_inv_top [OF table_invD(1) [OF inv]] unfolding route_top_def by blast

lemma stores_locked: "stores (locked a t) = stores t"
  by (rule stores_same_info) (auto simp: fun_eq_iff node_data_def locked_nodes option.map_comp comp_def)

lemma get_next_ref:
  assumes inv: "table_inv fam H t" and p: "prefix_ok p"
  shows "\<exists>r t'. route_table_get_next t p = Some (r, t') \<and> table_inv fam (take_ref r H) t' \<and> stores t' = stores t"
proof -
  obtain r where r: "route_table_get_next t p = Some (r, locked_at r t)" "least_node t (\<lambda>q. prefix_bits p < prefix_bits q) r"
    using route_table_get_next_spec [OF inv p] by blast
  have "table_inv fam (take_ref r H) (locked_at r t) \<and> stores (locked_at r t) = stores t"
  proof (cases r)
    case (Some c)
    then obtain nc where "nodes t c = Some nc" using least_node_in r(2) by blast
    then show ?thesis using table_inv_locked [OF inv] stores_locked Some by simp
  qed (simp add: inv)
  then show ?thesis using r(1) by blast
qed

text \<open>A step from a node to another: the reference to the first one is released.\<close>

lemma step_ref:
  assumes inv: "table_inv fam (add_mset a H) t" and a: "nodes t a = Some na" "a \<in># H \<or> n_info na = None"
    and r: "\<And>c. r = Some c \<Longrightarrow> \<exists>nc. nodes t c = Some nc"
  shows "\<exists>t'. (do { t \<leftarrow> (case r of None \<Rightarrow> Some t | Some c \<Rightarrow> route_lock_node c t); t \<leftarrow> route_unlock_node a t; Some (r, t) }) = Some (r, t')
    \<and> table_inv fam (take_ref r H) t' \<and> stores t' = stores t"
proof -
  have "\<exists>t1 k. (case r of None \<Rightarrow> Some t | Some c \<Rightarrow> route_lock_node c t) = Some t1 \<and> table_inv fam (add_mset a (take_ref r H)) t1
    \<and> stores t1 = stores t \<and> node_data t1 a = Some (n_p na, k, n_info na)"
  proof (cases r)
    case None
    then show ?thesis using inv node_dataI [OF a(1)] by auto
  next
    case (Some c)
    then obtain nc where c: "nodes t c = Some nc" using r by blast
    obtain t1 where "route_lock_node c t = Some t1" "table_inv fam (add_mset c (add_mset a H)) t1" "stores t1 = stores t"
      "node_data t1 = (node_data t)(c \<mapsto> (n_p nc, n_lock nc + 1, n_info nc))" using lock_held_node [OF inv c] by blast
    then show ?thesis using Some c a(1) node_dataI [OF a(1)] by (auto simp: add_mset_commute)
  qed
  then obtain t1 k where t1: "(case r of None \<Rightarrow> Some t | Some c \<Rightarrow> route_lock_node c t) = Some t1"
    "table_inv fam (add_mset a (take_ref r H)) t1" "stores t1 = stores t" "node_data t1 a = Some (n_p na, k, n_info na)" by blast
  have "a \<in># take_ref r H \<or> n_info na = None" using a(2) by (cases r) auto
  from route_unlock_node_spec [OF t1(2,4) this] show ?thesis using t1(1,3) by auto
qed

lemma route_next_ref:
  assumes inv: "table_inv fam (add_mset a H) t" and a: "nodes t a = Some na" "a \<in># H \<or> n_info na = None"
  shows "\<exists>r t'. route_next t a = Some (r, t') \<and> table_inv fam (take_ref r H) t' \<and> stores t' = stores t"
proof -
  obtain r where r: "next_node t a = Some r" "least_node t (\<lambda>p. key na < prefix_bits p) r"
    using next_node_spec [OF table_invD(1) [OF inv] a(1)] by blast
  have "\<exists>nc. nodes t c = Some nc" if "r = Some c" for c using least_node_in r(2) that by blast
  then show ?thesis using step_ref [OF inv a, of r] r(1) by (auto simp: route_next_def)
qed

lemma route_next_until_ref:
  assumes inv: "table_inv fam (add_mset a H) t" and a: "nodes t a = Some na" "a \<in># H \<or> n_info na = None"
    and lim: "nodes t lim = Some nl" "covers (n_p nl) (n_p na)"
  shows "\<exists>r t'. route_next_until t a lim = Some (r, t') \<and> table_inv fam (take_ref r H) t' \<and> stores t' = stores t"
proof -
  obtain r where r: "next_node_until t a lim = Some r" "least_node t (\<lambda>p. key na < prefix_bits p \<and> covers (n_p nl) p) r"
    using next_node_until_spec [OF table_invD(1) [OF inv] lim(1) a(1) lim(2)] by blast
  have "\<exists>nc. nodes t c = Some nc" if "r = Some c" for c using least_node_in r(2) that by blast
  then show ?thesis using step_ref [OF inv a, of r] r(1) by (auto simp: route_next_until_eq)
qed

lemma info_table_of:
  assumes inv: "table_of fam H M t" and a: "a \<in># H" "nodes t a = Some nd"
    and t': "modify a (\<lambda>nd. nd\<lparr>n_info := i\<rparr>) t = Some t'"
  shows "table_of fam H (M(key nd := i)) t'"
proof -
  have I: "table_inv fam H t" "\<And>k v. stores t k v \<longleftrightarrow> M k = Some v" using inv by (auto simp: table_of_def)
  note J = table_invD [OF I(1)]
  have n': "nodes t' = (nodes t)(a \<mapsto> nd\<lparr>n_info := i\<rparr>)" using t' a(2) by (auto simp: modify_def)
  have v: "node_data t' = (node_data t)(a \<mapsto> (n_p nd, n_lock nd, i))" "par_of t' = par_of t" "slot t' = slot t" "t_count t' = t_count t"
    using view_data [of t a nd "\<lambda>nd. nd\<lparr>n_info := i\<rparr>"] t' a(2) by auto
  have dom: "dom (nodes t') = dom (nodes t)" using same_dom [OF v(1)] a(2) by (simp add: insert_absorb domI)
  have "pfx t' = pfx t" using v(1) node_dataI [OF a(2)] by (auto simp: pfx_node_data)
  then have sh: "trie_shape fam t'" using trie_shape_view [OF J(1)] v(2,3) by blast
  have lock: "n_lock nd = count H a" by (rule heldD(1) [OF J(4) node_dataI [OF a(2)]])
  have "held H t' x" for x
  proof (cases "x = a")
    case True
    then show ?thesis using held_pos [of t' a "n_p nd" "n_lock nd" i H] v(1) lock a(1) by (simp add: count_eq_zero_iff)
  next
    case False
    then show ?thesis using held_other [OF J(4)] v(1,3) by simp
  qed
  then have "table_inv fam H t'" using table_invI [OF sh] v(4) dom J(2,3) by simp
  moreover have "stores t' k v \<longleftrightarrow> (M(key nd := i)) k = Some v" for k v
  proof (cases "k = key nd")
    case True
    have "x = a" if "nodes t x = Some nx" "key nx = key nd" for x nx using trie_unique [OF J(1) that(1) a(2)] that(2) by simp
    then show ?thesis using True n' by (auto simp: stores_def split: if_splits)
  next
    case False
    then have "(nodes t' x = Some nx \<and> key nx = k) = (nodes t x = Some nx \<and> key nx = k)" for x nx
      using n' a(2) by (cases "x = a") auto
    then have "stores t' k v \<longleftrightarrow> stores t k v" unfolding stores_def by metis
    then show ?thesis using False I(2) by simp
  qed
  ultimately show ?thesis by (simp add: table_of_def)
qed

lemma table_run_table_of: "table_run fam H M t \<Longrightarrow> table_of fam H M t"
proof (induction rule: table_run.induct)
  case init
  then show ?case by (simp add: table_of_def table_inv_init stores_def) (simp add: route_table_init_def)
next
  case (lookup H M t p r t')
  then show ?case using route_node_lookup_spec [of fam H t p] by (auto simp: table_of_def)
next
  case (match H M t p r t')
  then show ?case using route_node_match_spec [of fam H t p] by (auto simp: table_of_def)
next
  case (get H M t p new1 new2 a t')
  then show ?case using route_node_get_spec [of fam H t new1 new2 p] by (auto simp: table_of_def)
next
  case (lock H M t a t')
  then obtain na where "nodes t a = Some na" using table_invD(3) by (fastforce simp: table_of_def)
  then show ?case using lock lock_held_node [of fam H t a na] by (auto simp: table_of_def)
next
  case (info H M t a nd i t')
  then show ?case using info_table_of by blast
next
  case (top H M t r t')
  then show ?case using route_top_spec [of fam H t] by (auto simp: table_of_def)
next
  case (get_next H M t p r t')
  then show ?case using get_next_ref [of fam H t p] by (auto simp: table_of_def)
next
  case (step a H M t nd r t')
  then show ?case using route_next_ref [of fam a H t nd] by (auto simp: table_of_def)
next
  case (step_until a H M t nd lim nl r t')
  then show ?case using route_next_until_ref [of fam a H t nd lim nl] by (auto simp: table_of_def)
next
  case (unlock a H M t nd t')
  then show ?case using route_unlock_node_spec [of fam a H t "n_p nd" "n_lock nd" "n_info nd"]
    by (auto simp: table_of_def node_dataI)
qed

text \<open>A leaf is held by somebody: with no reference left there is no node left.\<close>

lemma released_empty:
  assumes "table_inv fam {#} t"
  shows "dom (nodes t) = {}"
proof (rule ccontr)
  assume ne: "dom (nodes t) \<noteq> {}"
  note I = table_invD [OF assms]
  let ?len = "\<lambda>a. prefixlen (the (pfx t a))"
  have fin: "finite (dom (nodes t))" by (rule trie_inv_finite [OF I(1)])
  obtain a where a: "a \<in> dom (nodes t)" "\<And>x. x \<in> dom (nodes t) \<Longrightarrow> ?len x \<le> ?len a"
    using Max_in [of "?len ` dom (nodes t)"] Max_ge [of "?len ` dom (nodes t)"] fin ne by fastforce
  then obtain p k i where d: "node_data t a = Some (p, k, i)" by (metis dom_node_data domD prod_cases3)
  then obtain c where c: "slot t (Some a) False = Some c" using heldD [OF I(4) d] by auto
  obtain pa pc where "pfx t a = Some pa" "pfx t c = Some pc" "prefixlen pa < prefixlen pc"
    using slot_Some(2) [OF I(1) c] by (auto simp: fits_def)
  moreover from this have "c \<in> dom (nodes t)" by (auto simp: pfx_def)
  ultimately show False using a(2) [of c] by simp
qed

subsection \<open>The data of a prefix\<close>

text \<open>What a client reads that looks up a prefix.\<close>

definition lookup_data :: "'a route_table \<Rightarrow> prefix \<Rightarrow> 'a option option" where
  "lookup_data t p = do {
     (r, t') \<leftarrow> route_node_lookup t p;
     case r of None \<Rightarrow> Some None | Some a \<Rightarrow> map_option n_info (nodes t' a) }"

lemma table_ofD:
  assumes "table_of fam H M t"
  shows "table_inv fam H t" "stores t k v \<longleftrightarrow> M k = Some v" "trie_shape fam t"
  using assms table_invD(1) by (auto simp: table_of_def)

lemma lookup_data_eq:
  assumes inv: "table_of fam H M t" and p: "prefix_ok p"
  shows "lookup_data t p = Some (M (prefix_bits p))"
proof -
  note I = table_ofD [OF inv]
  obtain r where r: "lookup_loop t p (t_top t) = Some r"
      "\<forall>x. r = Some x \<longleftrightarrow> (\<exists>nx. nodes t x = Some nx \<and> key nx = prefix_bits p \<and> n_info nx \<noteq> None)"
    using lookup_loop_top [OF I(3) p] by blast
  show ?thesis
  proof (cases r)
    case None
    then have "\<not> stores t (prefix_bits p) v" for v using r(2) unfolding stores_def by (metis option.distinct(1))
    then have "M (prefix_bits p) = None" using I(2) by (metis not_None_eq)
    then show ?thesis using None r(1) by (simp add: lookup_data_def route_node_lookup_def)
  next
    case (Some a)
    then obtain na v where a: "nodes t a = Some na" "key na = prefix_bits p" "n_info na = Some v" using r(2) by auto
    then have "M (prefix_bits p) = Some v" using I(2) [of "prefix_bits p" v] unfolding stores_def by blast
    then show ?thesis using Some r(1) a lock_locked [OF a(1)] by (simp add: lookup_data_def route_node_lookup_def locked_nodes)
  qed
qed

text \<open>Storing data under a prefix: get its node and set the data, keeping the reference.\<close>

lemma put_table_of:
  assumes inv: "table_of fam H M t" and p: "prefix_ok p" "family p = fam"
    and new: "nodes t new1 = None" "nodes t new2 = None" "new1 \<noteq> new2"
  shows "\<exists>a t1 t2. route_node_get new1 new2 t p = Some (a, t1) \<and> modify a (\<lambda>nd. nd\<lparr>n_info := Some v\<rparr>) t1 = Some t2
    \<and> table_of fam (add_mset a H) (M(prefix_bits p \<mapsto> v)) t2"
proof -
  obtain a t1 p' k i where t1: "route_node_get new1 new2 t p = Some (a, t1)" "table_inv fam (add_mset a H) t1"
    "node_data t1 a = Some (p', k, i)" "prefix_bits p' = prefix_bits p" "stores t1 = stores t"
    using route_node_get_spec [OF table_ofD(1) [OF inv] new p] by blast
  obtain nd where nd: "nodes t1 a = Some nd" "n_p nd = p'" by (rule node_dataD [OF t1(3)])
  obtain t2 where t2: "modify a (\<lambda>nd. nd\<lparr>n_info := Some v\<rparr>) t1 = Some t2" using nd(1) by (simp add: modify_def)
  have "table_of fam (add_mset a H) M t1" using t1(2,5) inv by (simp add: table_of_def)
  from info_table_of [OF this _ nd(1) t2] show ?thesis using t1(1,4) nd(2) t2 by simp
qed

lemma run_put:
  assumes run: "table_run fam H M t" and p: "prefix_ok p" "family p = fam"
    and new: "nodes t new1 = None" "nodes t new2 = None" "new1 \<noteq> new2"
    and op: "route_node_get new1 new2 t p = Some (a, t1)" "modify a (\<lambda>nd. nd\<lparr>n_info := Some v\<rparr>) t1 = Some t2"
  shows "table_run fam (add_mset a H) (M(prefix_bits p \<mapsto> v)) t2"
proof -
  have r1: "table_run fam (add_mset a H) M t1" by (rule table_run.get [OF run p new op(1)])
  obtain p' k i where d: "node_data t1 a = Some (p', k, i)" "prefix_bits p' = prefix_bits p"
    using route_node_get_spec [OF table_ofD(1) [OF table_run_table_of [OF run]] new p] op(1) by auto
  obtain nd where nd: "nodes t1 a = Some nd" "n_p nd = p'" by (rule node_dataD [OF d(1)])
  from table_run.info [OF r1 _ nd(1) op(2)] show ?thesis using nd(2) d(2) by simp
qed

text \<open>The best match, in terms of the map.\<close>

lemma covers_key: "prefix_ok q \<Longrightarrow> prefix_ok p \<Longrightarrow> covers q p \<longleftrightarrow> take (length (prefix_bits q)) (prefix_bits p) = prefix_bits q"
  using length_take [of "prefixlen q" "prefix_bits p"] length_prefix_bits [of p] length_prefix_bits [of q] unfolding covers_def
  by (metis min.absorb_iff1 min.commute)

definition best_match :: "(bool list \<rightharpoonup> 'a) \<Rightarrow> bool list \<Rightarrow> bool list \<Rightarrow> bool" where
  "best_match M bs k \<longleftrightarrow> M k \<noteq> None \<and> take (length k) bs = k
     \<and> (\<forall>k'. M k' \<noteq> None \<and> take (length k') bs = k' \<longrightarrow> length k' \<le> length k)"

lemma route_node_match_best:
  assumes inv: "table_of fam H M t" and p: "prefix_ok p"
  shows "\<exists>r t'. route_node_match t p = Some (r, t') \<and> (case r of
      None \<Rightarrow> \<forall>k. M k \<noteq> None \<longrightarrow> take (length k) (prefix_bits p) \<noteq> k
    | Some a \<Rightarrow> \<exists>nd. nodes t a = Some nd \<and> best_match M (prefix_bits p) (key nd) \<and> n_info nd = M (key nd))"
proof -
  note I = table_ofD [OF inv]
  obtain r t' where r: "route_node_match t p = Some (r, t')" "case r of Some x \<Rightarrow> longest_match t p 0 x
       | None \<Rightarrow> \<forall>y ny. nodes t y = Some ny \<and> covers (n_p ny) p \<longrightarrow> n_info ny = None"
    using route_node_match_spec [OF I(1) p] by blast
  have cov: "covers (n_p ny) p \<longleftrightarrow> take (length (key ny)) (prefix_bits p) = key ny" "length (key ny) = klen ny"
    if "nodes t y = Some ny" for y ny
    using covers_key [OF trie_inv_prefix [OF I(3) that] p] length_prefix_bits [OF trie_inv_prefix [OF I(3) that]] by auto
  have node: "\<exists>y ny. nodes t y = Some ny \<and> key ny = k \<and> n_info ny = M k" if k: "M k \<noteq> None" for k
  proof -
    obtain v where "M k = Some v" using k by blast
    then show ?thesis using I(2) [of k v] unfolding stores_def by auto
  qed
  show ?thesis
  proof (cases r)
    case None
    have "take (length k) (prefix_bits p) \<noteq> k" if k: "M k \<noteq> None" for k
    proof -
      obtain y ny where y: "nodes t y = Some ny" "key ny = k" "n_info ny = M k" using node [OF k] by blast
      then have "\<not> covers (n_p ny) p" using r(2) None k by auto
      then show ?thesis using cov(1) [OF y(1)] y(2) by simp
    qed
    then show ?thesis using r(1) None by auto
  next
    case (Some a)
    then obtain na where a: "nodes t a = Some na" "covers (n_p na) p" "n_info na \<noteq> None"
        "\<forall>y ny. nodes t y = Some ny \<and> covers (n_p ny) p \<and> n_info ny \<noteq> None \<longrightarrow> klen ny \<le> klen na"
      using r(2) by (auto simp: longest_match_def)
    have M: "n_info na = M (key na)" using a(1,3) I(2) [of "key na" "the (n_info na)"] unfolding stores_def by auto
    moreover have "length k' \<le> length (key na)" if k': "M k' \<noteq> None" "take (length k') (prefix_bits p) = k'" for k'
    proof -
      obtain y ny where y: "nodes t y = Some ny" "key ny = k'" "n_info ny = M k'" using node [OF k'(1)] by blast
      then have "covers (n_p ny) p" using cov(1) [OF y(1)] k'(2) by simp
      then have "klen ny \<le> klen na" using a(4) y k'(1) by auto
      then show ?thesis using cov(2) [OF y(1)] cov(2) [OF a(1)] y(2) by simp
    qed
    ultimately have "best_match M (prefix_bits p) (key na)" using a cov by (auto simp: best_match_def)
    then show ?thesis using r(1) Some a(1) M by auto
  qed
qed

subsection \<open>An example\<close>

text \<open>The prefixes 10.0.0.0/8 and 11.0.0.0/8, each with data, and the node 10.0.0.0/7 above them.\<close>

definition net :: "u8 \<Rightarrow> nat \<Rightarrow> prefix" where
  "net b n = \<lparr>family = FAM_INET, prefixlen = n, u_prefix = b # replicate 15 0\<rparr>"

definition example_one :: "nat route_table" where
  "example_one = \<lparr>nodes = [5 \<mapsto> \<lparr>n_p = net 10 8, n_parent = None, l_left = None, l_right = None, n_lock = 1, n_info = Some 100\<rparr>],
     t_top = Some 5, t_count = 1\<rparr>"

definition example_two :: "nat route_table" where
  "example_two = \<lparr>nodes =
       [5 \<mapsto> \<lparr>n_p = net 10 8, n_parent = Some 6, l_left = None, l_right = None, n_lock = 1, n_info = Some 100\<rparr>,
        6 \<mapsto> \<lparr>n_p = net 10 7, n_parent = None, l_left = Some 5, l_right = Some 7, n_lock = 0, n_info = None\<rparr>,
        7 \<mapsto> \<lparr>n_p = net 11 8, n_parent = Some 6, l_left = None, l_right = None, n_lock = 1, n_info = Some 200\<rparr>],
     t_top = Some 6, t_count = 3\<rparr>"

lemmas insert_defs = route_node_get_def insert_leaf_def insert_branch_def attach_def set_link_def route_node_set_def
  route_node_new_def route_node_create_def route_lock_node_def modify_def with_link_def walk_on_def

lemma example_prefixes:
  "prefix_copy prefix_new (net 10 8) = Some (net 10 8)" "prefix_copy prefix_new (net 11 8) = Some (net 11 8)"
  "prefix_match (net 10 8) (net 11 8) = Some False"
  "route_common (net 10 8) (net 11 8) prefix_new = Some ((net 10 7)\<lparr>family := 0\<rparr>)"
  "prefix_bit (u_prefix (net 10 8)) 7 = Some False" "prefix_bit (u_prefix (net 11 8)) 7 = Some True"
  by code_simp+

lemma net_simps [simp]: "family (net b n) = FAM_INET" "prefixlen (net b n) = n" "(net b n)\<lparr>family := f, family := FAM_INET\<rparr> = net b n"
  by (simp_all add: net_def)

lemma example_get_one:
  "\<exists>t. route_node_get 5 6 route_table_init (net 10 8) = Some (5, t) \<and> modify 5 (\<lambda>nd. nd\<lparr>n_info := Some 100\<rparr>) t = Some example_one"
  by (simp add: insert_defs route_table_init_def get_loop_eqs example_prefixes example_one_def)

lemma example_get_loop: "get_loop example_one (net 11 8) (Some 5) None = Some (Inr (None, Some 5))"
  unfolding example_one_def by (subst get_loop.simps) (simp add: walk_on_def example_prefixes)

lemma example_get_two:
  "\<exists>t. route_node_get 6 7 example_one (net 11 8) = Some (7, t) \<and> modify 7 (\<lambda>nd. nd\<lparr>n_info := Some 200\<rparr>) t = Some example_two"
proof -
  have "t_top example_one = Some 5" by (simp add: example_one_def)
  then show ?thesis
    by (simp add: route_node_get_def example_get_loop, simp add: example_one_def insert_defs example_prefixes Let_def)
      (simp add: example_two_def fun_upd_twist)
qed

lemma example_leaf:
  "\<exists>t nd. route_node_get 5 6 (route_table_init :: nat route_table) (net 10 8) = Some (5, t) \<and> nodes t 5 = Some nd \<and> n_info nd = None"
  by (simp add: insert_defs route_table_init_def get_loop_eqs example_prefixes)

lemma net_ok: "n \<le> 32 \<Longrightarrow> prefix_ok (net b n)"
  by (simp add: net_def prefix_ok_def)

lemma example_run:
  "table_run FAM_INET {#7, 5#} [prefix_bits (net 10 8) \<mapsto> 100, prefix_bits (net 11 8) \<mapsto> 200] example_two"
proof -
  obtain t1 where "route_node_get 5 6 route_table_init (net 10 8) = Some (5, t1)"
    "modify 5 (\<lambda>nd. nd\<lparr>n_info := Some 100\<rparr>) t1 = Some example_one" using example_get_one by blast
  from run_put [OF table_run.init net_ok _ _ _ _ this] have one: "table_run FAM_INET {#5#} [prefix_bits (net 10 8) \<mapsto> 100] example_one"
    by (simp add: route_table_init_def)
  obtain t2 where "route_node_get 6 7 example_one (net 11 8) = Some (7, t2)"
    "modify 7 (\<lambda>nd. nd\<lparr>n_info := Some 200\<rparr>) t2 = Some example_two" using example_get_two by blast
  from run_put [OF one net_ok _ _ _ _ this] show ?thesis by (simp add: example_one_def)
qed

subsection \<open>Properties of a table in use\<close>

text \<open>
  C5: In every run of a table by its clients the tree is well formed (each node is
  linked below the longest prefix above it, on the side of its next bit), the node counter
  is the number of nodes, the lock of every node is the number of references to it, a node
  that nobody refers to only branches, and the table stores exactly the map of its clients.
\<close>

theorem table_run_refines:
  assumes "table_run fam H M t"
  shows "trie_shape fam t \<and> t_count t = card (dom (nodes t))
    \<and> (\<forall>a nd. nodes t a = Some nd \<longrightarrow> n_lock nd = count H a
        \<and> (n_lock nd = 0 \<longrightarrow> n_info nd = None \<and> l_left nd \<noteq> None \<and> l_right nd \<noteq> None))
    \<and> (\<forall>k v. (\<exists>a nd. nodes t a = Some nd \<and> key nd = k \<and> n_info nd = Some v) \<longleftrightarrow> M k = Some v)"
proof -
  note I = table_ofD [OF table_run_table_of [OF assms]] and J = table_invD [OF table_ofD(1) [OF table_run_table_of [OF assms]]]
  have "n_lock nd = count H a \<and> (n_lock nd = 0 \<longrightarrow> n_info nd = None \<and> l_left nd \<noteq> None \<and> l_right nd \<noteq> None)"
    if "nodes t a = Some nd" for a nd
    using heldD [OF J(4) node_dataI [OF that]] slot_left_right [OF that] by auto
  then show ?thesis using I(2) J(1,2) unfolding stores_def by blast
qed

theorem table_run_refines_witness:
  "trie_shape FAM_INET example_two \<and> t_count example_two = card (dom (nodes example_two))
   \<and> (\<forall>k v. (\<exists>a nd. nodes example_two a = Some nd \<and> key nd = k \<and> n_info nd = Some v)
        \<longleftrightarrow> [prefix_bits (net 10 8) \<mapsto> 100, prefix_bits (net 11 8) \<mapsto> 200] k = Some v)"
  using table_run_refines [OF example_run] by blast

text \<open>
  C13: When the clients of a table have released all their references, the table has no
  node left and its counter is 0: no node is leaked.
\<close>

theorem table_run_released:
  assumes "table_run fam {#} M t"
  shows "nodes t = Map.empty \<and> route_table_count t = 0 \<and> M = Map.empty"
proof -
  note I = table_ofD [OF table_run_table_of [OF assms]]
  have dom: "dom (nodes t) = {}" by (rule released_empty [OF I(1)])
  then have "\<not> stores t k v" for k v by (auto simp: stores_def)
  then have "M k = None" for k using I(2) by (metis not_None_eq)
  then show ?thesis using dom table_invD(2) [OF I(1)] by (auto simp: route_table_count_def)
qed

theorem table_run_released_witness:
  "\<exists>t t'. route_node_get 5 6 (route_table_init :: nat route_table) (net 10 8) = Some (5, t) \<and> route_unlock_node 5 t = Some t'
     \<and> nodes t' = Map.empty \<and> route_table_count t' = 0"
proof -
  obtain t nd where t: "route_node_get 5 6 (route_table_init :: nat route_table) (net 10 8) = Some (5, t)" "nodes t 5 = Some nd" "n_info nd = None"
    using example_leaf by blast
  have run: "table_run FAM_INET {#5#} Map.empty t"
    using table_run.get [OF table_run.init net_ok _ _ _ _ t(1), of FAM_INET] by (simp add: route_table_init_def)
  then obtain t' where t': "route_unlock_node 5 t = Some t'"
    using route_unlock_node_spec [OF table_ofD(1) [OF table_run_table_of [OF run]] node_dataI [OF t(2)]] t(3) by blast
  show ?thesis using table_run_released [OF table_run.unlock [OF run t(2) _ t']] t t' by blast
qed

text \<open>
  C11: Searching a table for an address or a prefix returns, and finds the stored prefix
  with the longest match; it finds none exactly when no stored prefix matches.
\<close>

theorem route_node_match_longest:
  assumes "table_run fam H M t" "prefix_ok p"
  shows "\<exists>r t'. route_node_match t p = Some (r, t') \<and> (case r of
      None \<Rightarrow> \<forall>k. M k \<noteq> None \<longrightarrow> take (length k) (prefix_bits p) \<noteq> k
    | Some a \<Rightarrow> \<exists>nd. nodes t a = Some nd \<and> best_match M (prefix_bits p) (key nd) \<and> n_info nd = M (key nd))"
  by (rule route_node_match_best [OF table_run_table_of [OF assms(1)] assms(2)])

theorem route_node_match_longest_witness:
  "prefix_ok (net 10 16) \<and> (\<exists>r t'. route_node_match example_two (net 10 16) = Some (r, t') \<and> r \<noteq> None)"
proof -
  have "[prefix_bits (net 10 8) \<mapsto> 100, prefix_bits (net 11 8) \<mapsto> 200] (prefix_bits (net 10 8)) \<noteq> None" by simp
  moreover have "take (length (prefix_bits (net 10 8))) (prefix_bits (net 10 16)) = prefix_bits (net 10 8)" by code_simp
  ultimately show ?thesis
    using route_node_match_longest [OF example_run net_ok, of 16 10] net_ok [of 16 10] by (fastforce split: option.splits)
qed

text \<open>
  C12: Data stored under a prefix is what a lookup of the prefix returns, and no other
  prefix is affected by storing it.
\<close>

theorem table_put_lookup:
  assumes "table_run fam H M t" "prefix_ok p" "family p = fam" "nodes t new1 = None" "nodes t new2 = None" "new1 \<noteq> new2"
    "prefix_ok q"
  shows "\<exists>a t1 t2. route_node_get new1 new2 t p = Some (a, t1) \<and> modify a (\<lambda>nd. nd\<lparr>n_info := Some v\<rparr>) t1 = Some t2
    \<and> lookup_data t2 q = Some (if prefix_bits q = prefix_bits p then Some v else M (prefix_bits q))"
proof -
  obtain a t1 t2 where t2: "route_node_get new1 new2 t p = Some (a, t1)" "modify a (\<lambda>nd. nd\<lparr>n_info := Some v\<rparr>) t1 = Some t2"
    "table_of fam (add_mset a H) (M(prefix_bits p \<mapsto> v)) t2"
    using put_table_of [OF table_run_table_of [OF assms(1)] assms(2-6)] by blast
  then show ?thesis using lookup_data_eq [OF t2(3) assms(7)] by auto
qed

theorem table_put_lookup_witness:
  "\<exists>a t1 t2. route_node_get 8 9 example_two (net 12 8) = Some (a, t1) \<and> modify a (\<lambda>nd. nd\<lparr>n_info := Some 300\<rparr>) t1 = Some t2
     \<and> lookup_data t2 (net 10 8) = Some (Some 100)"
proof -
  have "prefix_bits (net 10 8) \<noteq> prefix_bits (net 12 8)" "prefix_bits (net 10 8) \<noteq> prefix_bits (net 11 8)" by code_simp+
  then show ?thesis
    using table_put_lookup [OF example_run net_ok _ _ _ _ net_ok, of 8 12 8 9 8 300 10] by (simp add: example_two_def)
qed

text \<open>
  C9: Walking a table with an iterator ends after it has visited every node exactly once,
  in the order of the prefixes, and leaves the table as it was.
\<close>

theorem route_table_iter_visits:
  assumes "table_run fam H M t"
  shows "\<exists>as it. iter_collect route_table_iter_init t = Some (as, it, t) \<and> it_state it = RT_ITER_STATE_DONE
    \<and> set as = dom (nodes t) \<and> sorted_wrt (<) (map (key_of t) as)"
  by (rule iter_collect_all [OF table_ofD(1) [OF table_run_table_of [OF assms]]])

theorem route_table_iter_visits_witness:
  "\<exists>as it. iter_collect route_table_iter_init example_two = Some (as, it, example_two) \<and> set as = {5, 6, 7}
     \<and> sorted_wrt (<) (map (key_of example_two) as)"
proof -
  have "dom (nodes example_two) = {5, 6, 7}" by (auto simp: example_two_def split: if_splits)
  then show ?thesis using route_table_iter_visits [OF example_run] by auto
qed

text \<open>
  C10: Every operation on a table returns, whatever its clients did before: no loop runs
  forever, no assertion fails and no freed node is touched, as long as the last reference
  to a node with data is not released. Freeing the whole table ends as well.
\<close>

theorem table_ops_return:
  assumes "table_run fam H M t"
  shows "(\<forall>p. prefix_ok p \<longrightarrow> route_node_lookup t p \<noteq> None \<and> route_node_match t p \<noteq> None \<and> route_table_get_next t p \<noteq> None
        \<and> (family p = fam \<longrightarrow> (\<forall>x y. nodes t x = None \<and> nodes t y = None \<and> x \<noteq> y \<longrightarrow> route_node_get x y t p \<noteq> None)))
    \<and> (\<forall>a nd. a \<in># H \<and> nodes t a = Some nd \<and> (1 < count H a \<or> n_info nd = None) \<longrightarrow>
        route_unlock_node a t \<noteq> None \<and> route_next t a \<noteq> None)
    \<and> route_table_free t \<noteq> None"
proof -
  note inv = table_ofD(1) [OF table_run_table_of [OF assms]]
  have "route_unlock_node a t \<noteq> None \<and> route_next t a \<noteq> None"
    if a: "a \<in># H" "nodes t a = Some nd" "1 < count H a \<or> n_info nd = None" for a nd
  proof -
    obtain H' where H: "H = add_mset a H'" using a(1) by (metis mset_add)
    then have "a \<in># H' \<or> n_info nd = None" using a(3) by auto
    then show ?thesis
      using route_unlock_node_spec [OF inv [unfolded H] node_dataI [OF a(2)]] route_next_ref [OF inv [unfolded H] a(2)] by auto
  qed
  moreover have "route_table_free t \<noteq> None" using route_table_free_spec [OF inv] by auto
  moreover have "route_node_lookup t p \<noteq> None \<and> route_node_match t p \<noteq> None \<and> route_table_get_next t p \<noteq> None" if "prefix_ok p" for p
    using route_node_lookup_spec [OF inv that] route_node_match_spec [OF inv that] get_next_ref [OF inv that] by auto
  moreover have "route_node_get x y t p \<noteq> None" if "prefix_ok p" "family p = fam" "nodes t x = None" "nodes t y = None" "x \<noteq> y" for p x y
    using route_node_get_spec [OF inv that(3-5,1,2)] by auto
  ultimately show ?thesis by blast
qed

theorem table_ops_return_witness:
  "route_node_get 8 9 example_two (net 12 8) \<noteq> None \<and> route_table_get_next example_two (net 12 8) \<noteq> None
   \<and> route_table_free example_two \<noteq> None"
  using table_ops_return [OF example_run] net_ok [of 8 12] by (auto simp: example_two_def)

end
