(* ===== verification/Spec2Isabelle.thy ===== *)
theory Spec2Isabelle
  imports Aspath_Intern Tarpan_Path Rib Route_Table_Runs
begin

text \<open>
  A verification library for Tarpan, an extension of the Quagga routing suite that lets
  BGP carry the attributes of other routing protocols, and for Wiser, the protocol that
  uses it. Paths below are relative to \<open>src/\<close>.

  \<^bold>\<open>The program.\<close> \<open>bgpd\<close> receives routes from its peers as packets. A packet is a byte
  buffer (\<open>lib/stream.c\<close>); its attributes are parsed, and AS paths (\<open>bgpd/bgp_aspath.c\<close>)
  and Tarpan messages (\<open>bgpd/bgp_tarpan.c\<close>) are interned in hash tables (\<open>lib/hash.c\<close>,
  \<open>lib/jhash.c\<close>) with reference counts. The routes of a prefix hang on a node of a routing
  table (\<open>lib/table.c\<close>, \<open>lib/prefix.c\<close>); the decision process (\<open>bgp_info_cmp\<close> of
  \<open>bgpd/bgp_route.c\<close>, or the comparison of the active Tarpan protocol) selects one of them,
  which is announced to the peers and to the kernel. When an announcement is sent, the
  active protocol updates its part of the Tarpan message; when one is received, it reads
  it. Wiser (\<open>bgpd/wiser.cpp\<close>, \<open>bgpd/wiser_costs.hpp\<close>,
  \<open>bgpd/wiser_static_path_costs.hpp\<close>) adds the cost of the link to the path cost and
  reports costs to the cost portals of other networks.

  \<^bold>\<open>Conventions.\<close> Words are machine integers, \<open>size_t\<close> is a natural number with the
  wrap-around written out where it matters. \<open>None\<close> of an outer \<open>option\<close> is the end of the
  process: a failed assertion, or an access C leaves undefined. Error codes are values.
  State is passed explicitly: a stream, a table of interned objects, a node with its
  routes, a store of tree nodes. Addresses of new objects are arguments. Code that the
  build generates from the \<open>.proto\<close> files is a parameter.

  \<^bold>\<open>Theories.\<close>
  \<^item> \<open>Prelude\<close>: machine integers, buffers, big-endian encodings, decimal strings, loops
    over fallible operations.
  \<^item> \<open>Byte_Stream\<close> (\<open>lib/stream.c\<close>): the record \<open>stream\<close> with its two cursors and every
    access to the buffer. Every sequence of operations keeps the cursors in order; what
    is written is read back.
  \<^item> \<open>Aspath\<close> (\<open>bgpd/bgp_aspath.c\<close>): segments and the operations on AS paths. Normal forms
    are canonical; prepending, filtering, aggregation and reconciliation with AS4_PATH do
    what they mean to do, except for aggregation across a segment border, where a theorem
    shows the AS numbers that get lost.
  \<^item> \<open>Aspath_Wire\<close> (\<open>assegments_parse\<close>, \<open>aspath_put\<close>): the parser accepts exactly the
    encodings; what the encoder writes is parsed back; overlength segments repeat AS numbers.
  \<^item> \<open>Hash\<close>, \<open>Jhash\<close> (\<open>lib/hash.c\<close>, \<open>lib/jhash.c\<close>): chained hash tables that grow, with
    their map view; the word hash is the byte hash of the memory of the words.
  \<^item> \<open>Interning\<close>: the contract of an attribute table as the locale \<open>interning\<close>, with runs
    of intern, reference and unintern and their invariant. \<open>Aspath_Intern\<close> and \<open>Tarpan\<close>
    interpret it for AS paths and Tarpan messages.
  \<^item> \<open>Bgp_Base\<close>: flags, socket addresses (\<open>lib/sockunion.c\<close>), the fields of \<open>struct bgp\<close>
    and \<open>struct peer\<close> that the code reads.
  \<^item> \<open>Wiser\<close>: the configuration file, the cost tables, the packet handlers and both ends
    of the cost portal.
  \<^item> \<open>Tarpan\<close> (\<open>bgpd/bgp_tarpan.c\<close> and the Tarpan parts of \<open>bgpd/bgp_attr.c\<close>): the table
    of messages, sending and receiving the attribute through the handlers of the active
    protocol.
  \<^item> \<open>Tarpan_Path\<close>: a route that travels along a list of routers, each of which sends with
    \<open>bgp_packet_attribute\<close> and receives with \<open>bgp_attr_parse\<close>. The locale
    \<open>tarpan_protocol\<close> says what Tarpan asks of a protocol; Wiser is an interpretation, and
    the cost that arrives is the sum of the costs of the links.
  \<^item> \<open>Route_Decision\<close> (\<open>bgp_info_cmp\<close>, \<open>wiser_info_cmp\<close>): the steps of the decision
    process in the order of the code. With MEDs always compared it is a lexicographic
    order; without, it can be cyclic.
  \<^item> \<open>Rib\<close> (\<open>bgpd/bgp_route.c\<close>): the routes of a node, their flags and the prefix counters
    of the peers, \<open>bgp_best_selection\<close> and \<open>bgp_process_main\<close>. The locale
    \<open>route_preference\<close> is what selection asks of a comparison; both comparisons are
    interpretations.
  \<^item> \<open>Prefix\<close> (\<open>lib/prefix.c\<close>): prefixes as bytes and lengths; matching by bytes and masks
    is matching of bits.
  \<^item> \<open>Route_Table\<close> (\<open>lib/table.c\<close>): the routing table as a store of nodes with pointers.
    Searches end, and find the exact or the longest matching prefix. \<open>Route_Table_Update\<close>
    shows that insertion and deletion keep the tree and the reference counts right,
    \<open>Route_Table_Order\<close> that the next node is the successor in the order of the prefixes,
    \<open>Route_Table_Iter\<close> that walks and iterators, also paused ones, visit what they should,
    and \<open>Route_Table_Runs\<close> collects this into properties of every run: the table refines
    a finite map, all operations return, and released tables are empty.

  \<^bold>\<open>Fuel and bounds.\<close> No definition has fuel. Loops over lists are structural; the cost
  portal's loop terminates by the length of its input; the loops that follow pointers in
  the routing table are partial functions, shown to return on every well-shaped table.

  \<^bold>\<open>Not modelled.\<close> Sockets, timers, threads and logging are I/O; the order of concurrent
  updates of the cost tables is covered by a lemma on interleavings. Configuration
  commands, SNMP, dumps and the other daemons of the suite are unchanged by Tarpan and
  independent of it. Conversions between addresses and text rest on the C library's
  \<open>inet_aton\<close> and \<open>inet_ntop\<close>. Multipath selection is off by default, and the model of
  \<open>bgp_best_selection\<close> is that of one path. The finite state machine of a session and the
  packets other than the attributes above are not translated.
\<close>

end
